(* ===== verification/Prelude.thy ===== *)
theory Prelude
  imports Main "HOL-Library.Word" "HOL-Library.Char_ord" "HOL-Library.List_Lexorder"
    "HOL-Library.Product_Lexorder"
begin

text \<open>
  Shared vocabulary of the development.

  \<^item> Go errors are values of type \<open>error\<close>; a Go function with results
    \<open>(T, error)\<close> returns \<open>error + T\<close> (\<open>Inl\<close> the error).
  \<^item> A Go function with effects is an \<open>io\<close> action: a function from the state
    to the result and the state after the call. \<open>bindE\<close> is the
    \<open>if err != nil { return err }\<close> of the source: the second action runs only
    when the first one returned no error.
  \<^item> \<open>preserves\<close> is the judgement with which the components
    state what an action keeps; it has one rule per combinator, so that the
    proofs about an operation follow its text.
  \<^item> \<open>reach\<close> and the locale \<open>invariant_system\<close>: reachable states and the
    contract of an inductive invariant.
\<close>

section \<open>Errors and effectful functions\<close>

named_theorems io_simps \<open>unfolding rules of the effect combinators\<close>
named_theorems preserves_rules \<open>rules of the judgement preserves\<close>

type_synonym byte = "8 word"

type_synonym time = int
  \<comment> \<open>Go's \<open>time.Time\<close> as the nanoseconds since its zero value\<close>

type_synonym duration = int
  \<comment> \<open>Go's \<open>time.Duration\<close> in nanoseconds\<close>

datatype error = SqlError string | GoError string

fun Error :: "error \<Rightarrow> string" where
  "Error (SqlError m) = m"
| "Error (GoError m) = m"

type_synonym ('s, 'a) io = "'s \<Rightarrow> (error + 'a) \<times> 's"

definition returnE :: "'a \<Rightarrow> ('s, 'a) io" where
  "returnE x = (\<lambda>s. (Inr x, s))"

definition throwE :: "error \<Rightarrow> ('s, 'a) io" where
  "throwE e = (\<lambda>s. (Inl e, s))"

definition bindE :: "('s, 'a) io \<Rightarrow> ('a \<Rightarrow> ('s, 'b) io) \<Rightarrow> ('s, 'b) io" where
  "bindE m f = (\<lambda>s. case m s of (Inl e, s') \<Rightarrow> (Inl e, s') | (Inr x, s') \<Rightarrow> f x s')"

definition tryE :: "('s, 'a) io \<Rightarrow> (error + 'a \<Rightarrow> ('s, 'b) io) \<Rightarrow> ('s, 'b) io" where
  \<comment> \<open>a call whose error the caller inspects instead of returning it\<close>
  "tryE m f = (\<lambda>s. case m s of (r, s') \<Rightarrow> f r s')"

definition fromSum :: "error + 'a \<Rightarrow> ('s, 'a) io" where
  "fromSum r = (\<lambda>s. (r, s))"

definition gets :: "('s \<Rightarrow> 'a) \<Rightarrow> ('s, 'a) io" where
  "gets f = (\<lambda>s. (Inr (f s), s))"

definition modify :: "('s \<Rightarrow> 's) \<Rightarrow> ('s, unit) io" where
  "modify f = (\<lambda>s. (Inr (), f s))"

lemmas [io_simps] = returnE_def throwE_def fromSum_def gets_def modify_def

lemma bindE_Inr_iff:
  "bindE m f s = (Inr y, t) \<longleftrightarrow> (\<exists>x s1. m s = (Inr x, s1) \<and> f x s1 = (Inr y, t))"
  by (auto simp: bindE_def split: prod.splits sum.splits)

lemma bindE_Inl_iff:
  "bindE m f s = (Inl e, t) \<longleftrightarrow>
     m s = (Inl e, t) \<or> (\<exists>x s1. m s = (Inr x, s1) \<and> f x s1 = (Inl e, t))"
  by (auto simp: bindE_def split: prod.splits sum.splits)

lemma bindE_run [simp]:
  "m s = (Inr x, s1) \<Longrightarrow> bindE m f s = f x s1"
  "m s = (Inl e, s1) \<Longrightarrow> bindE m f s = (Inl e, s1)"
  by (simp_all add: bindE_def)

lemma tryE_run [simp]: "m s = (r, s1) \<Longrightarrow> tryE m f s = f r s1"
  by (simp add: tryE_def)

lemma returnE_run [simp]: "returnE x s = (Inr x, s)"
  by (simp add: returnE_def)

lemma throwE_run [simp]: "throwE e s = (Inl e, s)"
  by (simp add: throwE_def)

lemma bindE_return [simp]: "bindE (returnE x) f = f x"
  by (simp add: bindE_def returnE_def)

lemma bindE_assoc: "bindE (bindE m f) g = bindE m (\<lambda>x. bindE (f x) g)"
  by (rule ext) (auto simp: bindE_def split: prod.splits sum.splits)

section \<open>Strings\<close>

definition quoteChar :: "char \<Rightarrow> string" where
  "quoteChar c =
     (if c = CHR 0x22 then [CHR 0x5C, CHR 0x22]
      else if c = CHR 0x5C then [CHR 0x5C, CHR 0x5C]
      else if c = CHR 0x07 then [CHR 0x5C, CHR ''a'']
      else if c = CHR 0x08 then [CHR 0x5C, CHR ''b'']
      else if c = CHR 0x0C then [CHR 0x5C, CHR ''f'']
      else if c = CHR 0x0A then [CHR 0x5C, CHR ''n'']
      else if c = CHR 0x0D then [CHR 0x5C, CHR ''r'']
      else if c = CHR 0x09 then [CHR 0x5C, CHR ''t'']
      else if c = CHR 0x0B then [CHR 0x5C, CHR ''v'']
      else [c])"

definition goQuote :: "string \<Rightarrow> string" where
  \<comment> \<open>the verb \<open>%q\<close> of \<open>fmt\<close> on printable text and the named escapes\<close>
  "goQuote s = [CHR 0x22] @ concat (map quoteChar s) @ [CHR 0x22]"

section \<open>What an action keeps\<close>

definition preserves :: "('s \<Rightarrow> bool) \<Rightarrow> ('s, 'a) io \<Rightarrow> bool" where
  "preserves I m \<longleftrightarrow> (\<forall>s. I s \<longrightarrow> I (snd (m s)))"

lemma preservesI: "(\<And>s. I s \<Longrightarrow> I (snd (m s))) \<Longrightarrow> preserves I m"
  by (simp add: preserves_def)

lemma preservesD: "preserves I m \<Longrightarrow> I s \<Longrightarrow> m s = (r, t) \<Longrightarrow> I t"
  by (fastforce simp: preserves_def)

lemma preserves_pure [preserves_rules, intro!]:
  "preserves I (returnE x)" "preserves I (throwE e)" "preserves I (fromSum r)"
  "preserves I (gets f)"
  by (simp_all add: preserves_def io_simps)

lemma preserves_modify [preserves_rules]:
  "(\<And>s. I s \<Longrightarrow> I (f s)) \<Longrightarrow> preserves I (modify f)"
  by (simp add: preserves_def modify_def)

lemma preserves_bind [preserves_rules]:
  assumes "preserves I m" and "\<And>x. preserves I (f x)"
  shows "preserves I (bindE m f)"
proof (rule preservesI)
  fix s
  assume I: "I s"
  obtain r s1 where m: "m s = (r, s1)" by (cases "m s")
  with assms(1) I have "I s1" by (rule preservesD)
  with m assms(2) show "I (snd (bindE m f s))"
    by (cases r) (auto simp: preserves_def)
qed

lemma preserves_try [preserves_rules]:
  assumes "preserves I m" and "\<And>r. preserves I (f r)"
  shows "preserves I (tryE m f)"
proof (rule preservesI)
  fix s
  assume I: "I s"
  obtain r s1 where m: "m s = (r, s1)" by (cases "m s")
  with assms(1) I have "I s1" by (rule preservesD)
  with m assms(2) show "I (snd (tryE m f s))"
    by (auto simp: preserves_def)
qed

lemma preserves_if [preserves_rules]:
  "preserves I m \<Longrightarrow> preserves I n \<Longrightarrow> preserves I (if b then m else n)"
  by simp

lemma preserves_bind_post:
  assumes "preserves I m" and "\<And>s x t. m s = (Inr x, t) \<Longrightarrow> P x" and "\<And>x. P x \<Longrightarrow> preserves I (f x)"
  shows "preserves I (bindE m f)"
proof (rule preservesI)
  fix s
  assume I: "I s"
  obtain r s1 where m: "m s = (r, s1)" by (cases "m s")
  with assms(1) I have "I s1" by (rule preservesD)
  with m assms(2,3) show "I (snd (bindE m f s))"
    by (cases r) (auto simp: preserves_def)
qed

lemma preserves_conj:
  "preserves I m \<Longrightarrow> preserves J m \<Longrightarrow> preserves (\<lambda>s. I s \<and> J s) m"
  by (simp add: preserves_def)

section \<open>Actions that return no error\<close>

named_theorems total_rules \<open>rules of the judgement total\<close>

definition total :: "('s, 'a) io \<Rightarrow> bool" where
  "total m \<longleftrightarrow> (\<forall>s. \<exists>x t. m s = (Inr x, t))"

lemma totalD: "total m \<Longrightarrow> \<exists>x t. m s = (Inr x, t)"
  by (simp add: total_def)

lemma total_pure [total_rules, intro!]:
  "total (returnE x)" "total (gets f)" "total (modify g)"
  by (simp_all add: total_def io_simps)

lemma total_bind [total_rules]: "total m \<Longrightarrow> (\<And>x. total (f x)) \<Longrightarrow> total (bindE m f)"
  unfolding total_def by (metis bindE_run(1))

lemma total_try [total_rules]: "(\<And>r. total (f r)) \<Longrightarrow> total (tryE m f)"
  unfolding total_def by (metis surj_pair tryE_run)

lemma total_if [total_rules]: "total m \<Longrightarrow> total n \<Longrightarrow> total (if b then m else n)"
  by simp

section \<open>The clock and the random source of the process\<close>

text \<open>
  What the process reads from the operating system: the successive results of
  \<open>time.Now().UTC()\<close> and the byte stream of \<open>crypto/rand\<close>. Both are arbitrary
  functions with a read position, so every theorem holds for every clock (also one that
  steps backwards) and every random source. The components extend this record.
\<close>

record os =
  clock :: "nat \<Rightarrow> time"
  nclock :: nat
  rand :: "nat \<Rightarrow> byte"
  nrand :: nat

definition Now :: "('z os_scheme, time) io" where
  "Now = (\<lambda>s. (Inr (clock s (nclock s)), s\<lparr>nclock := Suc (nclock s)\<rparr>))"

definition randRead :: "nat \<Rightarrow> ('z os_scheme, byte list) io" where
  \<comment> \<open>\<open>rand.Read\<close> of a buffer of \<open>n\<close> bytes; \<open>crypto/rand\<close> does not fail\<close>
  "randRead n = (\<lambda>s. (Inr (map (rand s) [nrand s ..< nrand s + n]), s\<lparr>nrand := nrand s + n\<rparr>))"

lemma preserves_Now [preserves_rules]:
  "(\<And>s n. I (s\<lparr>nclock := n\<rparr>) = I s) \<Longrightarrow> preserves I Now"
  by (simp add: preserves_def Now_def)

lemma preserves_randRead [preserves_rules]:
  "(\<And>s n. I (s\<lparr>nrand := n\<rparr>) = I s) \<Longrightarrow> preserves I (randRead k)"
  by (simp add: preserves_def randRead_def)

section \<open>Transition systems\<close>

inductive reach :: "('s \<Rightarrow> bool) \<Rightarrow> ('s \<Rightarrow> 's \<Rightarrow> bool) \<Rightarrow> 's \<Rightarrow> bool"
  for init :: "'s \<Rightarrow> bool" and step :: "'s \<Rightarrow> 's \<Rightarrow> bool" where
  reach_init: "init s \<Longrightarrow> reach init step s"
| reach_step: "reach init step s \<Longrightarrow> step s t \<Longrightarrow> reach init step t"

text \<open>
  The contract of an inductive invariant; a component proves the two laws for its steps
  and gets the invariant in every reachable state.
\<close>

locale invariant_system =
  fixes init :: "'s \<Rightarrow> bool" and step :: "'s \<Rightarrow> 's \<Rightarrow> bool" and inv :: "'s \<Rightarrow> bool"
  assumes inv_init: "init s \<Longrightarrow> inv s"
    and inv_step: "inv s \<Longrightarrow> step s t \<Longrightarrow> inv t"
begin

lemma reach_inv: "reach init step s \<Longrightarrow> inv s"
  by (induction rule: reach.induct) (auto intro: inv_init inv_step)

lemma star_inv: "step\<^sup>*\<^sup>* s t \<Longrightarrow> inv s \<Longrightarrow> inv t"
  by (induction rule: rtranclp_induct) (auto intro: inv_step)

end

section \<open>Loops\<close>

text \<open>
  The contract of a loop \<open>for cond { body }\<close> whose body reports whether the loop goes on:
  with an invariant and a measure that decreases in every round that goes on, the loop
  returns, in a state related to the first one, where the exit condition holds.
\<close>

locale bounded_loop =
  fixes loop :: "'s \<Rightarrow> 's option" and body :: "('s, bool) io"
    and inv :: "'s \<Rightarrow> bool" and m :: "'s \<Rightarrow> nat" and rel :: "'s \<Rightarrow> 's \<Rightarrow> bool" and post :: "'s \<Rightarrow> bool"
  assumes loop_eq: "loop s = (case body s of (r, t) \<Rightarrow> if r = Inr True then loop t else Some t)"
    and body_inv: "inv s \<Longrightarrow> body s = (r, t) \<Longrightarrow> inv t"
    and body_dec: "inv s \<Longrightarrow> body s = (Inr True, t) \<Longrightarrow> m t < m s"
    and body_rel: "inv s \<Longrightarrow> body s = (r, t) \<Longrightarrow> rel s t"
    and rel_trans: "rel s t \<Longrightarrow> rel t u \<Longrightarrow> rel s u"
    and body_exit: "inv s \<Longrightarrow> body s = (r, t) \<Longrightarrow> r \<noteq> Inr True \<Longrightarrow> post t"
begin

lemma loop_returns: "inv s \<Longrightarrow> \<exists>t. loop s = Some t \<and> inv t \<and> rel s t \<and> post t"
proof (induction "m s" arbitrary: s rule: less_induct)
  case less
  obtain r t where b: "body s = (r, t)" by (cases "body s")
  note t = body_inv [OF less.prems b] body_rel [OF less.prems b]
  show ?case
  proof (cases "r = Inr True")
    case True
    with b body_dec [OF less.prems] have "m t < m s" by simp
    from less.hyps [OF this t(1)] obtain u where "loop t = Some u" "inv u" "rel t u" "post u" by blast
    with True b t show ?thesis
      by (intro exI [of _ u]) (auto simp: loop_eq [of s] intro: rel_trans)
  next
    case False
    with b t body_exit [OF less.prems b] show ?thesis by (simp add: loop_eq [of s])
  qed
qed

end

end
