(* ===== verification/Sql.thy ===== *)
theory Sql
  imports Prelude
begin

text \<open>
  The SQL statements the store issues, and the connection they run on.

  A table is the list of its rows in rowid order. The statement functions give the
  meaning of the SQL text in \<^verbatim>\<open>src/internal/store\<close>: \<open>INSERT OR IGNORE\<close>
  (a row that violates a primary key or a \<open>UNIQUE\<close> constraint is skipped),
  \<open>INSERT\<close> (such a row is an error), \<open>UPDATE ... WHERE\<close>, \<open>DELETE ... WHERE\<close> and
  \<open>SELECT ... WHERE ... ORDER BY\<close>. The uniqueness constraints of a table are one
  symmetric relation \<open>conf\<close> ("these two rows cannot both be stored").

  The database engine is not part of the sources, so any statement may fail: the
  connection carries a schedule of failures, consulted once per \<open>Begin\<close>, \<open>Exec\<close>,
  \<open>Query\<close> and \<open>Commit\<close>. Theorems quantify over the schedule.
\<close>

section \<open>Statements on one table\<close>

definition insert_or_ignore :: "('r \<Rightarrow> 'r \<Rightarrow> bool) \<Rightarrow> 'r \<Rightarrow> 'r list \<Rightarrow> 'r list \<times> nat" where
  "insert_or_ignore conf r t = (if list_ex (\<lambda>x. conf x r) t then (t, 0) else (t @ [r], 1))"

definition insert_row :: "('r \<Rightarrow> 'r \<Rightarrow> bool) \<Rightarrow> 'r \<Rightarrow> 'r list \<Rightarrow> error + 'r list" where
  "insert_row conf r t =
     (if list_ex (\<lambda>x. conf x r) t then Inl (SqlError ''UNIQUE constraint failed'')
      else Inr (t @ [r]))"

definition update_where :: "('r \<Rightarrow> bool) \<Rightarrow> ('r \<Rightarrow> 'r) \<Rightarrow> 'r list \<Rightarrow> 'r list" where
  "update_where P f t = map (\<lambda>r. if P r then f r else r) t"

definition delete_where :: "('r \<Rightarrow> bool) \<Rightarrow> 'r list \<Rightarrow> 'r list" where
  "delete_where P t = filter (\<lambda>r. \<not> P r) t"

definition count_where :: "('r \<Rightarrow> bool) \<Rightarrow> 'r list \<Rightarrow> nat" where
  \<comment> \<open>the driver's \<open>RowsAffected\<close> of an update or delete\<close>
  "count_where P t = length (filter P t)"

definition upsert :: "('r \<Rightarrow> 'r \<Rightarrow> bool) \<Rightarrow> ('r \<Rightarrow> 'r) \<Rightarrow> 'r \<Rightarrow> 'r list \<Rightarrow> 'r list" where
  \<comment> \<open>\<open>INSERT ... ON CONFLICT DO UPDATE SET\<close>\<close>
  "upsert conf f r t =
     (if list_ex (\<lambda>x. conf x r) t then update_where (\<lambda>x. conf x r) f t else t @ [r])"

definition uniq :: "('r \<Rightarrow> 'r \<Rightarrow> bool) \<Rightarrow> 'r list \<Rightarrow> bool" where
  "uniq conf t = sorted_wrt (\<lambda>x y. \<not> conf x y) t"

lemma set_update_where: "set (update_where P f t) = (\<lambda>r. if P r then f r else r) ` set t"
  by (simp add: update_where_def)

lemma set_delete_where [simp]: "set (delete_where P t) = {r \<in> set t. \<not> P r}"
  by (simp add: delete_where_def)

lemma delete_where_count: "length (delete_where P t) + count_where P t = length t"
  using sum_length_filter_compl [of P t] by (simp add: delete_where_def count_where_def)

lemma update_where_none: "\<forall>r\<in>set t. \<not> P r \<Longrightarrow> update_where P f t = t"
  by (induction t) (auto simp: update_where_def)

lemma length_update_where [simp]: "length (update_where P f t) = length t"
  by (simp add: update_where_def)

lemma uniq_key: "uniq (\<lambda>x y. k x = k y) t \<longleftrightarrow> distinct (map k t)"
  by (induction t) (auto simp: uniq_def image_iff)

lemma uniq_distinct:
  assumes "uniq conf t" and "\<And>x y. k x = k y \<Longrightarrow> conf x y"
  shows "distinct (map k t)"
  unfolding uniq_key [symmetric] uniq_def
  by (rule sorted_wrt_mono_rel [OF _ assms(1) [unfolded uniq_def]]) (use assms(2) in auto)

lemma count_where_key:
  assumes "distinct (map k t)" and "x \<in> set t" and "P x" and "\<And>y. P y \<Longrightarrow> k y = k x"
  shows "count_where P t = 1"
proof -
  have "filter P t = filter (\<lambda>y. y = x) t"
    using assms by (intro filter_cong) (auto simp: distinct_map dest: inj_onD)
  also have "length \<dots> = 1"
    using assms(1,2) by (simp add: distinct_map distinct_length_filter Collect_conv_if)
  finally show ?thesis by (simp add: count_where_def)
qed

text \<open>
  A table with its constraint. The laws are what the components rely on: every
  statement keeps the constraint, and constrained rows are determined by their key.
\<close>

locale unique_table =
  fixes conf :: "'r \<Rightarrow> 'r \<Rightarrow> bool"
  assumes conf_sym: "conf x y \<Longrightarrow> conf y x"
begin

lemma uniq_Nil: "uniq conf []"
  by (simp add: uniq_def)

lemma uniq_snoc: "uniq conf (t @ [r]) \<longleftrightarrow> uniq conf t \<and> (\<forall>x\<in>set t. \<not> conf x r)"
  by (auto simp: uniq_def sorted_wrt_append)

lemma uniq_insert_or_ignore: "uniq conf t \<Longrightarrow> uniq conf (fst (insert_or_ignore conf r t))"
  by (auto simp: insert_or_ignore_def uniq_snoc list_ex_iff)

lemma uniq_insert_row: "uniq conf t \<Longrightarrow> insert_row conf r t = Inr t' \<Longrightarrow> uniq conf t'"
  by (auto simp: insert_row_def uniq_snoc list_ex_iff split: if_splits)

lemma uniq_delete_where: "uniq conf t \<Longrightarrow> uniq conf (delete_where P t)"
  unfolding uniq_def delete_where_def by (rule sorted_wrt_filter)

lemma uniq_update_where:
  assumes "uniq conf t" and "\<And>x y. conf (f x) y = conf x y"
  shows "uniq conf (update_where P f t)"
proof -
  have right: "conf x (f y) = conf x y" for x y
    using assms(2) conf_sym by blast
  have "sorted_wrt (\<lambda>x y. \<not> conf (if P x then f x else x) (if P y then f y else y)) t"
    using assms(1) unfolding uniq_def by (rule sorted_wrt_mono_rel [rotated]) (auto simp: assms(2) right)
  then show ?thesis by (simp add: uniq_def update_where_def sorted_wrt_map)
qed

lemma uniq_upsert:
  assumes "uniq conf t" and "\<And>x y. conf (f x) y = conf x y"
  shows "uniq conf (upsert conf f r t)"
  using assms by (auto simp: upsert_def uniq_snoc list_ex_iff intro: uniq_update_where)

lemma uniq_determines:
  assumes "uniq conf t" and "x \<in> set t" and "y \<in> set t" and "conf x y"
  shows "x = y"
  using assms
proof (induction t)
  case Nil
  then show ?case by simp
next
  case (Cons a t)
  then show ?case by (auto simp: uniq_def dest: conf_sym)
qed

lemma uniq_find:
  assumes "uniq conf t" and "x \<in> set t" and "\<And>y. P y \<Longrightarrow> conf x y" and "P x"
  shows "find P t = Some x"
proof (cases "find P t")
  case None
  with assms show ?thesis by (simp add: find_None_iff)
next
  case (Some y)
  then have "y \<in> set t" and "P y"
    by (auto simp: find_Some_iff)
  with assms Some uniq_determines show ?thesis by blast
qed

lemma insert_or_ignore_twice:
  "conf r r \<Longrightarrow> insert_or_ignore conf r (fst (insert_or_ignore conf r t)) =
     (fst (insert_or_ignore conf r t), 0)"
  by (auto simp: insert_or_ignore_def)

end

section \<open>The connection\<close>

record 'd conn = os +
  db :: 'd
  fault :: "nat \<Rightarrow> string option"
  nfault :: nat

definition Exec :: "('d \<Rightarrow> (error + 'a) \<times> 'd) \<Rightarrow> (('d, 'z) conn_scheme, 'a) io" where
  "Exec stmt = (\<lambda>w.
     case fault w (nfault w) of
       Some m \<Rightarrow> (Inl (SqlError m), w\<lparr>nfault := Suc (nfault w)\<rparr>)
     | None \<Rightarrow> (case stmt (db w) of
         (Inl e, _) \<Rightarrow> (Inl e, w\<lparr>nfault := Suc (nfault w)\<rparr>)
       | (Inr x, d) \<Rightarrow> (Inr x, w\<lparr>db := d, nfault := Suc (nfault w)\<rparr>)))"

definition Update :: "('d \<Rightarrow> 'd) \<Rightarrow> (('d, 'z) conn_scheme, unit) io" where
  "Update f = Exec (\<lambda>d. (Inr (), f d))"

definition UpdateN :: "('d \<Rightarrow> nat) \<Rightarrow> ('d \<Rightarrow> 'd) \<Rightarrow> (('d, 'z) conn_scheme, nat) io" where
  \<comment> \<open>a statement whose \<open>RowsAffected\<close> is read\<close>
  "UpdateN n f = Exec (\<lambda>d. (Inr (n d), f d))"

definition Query :: "('d \<Rightarrow> 'a) \<Rightarrow> (('d, 'z) conn_scheme, 'a) io" where
  "Query f = Exec (\<lambda>d. (Inr (f d), d))"

definition Begin :: "(('d, 'z) conn_scheme, unit) io" where
  "Begin = Query (\<lambda>_. ())"

definition Commit :: "(('d, 'z) conn_scheme, unit) io" where
  "Commit = Query (\<lambda>_. ())"

definition with_tx :: "(('d, 'z) conn_scheme, 'a) io \<Rightarrow> (('d, 'z) conn_scheme, 'a) io" where
  \<comment> \<open>\<open>tx, err := db.Begin(); defer tx.Rollback(); ...; tx.Commit()\<close>: an error before the
     commit has succeeded restores the tables\<close>
  "with_tx body = bindE Begin (\<lambda>_ w.
     case bindE body (\<lambda>x. bindE Commit (\<lambda>_. returnE x)) w of
       (Inl e, w') \<Rightarrow> (Inl e, w'\<lparr>db := db w\<rparr>)
     | (Inr x, w') \<Rightarrow> (Inr x, w'))"

definition healthy :: "('d, 'z) conn_scheme \<Rightarrow> bool" where
  \<comment> \<open>no statement fails for a reason outside the program\<close>
  "healthy w \<longleftrightarrow> (\<forall>n. fault w n = None)"

lemma Exec_cases:
  obtains (failed) e where "Exec stmt w = (Inl e, w\<lparr>nfault := Suc (nfault w)\<rparr>)"
  | (ok) x d where "stmt (db w) = (Inr x, d)"
      and "Exec stmt w = (Inr x, w\<lparr>db := d, nfault := Suc (nfault w)\<rparr>)"
  by (cases "fault w (nfault w)"; cases "stmt (db w)"; cases "fst (stmt (db w))")
    (auto simp: Exec_def)

lemma Exec_healthy:
  "healthy w \<Longrightarrow> stmt (db w) = (Inr x, d) \<Longrightarrow>
     Exec stmt w = (Inr x, w\<lparr>db := d, nfault := Suc (nfault w)\<rparr>)"
  by (simp add: healthy_def Exec_def)

lemma Query_Inr:
  "Query f w = (Inr x, w') \<Longrightarrow> x = f (db w) \<and> w' = w\<lparr>nfault := Suc (nfault w)\<rparr>"
  unfolding Query_def
  by (rule Exec_cases [of "\<lambda>d. (Inr (f d), d)" w]) auto

lemma Query_Inl:
  "Query f w = (Inl e, w') \<Longrightarrow> w' = w\<lparr>nfault := Suc (nfault w)\<rparr>"
  unfolding Query_def
  by (rule Exec_cases [of "\<lambda>d. (Inr (f d), d)" w]) auto

lemma Update_Inr:
  "Update f w = (Inr x, w') \<Longrightarrow> w' = w\<lparr>db := f (db w), nfault := Suc (nfault w)\<rparr>"
  unfolding Update_def
  by (rule Exec_cases [of "\<lambda>d. (Inr (), f d)" w]) auto

lemma UpdateN_Inr:
  "UpdateN n f w = (Inr k, w') \<Longrightarrow>
     k = n (db w) \<and> w' = w\<lparr>db := f (db w), nfault := Suc (nfault w)\<rparr>"
  unfolding UpdateN_def
  by (rule Exec_cases [of "\<lambda>d. (Inr (n d), f d)" w]) auto

lemma healthy_run [simp]:
  assumes "healthy w"
  shows "Query f w = (Inr (f (db w)), w\<lparr>nfault := Suc (nfault w)\<rparr>)"
    and "Update g w = (Inr (), w\<lparr>db := g (db w), nfault := Suc (nfault w)\<rparr>)"
    and "UpdateN n g w = (Inr (n (db w)), w\<lparr>db := g (db w), nfault := Suc (nfault w)\<rparr>)"
  using assms by (simp_all add: Query_def Update_def UpdateN_def Exec_def healthy_def)

lemma healthy_upd [simp]:
  "healthy (w\<lparr>db := d\<rparr>) = healthy w" "healthy (w\<lparr>nfault := n\<rparr>) = healthy w"
  "healthy (w\<lparr>nclock := n\<rparr>) = healthy w" "healthy (w\<lparr>nrand := n\<rparr>) = healthy w"
  by (simp_all add: healthy_def)

lemma preserves_Exec [preserves_rules]:
  assumes "\<And>w n. I (w\<lparr>nfault := n\<rparr>) = I w"
    and "\<And>w x d. I w \<Longrightarrow> stmt (db w) = (Inr x, d) \<Longrightarrow> I (w\<lparr>db := d\<rparr>)"
  shows "preserves I (Exec stmt)"
proof (rule preservesI)
  fix w
  assume I: "I w"
  show "I (snd (Exec stmt w))"
  proof (cases rule: Exec_cases [of stmt w])
    case (failed e)
    with I assms(1) show ?thesis by simp
  next
    case (ok x d)
    with I assms(1) assms(2) [of w x d] show ?thesis by simp
  qed
qed

lemma preserves_with_tx [preserves_rules]:
  assumes "\<And>w n. I (w\<lparr>nfault := n\<rparr>) = I w"
    and "preserves I body"
    and "\<And>w w'. I w \<Longrightarrow> I w' \<Longrightarrow> I (w'\<lparr>db := db w\<rparr>)"
  shows "preserves I (with_tx body)"
proof (rule preservesI)
  fix w
  assume I: "I w"
  let ?w1 = "w\<lparr>nfault := Suc (nfault w)\<rparr>"
  from I assms(1) have I1: "I ?w1" by simp
  have "preserves I (bindE body (\<lambda>x. bindE Commit (\<lambda>_. returnE x)))"
    unfolding Commit_def Query_def
    by (intro preserves_rules assms(1,2)) auto
  then have I2: "I (snd (bindE body (\<lambda>x. bindE Commit (\<lambda>_. returnE x)) ?w1))"
    using I1 by (simp add: preserves_def)
  show "I (snd (with_tx body w))"
  proof (cases "Begin w")
    case (Pair r w')
    show ?thesis
    proof (cases r)
      case (Inl e)
      with Pair I1 show ?thesis
        by (auto simp: with_tx_def Begin_def dest: Query_Inl)
    next
      case (Inr u)
      with Pair have "w' = ?w1" by (auto simp: Begin_def dest: Query_Inr)
      with Pair Inr I2 assms(3) [OF I1 I2] show ?thesis
        by (auto simp: with_tx_def split: prod.splits sum.splits)
    qed
  qed
qed

text \<open>The rollback: an error of a transaction leaves every table as it was.\<close>

lemma with_tx_error:
  assumes "with_tx body w = (Inl e, w')"
  shows "db w' = db w"
proof -
  obtain r w1 where b: "Begin w = (r, w1)" by (cases "Begin w")
  then have "db w1 = db w"
    by (cases r) (auto simp: Begin_def dest: Query_Inl Query_Inr)
  with assms b show ?thesis
    by (cases r) (auto simp: with_tx_def split: prod.splits sum.splits)
qed

lemma with_tx_success:
  assumes "with_tx body w = (Inr x, w')"
  obtains w1 where "body (w\<lparr>nfault := Suc (nfault w)\<rparr>) = (Inr x, w1)"
    and "w' = w1\<lparr>nfault := Suc (nfault w1)\<rparr>"
proof -
  from assms obtain u w0 where b: "Begin w = (Inr u, w0)"
    by (auto simp: with_tx_def bindE_Inr_iff)
  then have w0: "w0 = w\<lparr>nfault := Suc (nfault w)\<rparr>"
    by (auto simp: Begin_def dest: Query_Inr)
  from assms b have "bindE body (\<lambda>x. bindE Commit (\<lambda>_. returnE x)) w0 = (Inr x, w')"
    by (auto simp: with_tx_def split: prod.splits sum.splits)
  then obtain w1 where "body w0 = (Inr x, w1)" and "w' = w1\<lparr>nfault := Suc (nfault w1)\<rparr>"
    by (auto simp: bindE_Inr_iff Commit_def dest!: Query_Inr)
  with w0 that show ?thesis by simp
qed

lemma with_tx_healthy:
  assumes "healthy w" and "body (w\<lparr>nfault := Suc (nfault w)\<rparr>) = (Inr x, w1)" and "healthy w1"
  shows "with_tx body w = (Inr x, w1\<lparr>nfault := Suc (nfault w1)\<rparr>)"
  using assms by (simp add: with_tx_def Begin_def Commit_def)

text \<open>No statement changes the clock, the random source or the failure schedule.\<close>

definition oracles :: "(nat \<Rightarrow> time) \<Rightarrow> (nat \<Rightarrow> byte) \<Rightarrow> (nat \<Rightarrow> string option) \<Rightarrow>
    ('d, 'z) conn_scheme \<Rightarrow> bool" where
  "oracles K R F w \<longleftrightarrow> clock w = K \<and> rand w = R \<and> fault w = F"

lemma oracles_upd [simp]:
  "oracles K R F (w\<lparr>db := d\<rparr>) = oracles K R F w" "oracles K R F (w\<lparr>nfault := n\<rparr>) = oracles K R F w"
  "oracles K R F (w\<lparr>nclock := n\<rparr>) = oracles K R F w" "oracles K R F (w\<lparr>nrand := n\<rparr>) = oracles K R F w"
  by (simp_all add: oracles_def)

lemma oracles_io [intro!]:
  "preserves (oracles K R F) (Exec stmt)" "preserves (oracles K R F) (Update f)"
  "preserves (oracles K R F) (UpdateN n f)" "preserves (oracles K R F) (Query q)"
  "preserves (oracles K R F) Now"
  unfolding Update_def UpdateN_def Query_def
  by (auto intro!: preserves_Exec preserves_Now)

lemma oracles_with_tx: "preserves (oracles K R F) body \<Longrightarrow> preserves (oracles K R F) (with_tx body)"
  by (rule preserves_with_tx) auto

lemmas oracles_rules = preserves_bind preserves_try preserves_if preserves_pure oracles_io
  oracles_with_tx

end
