(* ===== verification/Core.thy ===== *)
theory Core
  imports Prelude
begin

text \<open>
  The entities of \<^verbatim>\<open>src/internal/core\<close>: events, rules, sessions and
  continuations, the identifier generator, and the pure decisions on them (selector
  matching, rule activity, prompt rendering).

  The state types \<open>ContinuationState\<close> and \<open>SessionState\<close> are string types in the
  source and stay strings here: that only the declared constants are ever stored for a
  continuation is an invariant proved of the store, not a typing fact, and it does not
  hold for sessions.

  Go's \<open>text/template\<close> is a parameter: a \<open>template_engine\<close> with its parser and its
  execution on an event under \<open>missingkey=error\<close>. Nothing is assumed of it.
\<close>

section \<open>Identifiers\<close>

definition hexDigit :: "byte \<Rightarrow> char" where
  "hexDigit b = ''0123456789abcdef'' ! (unat b mod 16)"

fun hexEncode :: "byte list \<Rightarrow> string" where
  \<comment> \<open>\<open>hex.EncodeToString\<close>: two lower-case digits per byte, high nibble first\<close>
  "hexEncode [] = []"
| "hexEncode (b # bs) = hexDigit (b div 16) # hexDigit b # hexEncode bs"

definition NewID :: "string \<Rightarrow> ('z os_scheme, string) io" where
  "NewID prefix = bindE (randRead 6) (\<lambda>b. returnE (prefix @ ''-'' @ hexEncode b))"

definition idAt :: "string \<Rightarrow> (nat \<Rightarrow> byte) \<Rightarrow> nat \<Rightarrow> string" where
  \<comment> \<open>the identifier made from the six random bytes at a read position\<close>
  "idAt prefix r n = prefix @ ''-'' @ hexEncode (map r [n ..< n + 6])"

section \<open>Entities\<close>

record Event =
  ev_ID :: string
  ev_Type :: string
  ev_Source :: string
  ev_Payload :: "string \<rightharpoonup> string"
  ev_Timestamp :: time

record EventSelector =
  sel_Type :: string
  sel_Source :: string

record Rule =
  r_ID :: string
  r_Selector :: EventSelector
  r_ActionKind :: string
  r_SessionID :: string
  r_PromptTemplate :: string
  r_Label :: string
  r_OneShot :: bool
  r_Consumed :: bool
  r_ExpiresAt :: "time option"
  r_CreatedAt :: time

type_synonym SessionState = string

definition SessionWaiting :: SessionState where "SessionWaiting = ''waiting''"
definition SessionQueued :: SessionState where "SessionQueued = ''queued''"
definition SessionResuming :: SessionState where "SessionResuming = ''resuming''"
definition SessionRunning :: SessionState where "SessionRunning = ''running''"
definition SessionDone :: SessionState where "SessionDone = ''done''"

record Session =
  s_SessionID :: string
  s_Agent :: string
  s_RepoPath :: string
  s_State :: SessionState
  s_CreatedAt :: time
  s_UpdatedAt :: time

type_synonym ContinuationState = string

definition ContinuationPending :: ContinuationState where "ContinuationPending = ''pending''"
definition ContinuationRunning :: ContinuationState where "ContinuationRunning = ''running''"
definition ContinuationCompleted :: ContinuationState where "ContinuationCompleted = ''completed''"
definition ContinuationFailed :: ContinuationState where "ContinuationFailed = ''failed''"

record Continuation =
  c_ID :: string
  c_RuleID :: string
  c_EventID :: string
  c_SessionID :: string
  c_Prompt :: string
  c_Label :: string
  c_State :: ContinuationState
  c_Command :: string
  c_ExitCode :: "int option"
  c_OutputSummary :: string
  c_CreatedAt :: time
  c_UpdatedAt :: time

section \<open>Decisions\<close>

definition ActionContinueSession :: string where
  "ActionContinueSession = ''continue_session''"

definition Matches :: "EventSelector \<Rightarrow> Event \<Rightarrow> bool" where
  "Matches s ev = (if sel_Type s \<noteq> ev_Type ev then False
     else sel_Source s = [] \<or> sel_Source s = ev_Source ev)"

definition Active :: "Rule \<Rightarrow> time \<Rightarrow> bool" where
  "Active r now = (if r_Consumed r then False
     else (case r_ExpiresAt r of None \<Rightarrow> True | Some e \<Rightarrow> now < e))"

record 't template_engine =
  t_parse :: "string \<Rightarrow> error + 't"
  t_execute :: "'t \<Rightarrow> Event \<Rightarrow> error + string"

definition RenderPrompt :: "'t template_engine \<Rightarrow> Rule \<Rightarrow> Event \<Rightarrow> error + string" where
  "RenderPrompt te r ev = (case t_parse te (r_PromptTemplate r) of
     Inl e \<Rightarrow> Inl e | Inr t \<Rightarrow> t_execute te t ev)"

definition ValidatePromptTemplate :: "'t template_engine \<Rightarrow> string \<Rightarrow> error option" where
  "ValidatePromptTemplate te s = (case t_parse te s of Inl e \<Rightarrow> Some e | Inr _ \<Rightarrow> None)"

definition continuation_states :: "ContinuationState list" where
  "continuation_states =
     [ContinuationPending, ContinuationRunning, ContinuationCompleted, ContinuationFailed]"

section \<open>Facts\<close>

lemmas continuation_state_defs = ContinuationPending_def ContinuationRunning_def
  ContinuationCompleted_def ContinuationFailed_def

lemma continuation_states_distinct [simp]:
  "ContinuationPending \<noteq> ContinuationRunning" "ContinuationRunning \<noteq> ContinuationPending"
  "ContinuationPending \<noteq> ContinuationCompleted" "ContinuationCompleted \<noteq> ContinuationPending"
  "ContinuationPending \<noteq> ContinuationFailed" "ContinuationFailed \<noteq> ContinuationPending"
  "ContinuationRunning \<noteq> ContinuationCompleted" "ContinuationCompleted \<noteq> ContinuationRunning"
  "ContinuationRunning \<noteq> ContinuationFailed" "ContinuationFailed \<noteq> ContinuationRunning"
  "ContinuationCompleted \<noteq> ContinuationFailed" "ContinuationFailed \<noteq> ContinuationCompleted"
  by (simp_all add: continuation_state_defs)

lemma continuation_states_mem [simp]:
  "ContinuationPending \<in> set continuation_states" "ContinuationRunning \<in> set continuation_states"
  "ContinuationCompleted \<in> set continuation_states" "ContinuationFailed \<in> set continuation_states"
  by (simp_all add: continuation_states_def)

lemma session_states_distinct [simp]:
  "SessionWaiting \<noteq> SessionRunning" "SessionRunning \<noteq> SessionWaiting" "SessionWaiting \<noteq> []"
  by (simp_all add: SessionWaiting_def SessionRunning_def)

lemma NewID_run:
  "NewID p s = (Inr (idAt p (rand s) (nrand s)), s\<lparr>nrand := nrand s + 6\<rparr>)"
  by (simp add: NewID_def idAt_def randRead_def bindE_def)

lemma preserves_NewID [preserves_rules]:
  "(\<And>s n. I (s\<lparr>nrand := n\<rparr>) = I s) \<Longrightarrow> preserves I (NewID p)"
  by (simp add: preserves_def NewID_run)

lemma length_hexEncode [simp]: "length (hexEncode bs) = 2 * length bs"
  by (induction bs) auto

lemma length_idAt [simp]: "length (idAt p r n) = length p + 13"
  by (simp add: idAt_def)

lemma idAt_nonempty [simp]: "idAt p r n \<noteq> []"
  by (simp add: idAt_def)

lemma hex_digits_distinct: "distinct ''0123456789abcdef''"
  by simp

lemma hexDigit_inj: "hexDigit a = hexDigit b \<longleftrightarrow> unat a mod 16 = unat b mod 16"
proof -
  have "unat a mod 16 < length ''0123456789abcdef''" and
    "unat b mod 16 < length ''0123456789abcdef''" by simp_all
  then show ?thesis
    unfolding hexDigit_def using nth_eq_iff_index_eq [OF hex_digits_distinct] by blast
qed

lemma byte_of_nibbles: "unat (b :: byte) = 16 * (unat (b div 16) mod 16) + unat b mod 16"
proof -
  have "unat b < 256" using unsigned_less [where w = b] by simp
  then have "unat b div 16 < 16" by simp
  moreover have "unat (b div 16) = unat b div 16" by (simp add: unat_div)
  ultimately show ?thesis by simp
qed

lemma hexEncode_inj: "hexEncode as = hexEncode bs \<Longrightarrow> as = bs"
proof (induction as arbitrary: bs)
  case Nil
  then show ?case by (cases bs) auto
next
  case (Cons a as)
  then obtain b bs' where bs: "bs = b # bs'" by (cases bs) auto
  with Cons.prems have "unat (a div 16) mod 16 = unat (b div 16) mod 16"
    and "unat a mod 16 = unat b mod 16" and "hexEncode as = hexEncode bs'"
    by (auto simp: hexDigit_inj)
  then have "unat a = unat b" using byte_of_nibbles [of a] byte_of_nibbles [of b] by simp
  then have "a = b" by (simp add: word_unat_eq_iff)
  with bs Cons.IH [OF \<open>hexEncode as = hexEncode bs'\<close>] show ?case by simp
qed

lemma idAt_inj: "idAt p r n = idAt p r' m \<longleftrightarrow> map r [n ..< n + 6] = map r' [m ..< m + 6]"
  by (auto simp: idAt_def dest: hexEncode_inj)

lemma prefix_idAt:
  assumes "idAt p r n = idAt q r' m"
  shows "p = q"
proof -
  from assms have "length p = length q" using length_idAt [of p r n] length_idAt [of q r' m] by simp
  with assms show ?thesis by (simp add: idAt_def)
qed

end
