(* ===== verification/Watch.thy ===== *)
theory Watch
  imports Core
begin

text \<open>
  The data of \<^verbatim>\<open>src/internal/watch/watch.go\<close>: a persisted watch, its polling
  configuration and the validation of watch types.
\<close>

record Config =
  Interval :: duration
  StabilityThreshold :: duration

definition second :: duration where
  "second = 1000000000"

definition millisecond :: duration where
  "millisecond = 1000000"

definition WithDefaults :: "Config \<Rightarrow> Config" where
  "WithDefaults c = (if Interval c \<le> 0 then c\<lparr>Interval := 2 * second\<rparr> else c)"

record Watch =
  w_ID :: string
  w_Type :: string
  w_Target :: string
  w_Config :: Config
  w_CreatedAt :: time

definition validTypes :: "string list" where
  "validTypes = [''http'', ''tcp'', ''file'', ''process'', ''docker'', ''git'']"

definition ValidateType :: "string \<Rightarrow> error option" where
  "ValidateType t = (if t \<notin> set validTypes
     then Some (GoError (''unknown watch type '' @ goQuote t @
       '' (valid: http, tcp, file, process, docker, git)''))
     else None)"

lemma WithDefaults_Interval_pos: "0 < Interval (WithDefaults c)"
  by (simp add: WithDefaults_def second_def)

lemma WithDefaults_Threshold [simp]:
  "StabilityThreshold (WithDefaults c) = StabilityThreshold c"
  by (simp add: WithDefaults_def)

lemma WithDefaults_idem [simp]: "WithDefaults (WithDefaults c) = WithDefaults c"
  by (simp add: WithDefaults_def second_def)

end
