(* ===== verification/Store.thy ===== *)
theory Store
  imports Sql Core Watch
begin

text \<open>
  The persistent state of \<^verbatim>\<open>src/internal/store\<close>: the five tables of the schema
  and one definition per store method, except the outbox transaction (theory
  \<open>Ingest\<close>) and the retention sweep (theory \<open>Retention\<close>).

  A row is the Go value it is scanned into, and times are compared as instants. The columns behind the
  rows (times as text, JSON for payloads and watch configurations, 0 and 1 for booleans) and the
  proof that statements and queries on them agree with these definitions are in theory \<open>Rows\<close>.
  \<open>wf_db\<close> is the schema invariant, with what the code adds to it; every method keeps it.
\<close>

section \<open>Schema\<close>

record database =
  events :: "Event list"
  rules :: "Rule list"
  sessions :: "Session list"
  continuations :: "Continuation list"
  watches :: "Watch list"

type_synonym 'z st = "(database, 'z) conn_scheme"

definition emptyDB :: database where
  "emptyDB = \<lparr>events = [], rules = [], sessions = [], continuations = [], watches = []\<rparr>"

definition conf_event :: "Event \<Rightarrow> Event \<Rightarrow> bool" where
  "conf_event x y \<longleftrightarrow> ev_ID x = ev_ID y"

definition conf_rule :: "Rule \<Rightarrow> Rule \<Rightarrow> bool" where
  "conf_rule x y \<longleftrightarrow> r_ID x = r_ID y"

definition conf_session :: "Session \<Rightarrow> Session \<Rightarrow> bool" where
  "conf_session x y \<longleftrightarrow> s_SessionID x = s_SessionID y"

definition conf_cont :: "Continuation \<Rightarrow> Continuation \<Rightarrow> bool" where
  "conf_cont x y \<longleftrightarrow> c_ID x = c_ID y \<or> (c_RuleID x = c_RuleID y \<and> c_EventID x = c_EventID y)"

definition conf_watch :: "Watch \<Rightarrow> Watch \<Rightarrow> bool" where
  "conf_watch x y \<longleftrightarrow> w_ID x = w_ID y \<or> (w_Type x = w_Type y \<and> w_Target x = w_Target y)"

definition rule_active :: "time \<Rightarrow> Rule \<Rightarrow> bool" where
  \<comment> \<open>\<open>consumed = 0 AND (expires_at IS NULL OR expires_at > ?)\<close>\<close>
  "rule_active now r \<longleftrightarrow> \<not> r_Consumed r \<and>
     (case r_ExpiresAt r of None \<Rightarrow> True | Some e \<Rightarrow> e > now)"

section \<open>Events\<close>

definition insertEventTx :: "Event \<Rightarrow> ('z st, unit) io" where
  "insertEventTx ev =
     (if ev_ID ev = [] then throwE (GoError ''store: event id is required'')
      else Update (\<lambda>d. d\<lparr>events := fst (insert_or_ignore conf_event ev (events d))\<rparr>))"

definition InsertEvent :: "Event \<Rightarrow> ('z st, unit) io" where
  "InsertEvent ev = insertEventTx ev"

definition ListEvents :: "string \<Rightarrow> int \<Rightarrow> ('z st, Event list) io" where
  "ListEvents evType limit =
     (let limit = (if limit \<le> 0 then 100 else limit) in
      Query (\<lambda>d. take (nat limit) (rev (sort_key (\<lambda>e. (ev_Timestamp e, ev_ID e))
        (filter (\<lambda>e. evType \<noteq> [] \<longrightarrow> ev_Type e = evType) (events d))))))"

definition PruneEvents :: "time \<Rightarrow> ('z st, nat) io" where
  "PruneEvents before =
     UpdateN (\<lambda>d. count_where (\<lambda>e. ev_Timestamp e < before) (events d))
       (\<lambda>d. d\<lparr>events := delete_where (\<lambda>e. ev_Timestamp e < before) (events d)\<rparr>)"

section \<open>Rules\<close>

definition insertRule :: "Rule \<Rightarrow> database \<Rightarrow> (error + unit) \<times> database" where
  "insertRule r d = (case insert_row conf_rule r (rules d) of
     Inl e \<Rightarrow> (Inl e, d) | Inr t \<Rightarrow> (Inr (), d\<lparr>rules := t\<rparr>))"

definition AddRule :: "Rule \<Rightarrow> ('z st, Rule) io" where
  "AddRule r =
     bindE (if r_ID r = [] then NewID ''rule'' else returnE (r_ID r)) (\<lambda>i.
     bindE Now (\<lambda>now.
     let r = r\<lparr>r_ID := i,
       r_ActionKind := (if r_ActionKind r = [] then ActionContinueSession else r_ActionKind r),
       r_Consumed := False, r_CreatedAt := now\<rparr> in
     bindE (Exec (insertRule r)) (\<lambda>_. returnE r)))"

definition ListRules :: "bool \<Rightarrow> ('z st, Rule list) io" where
  "ListRules includeInactive =
     (if includeInactive then Query (\<lambda>d. sort_key r_CreatedAt (rules d))
      else bindE Now (\<lambda>now.
        Query (\<lambda>d. sort_key r_CreatedAt (filter (rule_active now) (rules d)))))"

definition RemoveRule :: "string \<Rightarrow> ('z st, unit) io" where
  "RemoveRule i = Update (\<lambda>d. d\<lparr>rules := delete_where (\<lambda>r. r_ID r = i) (rules d)\<rparr>)"

section \<open>Sessions\<close>

definition GetSession :: "string \<Rightarrow> ('z st, Session option) io" where
  "GetSession i = Query (\<lambda>d. find (\<lambda>s. s_SessionID s = i) (sessions d))"

definition zeroSession :: Session where
  "zeroSession = \<lparr>s_SessionID = [], s_Agent = [], s_RepoPath = [], s_State = [],
     s_CreatedAt = 0, s_UpdatedAt = 0\<rparr>"

definition upsertSession :: "Session \<Rightarrow> database \<Rightarrow> database" where
  "upsertSession s d = d\<lparr>sessions := upsert conf_session
     (\<lambda>old. old\<lparr>s_Agent := s_Agent s, s_RepoPath := s_RepoPath s, s_UpdatedAt := s_UpdatedAt s\<rparr>)
     s (sessions d)\<rparr>"

definition RegisterSession :: "Session \<Rightarrow> ('z st, Session) io" where
  "RegisterSession sess =
     bindE Now (\<lambda>now.
     let st = (if s_State sess = [] then SessionWaiting else s_State sess) in
     bindE (Update (upsertSession
       (sess\<lparr>s_State := st, s_CreatedAt := now, s_UpdatedAt := now\<rparr>))) (\<lambda>_.
     bindE (GetSession (s_SessionID sess)) (\<lambda>stored.
     returnE (case stored of None \<Rightarrow> zeroSession | Some s \<Rightarrow> s))))"

definition ListSessions :: "('z st, Session list) io" where
  "ListSessions = Query (\<lambda>d. sort_key s_CreatedAt (sessions d))"

definition SetSessionState :: "string \<Rightarrow> SessionState \<Rightarrow> ('z st, unit) io" where
  "SetSessionState i st = bindE Now (\<lambda>now.
     Update (\<lambda>d. d\<lparr>sessions := update_where (\<lambda>s. s_SessionID s = i)
       (\<lambda>s. s\<lparr>s_State := st, s_UpdatedAt := now\<rparr>) (sessions d)\<rparr>))"

section \<open>Continuations\<close>

definition claimable :: "string \<Rightarrow> Continuation \<Rightarrow> bool" where
  "claimable i c \<longleftrightarrow> c_ID c = i \<and> c_State c = ContinuationPending"

definition ClaimContinuation :: "string \<Rightarrow> ('z st, bool) io" where
  "ClaimContinuation i = bindE Now (\<lambda>now.
     bindE (UpdateN (\<lambda>d. count_where (claimable i) (continuations d))
       (\<lambda>d. d\<lparr>continuations := update_where (claimable i)
          (\<lambda>c. c\<lparr>c_State := ContinuationRunning, c_UpdatedAt := now\<rparr>) (continuations d)\<rparr>)) (\<lambda>n.
     returnE (n = 1)))"

definition UpdateContinuationResult ::
  "string \<Rightarrow> ContinuationState \<Rightarrow> string \<Rightarrow> int option \<Rightarrow> string \<Rightarrow> ('z st, unit) io" where
  "UpdateContinuationResult i state command exitCode outputSummary = bindE Now (\<lambda>now.
     Update (\<lambda>d. d\<lparr>continuations := update_where (\<lambda>c. c_ID c = i)
       (\<lambda>c. c\<lparr>c_State := state, c_Command := command, c_ExitCode := exitCode,
          c_OutputSummary := outputSummary, c_UpdatedAt := now\<rparr>) (continuations d)\<rparr>))"

definition ResetRunningContinuations :: "('z st, nat) io" where
  "ResetRunningContinuations = bindE Now (\<lambda>now.
     UpdateN (\<lambda>d. count_where (\<lambda>c. c_State c = ContinuationRunning) (continuations d))
       (\<lambda>d. d\<lparr>continuations := update_where (\<lambda>c. c_State c = ContinuationRunning)
          (\<lambda>c. c\<lparr>c_State := ContinuationPending, c_UpdatedAt := now\<rparr>) (continuations d)\<rparr>))"

definition pendingOf :: "string \<Rightarrow> database \<Rightarrow> Continuation list" where
  "pendingOf sid d =
     filter (\<lambda>c. c_SessionID c = sid \<and> c_State c = ContinuationPending) (continuations d)"

definition PendingSessions :: "('z st, string list) io" where
  "PendingSessions = Query (\<lambda>d. sort (remdups (map c_SessionID
     (filter (\<lambda>c. c_State c = ContinuationPending) (continuations d)))))"

definition NextPendingForSession :: "string \<Rightarrow> ('z st, Continuation option) io" where
  "NextPendingForSession sid = Query (\<lambda>d.
     case sort_key (\<lambda>c. (c_CreatedAt c, c_ID c)) (pendingOf sid d) of
       [] \<Rightarrow> None | c # _ \<Rightarrow> Some c)"

definition InsertManualContinuation :: "string \<Rightarrow> string \<Rightarrow> ('z st, Continuation) io" where
  "InsertManualContinuation sid prompt =
     bindE Now (\<lambda>now.
     bindE (NewID ''cont'') (\<lambda>cid.
     bindE (NewID ''manual'') (\<lambda>rid.
     bindE (NewID ''manual'') (\<lambda>eid.
     let c = \<lparr>c_ID = cid, c_RuleID = rid, c_EventID = eid, c_SessionID = sid,
       c_Prompt = prompt, c_Label = ''manual'', c_State = ContinuationPending, c_Command = [],
       c_ExitCode = None, c_OutputSummary = [], c_CreatedAt = now, c_UpdatedAt = now\<rparr> in
     bindE (Exec (\<lambda>d. case insert_row conf_cont c (continuations d) of
       Inl e \<Rightarrow> (Inl e, d) | Inr t \<Rightarrow> (Inr (), d\<lparr>continuations := t\<rparr>))) (\<lambda>_.
     returnE c)))))"

definition ListContinuations :: "string \<Rightarrow> ('z st, Continuation list) io" where
  "ListContinuations state = Query (\<lambda>d. sort_key (\<lambda>c. (c_CreatedAt c, c_ID c))
     (filter (\<lambda>c. state \<noteq> [] \<longrightarrow> c_State c = state) (continuations d)))"

section \<open>Watches\<close>

definition AddWatch :: "Watch \<Rightarrow> ('z st, Watch) io" where
  "AddWatch w =
     bindE (if w_ID w = [] then NewID ''watch'' else returnE (w_ID w)) (\<lambda>i.
     bindE Now (\<lambda>now.
     bindE (Update (\<lambda>d. d\<lparr>watches := fst (insert_or_ignore conf_watch
       (w\<lparr>w_ID := i, w_CreatedAt := now\<rparr>) (watches d))\<rparr>)) (\<lambda>_.
     bindE (Query (\<lambda>d. find (\<lambda>x. w_Type x = w_Type w \<and> w_Target x = w_Target w) (watches d)))
       (\<lambda>row. case row of
          None \<Rightarrow> throwE (SqlError ''sql: no rows in result set'')
        | Some x \<Rightarrow> returnE x))))"

definition ListWatches :: "('z st, Watch list) io" where
  "ListWatches = Query (\<lambda>d. sort_key (\<lambda>w. (w_CreatedAt w, w_ID w)) (watches d))"

definition RemoveWatch :: "string \<Rightarrow> ('z st, unit) io" where
  "RemoveWatch i = Update (\<lambda>d. d\<lparr>watches := delete_where (\<lambda>w. w_ID w = i) (watches d)\<rparr>)"

section \<open>The schema invariant\<close>

interpretation tev: unique_table conf_event
  by unfold_locales (simp add: conf_event_def)

interpretation trl: unique_table conf_rule
  by unfold_locales (simp add: conf_rule_def)

interpretation tse: unique_table conf_session
  by unfold_locales (simp add: conf_session_def)

interpretation tco: unique_table conf_cont
  by unfold_locales (auto simp: conf_cont_def)

interpretation twa: unique_table conf_watch
  by unfold_locales (auto simp: conf_watch_def)

definition wf_db :: "database \<Rightarrow> bool" where
  "wf_db d \<longleftrightarrow> uniq conf_event (events d) \<and> uniq conf_rule (rules d) \<and>
     uniq conf_session (sessions d) \<and> uniq conf_cont (continuations d) \<and>
     uniq conf_watch (watches d) \<and>
     list_all (\<lambda>e. ev_ID e \<noteq> []) (events d) \<and>
     list_all (\<lambda>r. r_Consumed r \<longrightarrow> r_OneShot r) (rules d) \<and>
     list_all (\<lambda>c. c_State c \<in> set continuation_states) (continuations d)"

abbreviation wf_st :: "'z st \<Rightarrow> bool" where
  "wf_st w \<equiv> wf_db (db w)"

lemma wf_emptyDB: "wf_db emptyDB"
  by (simp add: wf_db_def emptyDB_def uniq_def)

lemma wf_db_uniqD:
  assumes "wf_db d"
  shows "uniq conf_event (events d)" "uniq conf_rule (rules d)" "uniq conf_session (sessions d)"
    "uniq conf_cont (continuations d)" "uniq conf_watch (watches d)"
  using assms by (simp_all add: wf_db_def)

subsection \<open>Every method keeps it\<close>

named_theorems wf_rules \<open>preservation of the schema invariant\<close>

lemma wf_Exec [wf_rules]:
  "(\<And>d x d'. wf_db d \<Longrightarrow> stmt d = (Inr x, d') \<Longrightarrow> wf_db d') \<Longrightarrow> preserves wf_st (Exec stmt)"
  by (rule preserves_Exec) auto

lemma wf_Update [wf_rules]: "(\<And>d. wf_db d \<Longrightarrow> wf_db (f d)) \<Longrightarrow> preserves wf_st (Update f)"
  unfolding Update_def by (rule wf_Exec) auto

lemma wf_UpdateN [wf_rules]: "(\<And>d. wf_db d \<Longrightarrow> wf_db (f d)) \<Longrightarrow> preserves wf_st (UpdateN n f)"
  unfolding UpdateN_def by (rule wf_Exec) auto

lemma wf_Query [wf_rules, intro!]: "preserves wf_st (Query f)"
  unfolding Query_def by (rule wf_Exec) auto

lemma wf_Now [wf_rules, intro!]: "preserves wf_st Now"
  by (rule preserves_Now) simp

lemma wf_NewID [wf_rules, intro!]: "preserves wf_st (NewID p)"
  by (rule preserves_NewID) simp

lemma wf_with_tx [wf_rules]: "preserves wf_st body \<Longrightarrow> preserves wf_st (with_tx body)"
  by (rule preserves_with_tx) auto

text \<open>One lemma per table and kind of statement.\<close>

lemma wf_events_insert:
  "wf_db d \<Longrightarrow> ev_ID ev \<noteq> [] \<Longrightarrow>
     wf_db (d\<lparr>events := fst (insert_or_ignore conf_event ev (events d))\<rparr>)"
  using tev.uniq_insert_or_ignore [of "events d" ev]
  by (auto simp: wf_db_def insert_or_ignore_def)

lemma wf_events_delete: "wf_db d \<Longrightarrow> wf_db (d\<lparr>events := delete_where P (events d)\<rparr>)"
  by (simp add: wf_db_def tev.uniq_delete_where list_all_iff)

lemma wf_rules_insert:
  "wf_db d \<Longrightarrow> \<not> r_Consumed r \<Longrightarrow> insertRule r d = (Inr x, d') \<Longrightarrow> wf_db d'"
  by (auto simp: wf_db_def insertRule_def insert_row_def trl.uniq_snoc list_ex_iff list_all_iff
      split: if_splits)

lemma wf_rules_delete: "wf_db d \<Longrightarrow> wf_db (d\<lparr>rules := delete_where P (rules d)\<rparr>)"
  by (simp add: wf_db_def trl.uniq_delete_where list_all_iff)

lemma wf_rules_consume:
  assumes "wf_db d" and "\<And>r. r \<in> set (rules d) \<Longrightarrow> P r \<Longrightarrow> r_OneShot r"
  shows "wf_db (d\<lparr>rules := update_where P (\<lambda>r. r\<lparr>r_Consumed := True\<rparr>) (rules d)\<rparr>)"
  using assms trl.uniq_update_where [of "rules d" "\<lambda>r. r\<lparr>r_Consumed := True\<rparr>" P]
  by (auto simp: wf_db_def conf_rule_def list_all_iff set_update_where)

lemma wf_sessions_upsert: "wf_db d \<Longrightarrow> wf_db (upsertSession s d)"
  by (simp add: wf_db_def upsertSession_def tse.uniq_upsert conf_session_def)

lemma wf_sessions_update:
  assumes "wf_db d" and "\<And>s. s_SessionID (f s) = s_SessionID s"
  shows "wf_db (d\<lparr>sessions := update_where P f (sessions d)\<rparr>)"
  using assms tse.uniq_update_where [of "sessions d" f P]
  by (simp add: wf_db_def conf_session_def)

lemma wf_sessions_delete: "wf_db d \<Longrightarrow> wf_db (d\<lparr>sessions := delete_where P (sessions d)\<rparr>)"
  by (simp add: wf_db_def tse.uniq_delete_where)

lemma wf_conts_update:
  assumes "wf_db d"
    and "\<And>c. c_ID (f c) = c_ID c \<and> c_RuleID (f c) = c_RuleID c \<and> c_EventID (f c) = c_EventID c"
    and "\<And>c. c_State (f c) \<in> set continuation_states"
  shows "wf_db (d\<lparr>continuations := update_where P f (continuations d)\<rparr>)"
proof -
  have "uniq conf_cont (update_where P f (continuations d))"
    by (rule tco.uniq_update_where) (use assms in \<open>auto simp: wf_db_def conf_cont_def\<close>)
  then show ?thesis
    using assms by (auto simp: wf_db_def list_all_iff set_update_where)
qed

lemma wf_conts_append:
  assumes "wf_db d" and "\<forall>x\<in>set (continuations d). \<not> conf_cont x c"
    and "c_State c \<in> set continuation_states"
  shows "wf_db (d\<lparr>continuations := continuations d @ [c]\<rparr>)"
  using assms by (auto simp: wf_db_def tco.uniq_snoc)

lemma wf_conts_delete: "wf_db d \<Longrightarrow> wf_db (d\<lparr>continuations := delete_where P (continuations d)\<rparr>)"
  by (simp add: wf_db_def tco.uniq_delete_where list_all_iff)

lemma wf_watches_insert:
  "wf_db d \<Longrightarrow> wf_db (d\<lparr>watches := fst (insert_or_ignore conf_watch w (watches d))\<rparr>)"
  by (simp add: wf_db_def twa.uniq_insert_or_ignore)

lemma wf_watches_delete: "wf_db d \<Longrightarrow> wf_db (d\<lparr>watches := delete_where P (watches d)\<rparr>)"
  by (simp add: wf_db_def twa.uniq_delete_where)

lemmas wf_stmt_rules = wf_events_insert wf_events_delete wf_rules_delete wf_sessions_upsert
  wf_sessions_update wf_sessions_delete wf_conts_update wf_conts_delete wf_watches_insert
  wf_watches_delete

lemma wf_insertEventTx [wf_rules]: "preserves wf_st (insertEventTx ev)"
  by (auto simp: insertEventTx_def intro!: wf_Update wf_events_insert)

lemma wf_InsertEvent [wf_rules]: "preserves wf_st (InsertEvent ev)"
  unfolding InsertEvent_def by (rule wf_insertEventTx)

lemma wf_ListEvents [wf_rules]: "preserves wf_st (ListEvents t n)"
  by (auto simp: ListEvents_def Let_def)

lemma wf_PruneEvents [wf_rules]: "preserves wf_st (PruneEvents t)"
  unfolding PruneEvents_def by (intro wf_UpdateN wf_events_delete)

lemma wf_AddRule [wf_rules]: "preserves wf_st (AddRule r)"
  unfolding AddRule_def Let_def
  by (intro preserves_bind preserves_if preserves_pure wf_NewID wf_Now wf_Exec)
    (erule wf_rules_insert [rotated 2], simp_all)

lemma wf_ListRules [wf_rules]: "preserves wf_st (ListRules b)"
  unfolding ListRules_def by (intro preserves_if preserves_bind wf_Query wf_Now)

lemma wf_RemoveRule [wf_rules]: "preserves wf_st (RemoveRule i)"
  unfolding RemoveRule_def by (intro wf_Update wf_rules_delete)

lemma wf_GetSession [wf_rules]: "preserves wf_st (GetSession i)"
  unfolding GetSession_def by (rule wf_Query)

lemma wf_RegisterSession [wf_rules]: "preserves wf_st (RegisterSession s)"
  unfolding RegisterSession_def Let_def
  by (intro preserves_bind preserves_pure wf_Now wf_Update wf_GetSession wf_sessions_upsert)

lemma wf_ListSessions [wf_rules]: "preserves wf_st ListSessions"
  unfolding ListSessions_def by (rule wf_Query)

lemma wf_SetSessionState [wf_rules]: "preserves wf_st (SetSessionState i st)"
  unfolding SetSessionState_def by (intro preserves_bind wf_Now wf_Update wf_sessions_update) auto

lemma wf_ClaimContinuation [wf_rules]: "preserves wf_st (ClaimContinuation i)"
  unfolding ClaimContinuation_def
  by (intro preserves_bind preserves_pure wf_Now wf_UpdateN wf_conts_update) auto

lemma wf_UpdateContinuationResult [wf_rules]:
  "st \<in> set continuation_states \<Longrightarrow> preserves wf_st (UpdateContinuationResult i st cmd ec out)"
  unfolding UpdateContinuationResult_def
  by (intro preserves_bind wf_Now wf_Update wf_conts_update) auto

lemma wf_ResetRunningContinuations [wf_rules]: "preserves wf_st ResetRunningContinuations"
  unfolding ResetRunningContinuations_def
  by (intro preserves_bind wf_Now wf_UpdateN wf_conts_update) auto

lemma wf_PendingSessions [wf_rules]: "preserves wf_st PendingSessions"
  unfolding PendingSessions_def by (rule wf_Query)

lemma wf_NextPendingForSession [wf_rules]: "preserves wf_st (NextPendingForSession i)"
  unfolding NextPendingForSession_def by (rule wf_Query)

lemma wf_InsertManualContinuation [wf_rules]: "preserves wf_st (InsertManualContinuation i p)"
  unfolding InsertManualContinuation_def Let_def
  by (intro preserves_bind preserves_pure wf_NewID wf_Now wf_Exec)
    (auto simp: insert_row_def list_ex_iff split: if_splits intro!: wf_conts_append)

lemma wf_ListContinuations [wf_rules]: "preserves wf_st (ListContinuations s)"
  unfolding ListContinuations_def by (rule wf_Query)

lemma wf_AddWatch [wf_rules]: "preserves wf_st (AddWatch w)"
  unfolding AddWatch_def
  by (intro preserves_bind preserves_if preserves_pure wf_NewID wf_Now wf_Update wf_Query
      wf_watches_insert) (auto split: option.split)

lemma wf_ListWatches [wf_rules]: "preserves wf_st ListWatches"
  unfolding ListWatches_def by (rule wf_Query)

lemma wf_RemoveWatch [wf_rules]: "preserves wf_st (RemoveWatch i)"
  unfolding RemoveWatch_def by (intro wf_Update wf_watches_delete)

end
