(* ===== verification/Ingest.thy ===== *)
theory Ingest
  imports Store
begin

text \<open>
  The outbox transaction of \<^verbatim>\<open>src/internal/store/ingest.go\<close>: store the event,
  match the active rules, render their prompts, create the continuations and consume the
  one-shot rules, in one transaction.

  The abstract specification is \<open>fires\<close> (the decision in terms of the core predicates
  \<open>Matches\<close> and \<open>Active\<close> and of the continuations already stored) and \<open>outbox\<close> (the
  database after an event). The main lemma shows that the statement-by-statement
  transaction computes it; atomicity, idempotency and the one-shot guarantee follow.
\<close>

section \<open>The transaction\<close>

record IngestResult =
  ir_Event :: Event
  ir_Continuations :: "Continuation list"

definition ruleQuery :: "Event \<Rightarrow> time \<Rightarrow> Rule \<Rightarrow> bool" where
  \<comment> \<open>the \<open>WHERE\<close> clause of the rule query\<close>
  "ruleQuery ev now r \<longleftrightarrow> sel_Type (r_Selector r) = ev_Type ev \<and>
     (sel_Source (r_Selector r) = [] \<or> sel_Source (r_Selector r) = ev_Source ev) \<and>
     rule_active now r"

definition newContinuation ::
  "'t template_engine \<Rightarrow> Event \<Rightarrow> time \<Rightarrow> string \<Rightarrow> Rule \<Rightarrow> Continuation" where
  "newContinuation te ev now cid r =
     (let c = \<lparr>c_ID = cid, c_RuleID = r_ID r, c_EventID = ev_ID ev, c_SessionID = r_SessionID r,
        c_Prompt = [], c_Label = r_Label r, c_State = ContinuationPending, c_Command = [],
        c_ExitCode = None, c_OutputSummary = [], c_CreatedAt = now, c_UpdatedAt = now\<rparr> in
      case RenderPrompt te r ev of
        Inl e \<Rightarrow> c\<lparr>c_State := ContinuationFailed,
                  c_OutputSummary := ''prompt template error: '' @ Error e\<rparr>
      | Inr prompt \<Rightarrow> c\<lparr>c_Prompt := prompt\<rparr>)"

definition insertContinuation :: "Continuation \<Rightarrow> ('z st, nat) io" where
  "insertContinuation c = UpdateN (\<lambda>d. snd (insert_or_ignore conf_cont c (continuations d)))
     (\<lambda>d. d\<lparr>continuations := fst (insert_or_ignore conf_cont c (continuations d))\<rparr>)"

definition consumeRule :: "string \<Rightarrow> ('z st, unit) io" where
  "consumeRule i = Update (\<lambda>d. d\<lparr>rules :=
     update_where (\<lambda>r. r_ID r = i) (\<lambda>r. r\<lparr>r_Consumed := True\<rparr>) (rules d)\<rparr>)"

fun ingestRules :: "'t template_engine \<Rightarrow> Event \<Rightarrow> time \<Rightarrow> Rule list \<Rightarrow> Continuation list \<Rightarrow>
    ('z st, Continuation list) io" where
  "ingestRules te ev now [] acc = returnE acc"
| "ingestRules te ev now (r # rs) acc =
     bindE (NewID ''cont'') (\<lambda>cid.
     let c = newContinuation te ev now cid r in
     bindE (insertContinuation c) (\<lambda>n.
     if n = 0 then ingestRules te ev now rs acc
     else bindE (if r_OneShot r then consumeRule (r_ID r) else returnE ()) (\<lambda>_.
       ingestRules te ev now rs (acc @ [c]))))"

definition ingestBody :: "'t template_engine \<Rightarrow> Event \<Rightarrow> ('z st, IngestResult) io" where
  "ingestBody te ev =
     bindE (insertEventTx ev) (\<lambda>_.
     bindE Now (\<lambda>now.
     bindE (Query (\<lambda>d. filter (ruleQuery ev now) (rules d))) (\<lambda>matched.
     bindE (ingestRules te ev now matched []) (\<lambda>cs.
     returnE \<lparr>ir_Event = ev, ir_Continuations = cs\<rparr>))))"

definition Ingest :: "'t template_engine \<Rightarrow> Event \<Rightarrow> ('z st, IngestResult) io" where
  "Ingest te ev = with_tx (ingestBody te ev)"

section \<open>The specification\<close>

definition delivered :: "Event \<Rightarrow> database \<Rightarrow> Rule \<Rightarrow> bool" where
  "delivered ev d r \<longleftrightarrow>
     list_ex (\<lambda>c. c_RuleID c = r_ID r \<and> c_EventID c = ev_ID ev) (continuations d)"

definition fires :: "Event \<Rightarrow> time \<Rightarrow> database \<Rightarrow> Rule \<Rightarrow> bool" where
  "fires ev now d r \<longleftrightarrow> Matches (r_Selector r) ev \<and> Active r now \<and> \<not> delivered ev d r"

definition outbox :: "Event \<Rightarrow> time \<Rightarrow> Continuation list \<Rightarrow> database \<Rightarrow> database" where
  "outbox ev now cs d = d\<lparr>events := fst (insert_or_ignore conf_event ev (events d)),
     rules := map (\<lambda>r. if fires ev now d r \<and> r_OneShot r then r\<lparr>r_Consumed := True\<rparr> else r)
       (rules d),
     continuations := continuations d @ cs\<rparr>"

definition freshIDs :: "nat \<Rightarrow> 'z st \<Rightarrow> bool" where
  \<comment> \<open>the next \<open>n\<close> random continuation ids are new and pairwise different\<close>
  "freshIDs n w \<longleftrightarrow>
     distinct (map (\<lambda>i. idAt ''cont'' (rand w) (nrand w + 6 * i)) [0..<n]) \<and>
     list_all (\<lambda>c. c_ID c \<notin> set (map (\<lambda>i. idAt ''cont'' (rand w) (nrand w + 6 * i)) [0..<n]))
       (continuations (db w))"

section \<open>The statements compute the specification\<close>

lemma ruleQuery_iff: "ruleQuery ev now r \<longleftrightarrow> Matches (r_Selector r) ev \<and> Active r now"
  by (auto simp: ruleQuery_def Matches_def Active_def rule_active_def split: option.splits)

lemma newContinuation_sel [simp]:
  "c_ID (newContinuation te ev now i r) = i"
  "c_RuleID (newContinuation te ev now i r) = r_ID r"
  "c_EventID (newContinuation te ev now i r) = ev_ID ev"
  "c_SessionID (newContinuation te ev now i r) = r_SessionID r"
  "c_State (newContinuation te ev now i r) \<in> set continuation_states"
  by (auto simp: newContinuation_def Let_def split: sum.splits)

lemma newContinuation_id:
  "(newContinuation te ev now i r)\<lparr>c_ID := j\<rparr> = newContinuation te ev now j r"
  by (auto simp: newContinuation_def Let_def split: sum.splits)

lemma insertContinuation_Inr:
  assumes "insertContinuation c w = (Inr n, w')"
  shows "(n = 0 \<longleftrightarrow> (\<exists>x\<in>set (continuations (db w)). conf_cont x c)) \<and>
    w' = w\<lparr>db := (db w)\<lparr>continuations :=
      (if n = 0 then continuations (db w) else continuations (db w) @ [c])\<rparr>,
      nfault := Suc (nfault w)\<rparr>"
  using assms unfolding insertContinuation_def
  by (auto dest!: UpdateN_Inr simp: insert_or_ignore_def list_ex_iff split: if_splits)

text \<open>
  One round of the loop: either the row is skipped and nothing else happens, or it is
  appended and a one-shot rule is consumed.
\<close>

definition deliver :: "Rule \<Rightarrow> Continuation \<Rightarrow> database \<Rightarrow> database" where
  "deliver r c d = d\<lparr>continuations := continuations d @ [c],
     rules := (if r_OneShot r then update_where (\<lambda>x. r_ID x = r_ID r)
       (\<lambda>x. x\<lparr>r_Consumed := True\<rparr>) (rules d) else rules d)\<rparr>"

lemma ingestRules_Cons_Inr:
  assumes "ingestRules te ev now (r # rs) acc w = (Inr cs, w')"
  obtains w1 c where "c = newContinuation te ev now (idAt ''cont'' (rand w) (nrand w)) r"
    and "ingestRules te ev now rs
          (if \<exists>x\<in>set (continuations (db w)). conf_cont x c then acc else acc @ [c]) w1 = (Inr cs, w')"
    and "db w1 = (if \<exists>x\<in>set (continuations (db w)). conf_cont x c then db w else deliver r c (db w))"
    and "rand w1 = rand w" and "nrand w1 = nrand w + 6"
proof -
  define c where "c = newContinuation te ev now (idAt ''cont'' (rand w) (nrand w)) r"
  let ?w0 = "w\<lparr>nrand := nrand w + 6\<rparr>"
  from assms obtain n w1 where n: "insertContinuation c ?w0 = (Inr n, w1)"
    and k: "(if n = 0 then ingestRules te ev now rs acc
        else bindE (if r_OneShot r then consumeRule (r_ID r) else returnE ())
          (\<lambda>_. ingestRules te ev now rs (acc @ [c]))) w1 = (Inr cs, w')"
    unfolding c_def by (auto simp: NewID_run bindE_Inr_iff Let_def)
  note w1 = insertContinuation_Inr [OF n]
  show ?thesis
  proof (cases "n = 0")
    case True
    with w1 k that [OF c_def, of w1] show ?thesis by auto
  next
    case False
    then obtain w2 where w2: "(if r_OneShot r then consumeRule (r_ID r) else returnE ()) w1 = (Inr (), w2)"
      and k2: "ingestRules te ev now rs (acc @ [c]) w2 = (Inr cs, w')"
      using k by (auto simp: bindE_Inr_iff)
    have "db w2 = deliver r c (db w)" "rand w2 = rand w" "nrand w2 = nrand w + 6"
      using w2 w1 False
      by (auto simp: consumeRule_def deliver_def dest!: Update_Inr split: if_splits)
    with False w1 k2 that [OF c_def, of w2] show ?thesis by auto
  qed
qed

lemma ingestRules_Inr:
  assumes "ingestRules te ev now rs acc w = (Inr cs, w')" and "distinct (map r_ID rs)"
  shows "\<exists>new. cs = acc @ new \<and>
    db w' = (db w)\<lparr>continuations := continuations (db w) @ new,
      rules := update_where (\<lambda>x. \<exists>r\<in>set rs. r_OneShot r \<and> r_ID x = r_ID r \<and> r_ID r \<in> c_RuleID ` set new)
        (\<lambda>x. x\<lparr>r_Consumed := True\<rparr>) (rules (db w))\<rparr> \<and>
    (\<forall>c\<in>set new. \<exists>i. \<exists>r\<in>set rs. c = newContinuation te ev now i r) \<and>
    distinct (map c_RuleID new) \<and>
    (uniq conf_cont (continuations (db w)) \<longrightarrow> uniq conf_cont (continuations (db w) @ new))"
  using assms
proof (induction rs arbitrary: acc w)
  case Nil
  then show ?case by (auto simp: update_where_none)
next
  case (Cons r rs)
  from Cons.prems(1) obtain w1 c where
    c: "c = newContinuation te ev now (idAt ''cont'' (rand w) (nrand w)) r"
    and k: "ingestRules te ev now rs
          (if \<exists>x\<in>set (continuations (db w)). conf_cont x c then acc else acc @ [c]) w1 = (Inr cs, w')"
    and w1: "db w1 = (if \<exists>x\<in>set (continuations (db w)). conf_cont x c then db w else deliver r c (db w))"
    by (rule ingestRules_Cons_Inr)
  from Cons.prems(2) have dist: "distinct (map r_ID rs)" and rnew: "r_ID r \<notin> r_ID ` set rs" by auto
  from Cons.IH [OF k dist] obtain new where IH:
    "cs = (if \<exists>x\<in>set (continuations (db w)). conf_cont x c then acc else acc @ [c]) @ new"
    "db w' = (db w1)\<lparr>continuations := continuations (db w1) @ new,
      rules := update_where (\<lambda>x. \<exists>r\<in>set rs. r_OneShot r \<and> r_ID x = r_ID r \<and> r_ID r \<in> c_RuleID ` set new)
        (\<lambda>x. x\<lparr>r_Consumed := True\<rparr>) (rules (db w1))\<rparr>"
    "\<forall>c\<in>set new. \<exists>i. \<exists>r\<in>set rs. c = newContinuation te ev now i r"
    "distinct (map c_RuleID new)"
    "uniq conf_cont (continuations (db w1)) \<longrightarrow> uniq conf_cont (continuations (db w1) @ new)"
    by blast
  from rnew have rnew2: "\<forall>r'\<in>set rs. r_ID r' \<noteq> r_ID r" by (metis image_eqI)
  have notin: "r_ID r \<notin> c_RuleID ` set new"
    using IH(3) rnew by force
  show ?case
  proof (cases "\<exists>x\<in>set (continuations (db w)). conf_cont x c")
    case True
    have mem: "\<forall>c\<in>set new. \<exists>i. \<exists>r\<in>set (r # rs). c = newContinuation te ev now i r"
      using IH(3) by (meson list.set_intros(2))
    from True IH w1 mem notin show ?thesis by (intro exI [of _ new]) simp
  next
    case False
    have upd: "update_where (\<lambda>x. \<exists>r\<in>set rs. r_OneShot r \<and> r_ID x = r_ID r \<and> r_ID r \<in> c_RuleID ` set new)
        (\<lambda>x. x\<lparr>r_Consumed := True\<rparr>) (rules (deliver r c (db w))) =
      update_where (\<lambda>x. \<exists>r'\<in>set (r # rs). r_OneShot r' \<and> r_ID x = r_ID r' \<and>
          r_ID r' \<in> c_RuleID ` set (c # new)) (\<lambda>x. x\<lparr>r_Consumed := True\<rparr>) (rules (db w))"
      using rnew2 notin by (auto simp: update_where_def deliver_def c)
    have mem: "\<forall>c\<in>set (c # new). \<exists>i. \<exists>r\<in>set (r # rs). c = newContinuation te ev now i r"
      using IH(3) c by (metis list.set_intros set_ConsD)
    have un: "uniq conf_cont (continuations (db w)) \<longrightarrow> uniq conf_cont (continuations (db w) @ c # new)"
      using IH(5) False w1 by (simp add: deliver_def tco.uniq_snoc)
    have di: "distinct (map c_RuleID (c # new))"
      using IH(4) notin c by simp
    have "cs = acc @ c # new" using False IH(1) by simp
    moreover have "db w' = (db w)\<lparr>continuations := continuations (db w) @ c # new,
        rules := rules (db w')\<rparr>"
      using False IH(2) w1 by (simp add: deliver_def)
    ultimately show ?thesis
      using mem un di upd IH(2) w1 False by (intro exI [of _ "c # new"]) simp
  qed
qed

text \<open>With fresh identifiers a row is skipped exactly when the pair was delivered before.\<close>

lemma freshIDs_Suc:
  assumes "freshIDs (Suc n) w" and "rand w1 = rand w" and "nrand w1 = nrand w + 6"
    and "set (continuations (db w1)) \<subseteq> insert c (set (continuations (db w)))"
    and "c_ID c = idAt ''cont'' (rand w) (nrand w)"
  shows "freshIDs n w1"
proof -
  have shift: "map (\<lambda>i. idAt ''cont'' (rand w) (nrand w + 6 * i)) [0..<Suc n] =
    idAt ''cont'' (rand w) (nrand w) #
      map (\<lambda>i. idAt ''cont'' (rand w1) (nrand w1 + 6 * i)) [0..<n]"
    using assms(2,3) by (simp add: upt_conv_Cons map_Suc_upt [symmetric] algebra_simps del: upt_Suc)
  have "distinct (idAt ''cont'' (rand w) (nrand w) #
      map (\<lambda>i. idAt ''cont'' (rand w1) (nrand w1 + 6 * i)) [0..<n])"
    and old: "\<forall>x\<in>set (continuations (db w)). c_ID x \<notin> set (idAt ''cont'' (rand w) (nrand w) #
      map (\<lambda>i. idAt ''cont'' (rand w1) (nrand w1 + 6 * i)) [0..<n])"
    using assms(1) unfolding freshIDs_def shift by (simp_all add: list_all_iff)
  moreover have "\<forall>x\<in>set (continuations (db w1)). c_ID x \<notin>
      set (map (\<lambda>i. idAt ''cont'' (rand w1) (nrand w1 + 6 * i)) [0..<n])"
  proof
    fix x
    assume "x \<in> set (continuations (db w1))"
    with assms(4) have "x = c \<or> x \<in> set (continuations (db w))" by auto
    then show "c_ID x \<notin> set (map (\<lambda>i. idAt ''cont'' (rand w1) (nrand w1 + 6 * i)) [0..<n])"
      using calculation assms(5) by (auto simp del: set_map)
  qed
  ultimately show ?thesis by (simp add: freshIDs_def list_all_iff)
qed

lemma freshIDs_first:
  "freshIDs (Suc n) w \<Longrightarrow> x \<in> set (continuations (db w)) \<Longrightarrow> c_ID x \<noteq> idAt ''cont'' (rand w) (nrand w)"
  by (auto simp: freshIDs_def list_all_iff upt_conv_Cons simp del: upt_Suc)

lemma ingestRules_fresh:
  assumes "ingestRules te ev now rs acc w = (Inr cs, w')" and "distinct (map r_ID rs)"
    and "freshIDs (length rs) w"
  shows "map (\<lambda>c. c\<lparr>c_ID := []\<rparr>) cs = map (\<lambda>c. c\<lparr>c_ID := []\<rparr>) acc @
    map (newContinuation te ev now []) (filter (\<lambda>r. \<not> delivered ev (db w) r) rs)"
  using assms
proof (induction rs arbitrary: acc w)
  case Nil
  then show ?case by simp
next
  case (Cons r rs)
  from Cons.prems(1) obtain w1 c where
    c: "c = newContinuation te ev now (idAt ''cont'' (rand w) (nrand w)) r"
    and k: "ingestRules te ev now rs
          (if \<exists>x\<in>set (continuations (db w)). conf_cont x c then acc else acc @ [c]) w1 = (Inr cs, w')"
    and w1: "db w1 = (if \<exists>x\<in>set (continuations (db w)). conf_cont x c then db w else deliver r c (db w))"
      "rand w1 = rand w" "nrand w1 = nrand w + 6"
    by (rule ingestRules_Cons_Inr)
  have skip: "(\<exists>x\<in>set (continuations (db w)). conf_cont x c) \<longleftrightarrow> delivered ev (db w) r"
    using Cons.prems(3) freshIDs_first [of "length rs" w]
    by (auto simp: conf_cont_def delivered_def list_ex_iff c)
  have same: "filter (\<lambda>r. \<not> delivered ev (db w1) r) rs = filter (\<lambda>r. \<not> delivered ev (db w) r) rs"
    using Cons.prems(2) w1(1) by (auto simp: deliver_def delivered_def c image_iff intro!: filter_cong)
  have "freshIDs (length rs) w1"
    by (rule freshIDs_Suc [where w = w and c = c]) (use Cons.prems(3) w1 in \<open>auto simp: deliver_def c\<close>)
  then have "map (\<lambda>c. c\<lparr>c_ID := []\<rparr>) cs = map (\<lambda>c. c\<lparr>c_ID := []\<rparr>)
      (if \<exists>x\<in>set (continuations (db w)). conf_cont x c then acc else acc @ [c]) @
    map (newContinuation te ev now []) (filter (\<lambda>r. \<not> delivered ev (db w1) r) rs)"
    using Cons.IH [OF k] Cons.prems(2) by simp
  with skip same show ?case by (simp add: c newContinuation_id)
qed

lemma ingestRules_healthy:
  assumes "healthy w"
  shows "\<exists>cs w'. ingestRules te ev now rs acc w = (Inr cs, w') \<and> healthy w'"
  using assms
proof (induction rs arbitrary: acc w)
  case (Cons r rs)
  then show ?case
    by (auto simp: NewID_run Let_def insertContinuation_def consumeRule_def
        bindE_def [of "NewID _"] bindE_def [of "UpdateN _ _"] bindE_def [of "Update _"])
qed simp

section \<open>The whole transaction\<close>

lemma ingestBody_Inr:
  assumes "ingestBody te ev w = (Inr res, w')"
  obtains w1 where "ev_ID ev \<noteq> []" and "ir_Event res = ev"
    and "ingestRules te ev (clock w (nclock w))
      (filter (ruleQuery ev (clock w (nclock w))) (rules (db w))) [] w1 = (Inr (ir_Continuations res), w')"
    and "db w1 = (db w)\<lparr>events := fst (insert_or_ignore conf_event ev (events (db w)))\<rparr>"
    and "rand w1 = rand w" and "nrand w1 = nrand w"
  using assms
  by (auto simp: ingestBody_def bindE_Inr_iff insertEventTx_def Now_def
      split: if_splits dest!: Update_Inr Query_Inr)

lemma wf_distinct_rules:
  assumes "wf_db d"
  shows "distinct (map r_ID (filter P (rules d)))"
proof -
  have "distinct (map r_ID (rules d))"
    using wf_db_uniqD(2) [OF assms] by (simp add: conf_rule_def [abs_def] uniq_key)
  then show ?thesis by (simp add: distinct_map_filter)
qed

lemma update_where_unique:
  assumes "distinct (map r_ID rs)"
  shows "update_where (\<lambda>x. \<exists>r\<in>set (filter P rs). Q r \<and> r_ID x = r_ID r \<and> S (r_ID r)) f rs =
    map (\<lambda>r. if P r \<and> Q r \<and> S (r_ID r) then f r else r) rs"
proof -
  have "x = r" if "x \<in> set rs" "r \<in> set rs" "r_ID x = r_ID r" for x r
    using assms that by (auto simp: distinct_map dest: inj_onD)
  then show ?thesis unfolding update_where_def by (intro map_cong) fastforce+
qed

text \<open>What a committed ingest did, whatever the identifiers were.\<close>

lemma Ingest_Inr:
  assumes run: "Ingest te ev w = (Inr res, w')" and wf: "wf_st w"
  shows "ir_Event res = ev \<and> ev_ID ev \<noteq> [] \<and>
    db w' = (db w)\<lparr>events := fst (insert_or_ignore conf_event ev (events (db w))),
      rules := map (\<lambda>r. if ruleQuery ev (clock w (nclock w)) r \<and> r_OneShot r \<and>
          r_ID r \<in> c_RuleID ` set (ir_Continuations res) then r\<lparr>r_Consumed := True\<rparr> else r)
        (rules (db w)),
      continuations := continuations (db w) @ ir_Continuations res\<rparr> \<and>
    (\<forall>c\<in>set (ir_Continuations res). \<exists>i. \<exists>r\<in>set (rules (db w)).
      ruleQuery ev (clock w (nclock w)) r \<and> c = newContinuation te ev (clock w (nclock w)) i r) \<and>
    distinct (map c_RuleID (ir_Continuations res)) \<and>
    uniq conf_cont (continuations (db w) @ ir_Continuations res)"
proof -
  let ?now = "clock w (nclock w)" and ?cs = "ir_Continuations res"
  let ?m = "filter (ruleQuery ev ?now) (rules (db w))"
  from run obtain w1 where body: "ingestBody te ev (w\<lparr>nfault := Suc (nfault w)\<rparr>) = (Inr res, w1)"
    and w': "w' = w1\<lparr>nfault := Suc (nfault w1)\<rparr>"
    unfolding Ingest_def by (rule with_tx_success)
  from body obtain w2 where ev: "ev_ID ev \<noteq> []" "ir_Event res = ev"
    and loop: "ingestRules te ev ?now ?m [] w2 = (Inr ?cs, w1)"
    and db2: "db w2 = (db w)\<lparr>events := fst (insert_or_ignore conf_event ev (events (db w)))\<rparr>"
    by (rule ingestBody_Inr) auto
  have dist: "distinct (map r_ID (rules (db w)))"
    using wf_distinct_rules [OF wf, of "\<lambda>_. True"] by simp
  from ingestRules_Inr [OF loop wf_distinct_rules [OF wf]] db2
  have "db w1 = (db w)\<lparr>events := fst (insert_or_ignore conf_event ev (events (db w))),
      continuations := continuations (db w) @ ?cs,
      rules := update_where (\<lambda>x. \<exists>r\<in>set ?m. r_OneShot r \<and> r_ID x = r_ID r \<and> r_ID r \<in> c_RuleID ` set ?cs)
        (\<lambda>x. x\<lparr>r_Consumed := True\<rparr>) (rules (db w))\<rparr>"
    and "\<forall>c\<in>set ?cs. \<exists>i. \<exists>r\<in>set ?m. c = newContinuation te ev ?now i r"
    and "distinct (map c_RuleID ?cs)"
    and "uniq conf_cont (continuations (db w) @ ?cs)"
    using wf by (auto simp: wf_db_def)
  with ev w' show ?thesis
    unfolding update_where_unique [OF dist, where Q = r_OneShot and S = "\<lambda>i. i \<in> c_RuleID ` set ?cs"]
    by (simp add: Bex_def)
qed

lemma wf_Ingest [wf_rules]: "preserves wf_st (Ingest te ev)"
proof (rule preservesI)
  fix w :: "'a st"
  assume wf: "wf_st w"
  obtain r w' where run: "Ingest te ev w = (r, w')" by (cases "Ingest te ev w")
  show "wf_st (snd (Ingest te ev w))"
  proof (cases r)
    case (Inl e)
    with run wf show ?thesis by (auto simp: Ingest_def dest: with_tx_error)
  next
    case (Inr res)
    with run have "Ingest te ev w = (Inr res, w')" by simp
    note * = Ingest_Inr [OF this wf]
    have "uniq conf_rule (rules (db w'))"
      using * wf_db_uniqD(2) [OF wf]
      by (simp add: conf_rule_def [abs_def] uniq_key comp_def if_distrib cong: if_cong map_cong)
    moreover have "list_all (\<lambda>c. c_State c \<in> set continuation_states) (continuations (db w'))"
      using * wf by (auto simp: wf_db_def list_all_iff)
    ultimately show ?thesis
      using * wf wf_events_insert [OF wf, of ev] run Inr by (auto simp: wf_db_def list_all_iff)
  qed
qed

lemma freshIDs_mono: "freshIDs n w \<Longrightarrow> m \<le> n \<Longrightarrow> freshIDs m w"
  by (auto simp: freshIDs_def distinct_map list_all_iff elim!: inj_on_subset)

section \<open>Properties\<close>

lemma delivered_mono: "set (continuations d) \<subseteq> set (continuations d') \<Longrightarrow> delivered ev d r \<Longrightarrow> delivered ev d' r"
  by (auto simp: delivered_def list_ex_iff)

lemma Ingest_fresh:
  assumes run: "Ingest te ev w = (Inr res, w')" and wf: "wf_st w"
    and fresh: "freshIDs (length (rules (db w))) w"
  shows "map (\<lambda>c. c\<lparr>c_ID := []\<rparr>) (ir_Continuations res) =
    map (newContinuation te ev (clock w (nclock w)) [])
      (filter (fires ev (clock w (nclock w)) (db w)) (rules (db w)))"
proof -
  let ?now = "clock w (nclock w)"
  let ?m = "filter (ruleQuery ev ?now) (rules (db w))"
  from run obtain w1 where "ingestBody te ev (w\<lparr>nfault := Suc (nfault w)\<rparr>) = (Inr res, w1)"
    unfolding Ingest_def by (rule with_tx_success)
  then obtain w2 where loop: "ingestRules te ev ?now ?m [] w2 = (Inr (ir_Continuations res), w1)"
    and w2: "db w2 = (db w)\<lparr>events := fst (insert_or_ignore conf_event ev (events (db w)))\<rparr>"
      "rand w2 = rand w" "nrand w2 = nrand w"
    by (rule ingestBody_Inr) auto
  have "freshIDs (length ?m) w2"
    using freshIDs_mono [OF fresh, of "length ?m"] w2 by (simp add: freshIDs_def)
  from ingestRules_fresh [OF loop wf_distinct_rules [OF wf] this] w2
  show ?thesis
    by (simp add: delivered_def fires_def [abs_def] ruleQuery_iff [abs_def] conj_ac)
qed

lemma Ingest_fresh_rules:
  assumes "Ingest te ev w = (Inr res, w')" and "wf_st w" and "freshIDs (length (rules (db w))) w"
  shows "c_RuleID ` set (ir_Continuations res) =
    r_ID ` {r \<in> set (rules (db w)). fires ev (clock w (nclock w)) (db w) r}"
proof -
  have "c_RuleID ` set (ir_Continuations res) =
      set (map c_RuleID (map (\<lambda>c. c\<lparr>c_ID := []\<rparr>) (ir_Continuations res)))"
    by (simp add: image_image)
  also have "\<dots> = r_ID ` {r \<in> set (rules (db w)). fires ev (clock w (nclock w)) (db w) r}"
    unfolding Ingest_fresh [OF assms] by (auto simp: image_image)
  finally show ?thesis .
qed

text \<open>
  (C1) The transaction computes the outbox specification. With fresh identifiers, a
  committed ingest creates exactly one continuation for each rule whose selector matches
  the event, that is active at the clock reading, and for which the pair (rule, event) has
  no continuation yet, in rule order and with the rendered prompt (or, where rendering
  fails, a failed continuation); it stores the event, consumes exactly the one-shot rules
  among them, and changes nothing else.
\<close>

theorem ingest_refines_outbox:
  assumes "Ingest te ev w = (Inr res, w')" and "wf_st w"
    and "freshIDs (length (rules (db w))) w"
  shows "map (\<lambda>c. c\<lparr>c_ID := []\<rparr>) (ir_Continuations res) =
      map (newContinuation te ev (clock w (nclock w)) [])
        (filter (fires ev (clock w (nclock w)) (db w)) (rules (db w)))
    \<and> db w' = outbox ev (clock w (nclock w)) (ir_Continuations res) (db w)"
proof -
  let ?now = "clock w (nclock w)"
  have inj: "r_ID x = r_ID y \<longleftrightarrow> x = y" if "x \<in> set (rules (db w))" "y \<in> set (rules (db w))" for x y
    using wf_distinct_rules [OF assms(2), of "\<lambda>_. True"] that by (auto simp: distinct_map dest: inj_onD)
  have "(ruleQuery ev ?now r \<and> r_OneShot r \<and> r_ID r \<in> c_RuleID ` set (ir_Continuations res)) \<longleftrightarrow>
      (fires ev ?now (db w) r \<and> r_OneShot r)" if "r \<in> set (rules (db w))" for r
    using that inj unfolding Ingest_fresh_rules [OF assms] by (auto simp: fires_def ruleQuery_iff)
  then have "map (\<lambda>r. if ruleQuery ev ?now r \<and> r_OneShot r \<and>
          r_ID r \<in> c_RuleID ` set (ir_Continuations res) then r\<lparr>r_Consumed := True\<rparr> else r) (rules (db w)) =
      map (\<lambda>r. if fires ev ?now (db w) r \<and> r_OneShot r then r\<lparr>r_Consumed := True\<rparr> else r) (rules (db w))"
    by (intro map_cong) auto
  with Ingest_Inr [OF assms(1,2)] Ingest_fresh [OF assms] show ?thesis
    by (simp add: outbox_def)
qed

text \<open>
  (C2) All or nothing. Whatever statement of the transaction fails, the tables are as
  before; when it commits, the event is stored, every continuation it reports is stored,
  and no one-shot rule that produced one is left unconsumed.
\<close>

theorem ingest_all_or_nothing:
  assumes "wf_st w"
  shows "case Ingest te ev w of
      (Inl e, w') \<Rightarrow> db w' = db w
    | (Inr res, w') \<Rightarrow> list_ex (\<lambda>x. ev_ID x = ev_ID ev) (events (db w')) \<and>
        set (ir_Continuations res) \<subseteq> set (continuations (db w')) \<and>
        list_all (\<lambda>r. r_OneShot r \<and> r_ID r \<in> c_RuleID ` set (ir_Continuations res) \<longrightarrow> r_Consumed r)
          (rules (db w'))"
proof (cases "Ingest te ev w")
  case (Pair r w')
  show ?thesis
  proof (cases r)
    case (Inl e)
    with Pair show ?thesis by (auto simp: Ingest_def dest: with_tx_error)
  next
    case (Inr res)
    with Pair have run: "Ingest te ev w = (Inr res, w')" by simp
    note * = Ingest_Inr [OF run assms]
    have "ruleQuery ev (clock w (nclock w)) r"
      if r: "r \<in> set (rules (db w))" "r_ID r \<in> c_RuleID ` set (ir_Continuations res)" for r
    proof -
      from r(2) obtain c where "c \<in> set (ir_Continuations res)" "r_ID r = c_RuleID c" by auto
      with * obtain r0 where "r0 \<in> set (rules (db w))" "ruleQuery ev (clock w (nclock w)) r0"
        "r_ID r = r_ID r0" by fastforce
      with r(1) wf_distinct_rules [OF assms, of "\<lambda>_. True"] show ?thesis
        by (auto simp: distinct_map dest: inj_onD)
    qed
    with * run show ?thesis
      by (auto simp: insert_or_ignore_def list_ex_iff list_all_iff conf_event_def)
  qed
qed

lemma Ingest_healthy:
  assumes "healthy w" and "ev_ID ev \<noteq> []"
  shows "\<exists>res w'. Ingest te ev w = (Inr res, w') \<and> healthy w'"
proof -
  let ?w1 = "w\<lparr>nfault := Suc (nfault w)\<rparr>"
  let ?w2 = "w\<lparr>db := (db w)\<lparr>events := fst (insert_or_ignore conf_event ev (events (db w)))\<rparr>,
    nclock := Suc (nclock w), nfault := Suc (Suc (Suc (nfault w)))\<rparr>"
  have "healthy ?w2" using assms(1) by simp
  from ingestRules_healthy [OF this] obtain cs w3
    where loop: "ingestRules te ev (clock w (nclock w))
        (filter (ruleQuery ev (clock w (nclock w))) (rules (db w))) [] ?w2 = (Inr cs, w3)"
      and w3: "healthy w3"
    by blast
  have "ingestBody te ev ?w1 = (Inr \<lparr>ir_Event = ev, ir_Continuations = cs\<rparr>, w3)"
    using assms loop by (simp add: ingestBody_def insertEventTx_def Now_def bindE_def)
  with with_tx_healthy [where body = "ingestBody te ev", OF assms(1) this w3] w3 show ?thesis by (simp add: Ingest_def)
qed

lemma Ingest_no_continuations:
  assumes run: "Ingest te ev w = (Inr res, w')" and wf: "wf_st w"
    and none: "ir_Continuations res = []"
    and stored: "list_ex (\<lambda>x. ev_ID x = ev_ID ev) (events (db w))"
  shows "db w' = db w"
  using Ingest_Inr [OF run wf] none stored by (simp add: insert_or_ignore_def conf_event_def)

text \<open>
  Re-delivery is a no-op. When the same event is ingested again right after it was
  ingested (with fresh identifiers, and a clock that did not step backwards), the second
  transaction creates no continuation and leaves the database as it is.
\<close>

theorem ingest_redelivery_noop:
  assumes first: "Ingest te ev w = (Inr res1, w1)"
    and again: "Ingest te ev w1 = (Inr res2, w2)"
    and wf: "wf_st w" and fresh: "freshIDs (length (rules (db w))) w"
    and mono: "clock w (nclock w) \<le> clock w1 (nclock w1)"
  shows "ir_Continuations res2 = [] \<and> db w2 = db w1"
proof -
  let ?now1 = "clock w (nclock w)" and ?now2 = "clock w1 (nclock w1)"
  have wf1: "wf_st w1" using wf_Ingest wf first by (rule preservesD)
  note I1 = Ingest_Inr [OF first wf] and I2 = Ingest_Inr [OF again wf1]
  have "False" if "c \<in> set (ir_Continuations res2)" for c
  proof -
    from that I2 obtain i r where r: "r \<in> set (rules (db w1))" and q2: "ruleQuery ev ?now2 r"
      and c: "c = newContinuation te ev ?now2 i r" by blast
    from q2 have "\<not> r_Consumed r" by (simp add: ruleQuery_def rule_active_def)
    with r I1 have r0: "r \<in> set (rules (db w))" by (auto split: if_splits)
    from q2 mono have q1: "ruleQuery ev ?now1 r"
      by (auto simp: ruleQuery_def rule_active_def split: option.splits)
    have "delivered ev (db w1) r"
    proof (cases "delivered ev (db w) r")
      case True
      with I1 show ?thesis by (auto intro: delivered_mono [rotated])
    next
      case False
      with r0 q1 have "r_ID r \<in> c_RuleID ` set (ir_Continuations res1)"
        unfolding Ingest_fresh_rules [OF first wf fresh] by (auto simp: fires_def ruleQuery_iff)
      then obtain c1 where c1: "c1 \<in> set (ir_Continuations res1)" "c_RuleID c1 = r_ID r" by auto
      with I1 have "c_EventID c1 = ev_ID ev" by auto
      with c1 I1 show ?thesis by (auto simp: delivered_def list_ex_iff)
    qed
    then obtain x where x: "x \<in> set (continuations (db w1))" "conf_cont x c"
      using c by (auto simp: delivered_def list_ex_iff conf_cont_def)
    from I2 have "uniq conf_cont (continuations (db w1) @ ir_Continuations res2)" by blast
    with x that show False by (simp add: uniq_def sorted_wrt_append)
  qed
  then have none: "ir_Continuations res2 = []" by (metis ex_in_conv set_empty)
  have "list_ex (\<lambda>x. ev_ID x = ev_ID ev) (events (db w1))"
    using I1 by (auto simp: insert_or_ignore_def list_ex_iff conf_event_def)
  with none Ingest_no_continuations [OF again wf1] show ?thesis by simp
qed

text \<open>
  The transaction returns: on a connection with no failing statement, ingesting an
  event with an identifier commits, and the connection is still usable.
\<close>

theorem ingest_commits:
  assumes "healthy w" and "ev_ID ev \<noteq> []"
  shows "\<exists>res w'. Ingest te ev w = (Inr res, w') \<and> healthy w'"
  using assms by (rule Ingest_healthy)

section \<open>One-shot rules over a history of events\<close>

fun ingestAll :: "'t template_engine \<Rightarrow> Event list \<Rightarrow> 'z st \<Rightarrow> Continuation list \<times> 'z st" where
  \<comment> \<open>successive ingests; one that fails contributes nothing\<close>
  "ingestAll te [] w = ([], w)"
| "ingestAll te (ev # evs) w = (case Ingest te ev w of
     (Inl _, w') \<Rightarrow> ingestAll te evs w'
   | (Inr res, w') \<Rightarrow> (case ingestAll te evs w' of
       (cs, w'') \<Rightarrow> (ir_Continuations res @ cs, w'')))"

definition spent :: "string \<Rightarrow> database \<Rightarrow> bool" where
  "spent i d \<longleftrightarrow> list_all (\<lambda>r. r_ID r = i \<longrightarrow> r_Consumed r) (rules d)"

lemma Ingest_spent:
  assumes "wf_st w" and "spent i (db w)" and "Ingest te ev w = (r, w')"
  shows "spent i (db w') \<and> (\<forall>res. r = Inr res \<longrightarrow> i \<notin> c_RuleID ` set (ir_Continuations res))"
proof (cases r)
  case (Inl e)
  with assms show ?thesis by (auto simp: Ingest_def dest: with_tx_error)
next
  case (Inr res)
  with assms(3) have "Ingest te ev w = (Inr res, w')" by simp
  from Ingest_Inr [OF this assms(1)] assms(2) Inr show ?thesis
    by (fastforce simp: spent_def list_all_iff ruleQuery_def rule_active_def)
qed

lemma ingest_fired_spent:
  assumes run: "Ingest te ev w = (Inr res, w')" and "wf_st w" and "r \<in> set (rules (db w))"
    and "r_OneShot r" and "r_ID r \<in> c_RuleID ` set (ir_Continuations res)"
  shows "spent (r_ID r) (db w')"
proof -
  have inj: "x = r" if "x \<in> set (rules (db w))" "r_ID x = r_ID r" for x
    using wf_distinct_rules [OF assms(2), of "\<lambda>_. True"] assms(3) that
    by (auto simp: distinct_map dest: inj_onD)
  note * = Ingest_Inr [OF run assms(2)]
  from assms(5) obtain c where "c \<in> set (ir_Continuations res)" and "r_ID r = c_RuleID c" by auto
  with * obtain r0 where "r0 \<in> set (rules (db w))" "ruleQuery ev (clock w (nclock w)) r0"
    "r_ID r0 = r_ID r" by fastforce
  with inj have "ruleQuery ev (clock w (nclock w)) r" by blast
  with * inj assms(4,5) show ?thesis by (auto simp: spent_def list_all_iff)
qed

lemma ingestAll_spent:
  assumes "wf_st w" and "spent i (db w)"
  shows "\<forall>c\<in>set (fst (ingestAll te evs w)). c_RuleID c \<noteq> i"
  using assms
proof (induction evs arbitrary: w)
  case (Cons ev evs)
  obtain r w' where run: "Ingest te ev w = (r, w')" by (cases "Ingest te ev w")
  have "wf_st w'" using wf_Ingest Cons.prems(1) run by (rule preservesD)
  with Cons.IH [of w'] Ingest_spent [OF Cons.prems run] run show ?case
    by (cases r) (auto simp: image_iff split: prod.splits)
qed simp

lemma filter_le_one:
  assumes "distinct (map f xs)"
  shows "length (filter (\<lambda>x. f x = y) xs) \<le> 1"
  using assms
proof (induction xs)
  case (Cons x xs)
  then show ?case by (cases "f x = y") (auto simp: filter_empty_conv image_iff)
qed simp

text \<open>
  (C12) A one-shot rule fires at most once: over any sequence of events, with any
  failures in between and whatever identifiers are drawn, at most one continuation is
  created for it.
\<close>

theorem one_shot_fires_at_most_once:
  assumes "wf_st w" and "r \<in> set (rules (db w))" and "r_OneShot r"
  shows "length (filter (\<lambda>c. c_RuleID c = r_ID r) (fst (ingestAll te evs w))) \<le> 1"
  using assms
proof (induction evs arbitrary: w r)
  case (Cons ev evs)
  obtain q w' where run: "Ingest te ev w = (q, w')" by (cases "Ingest te ev w")
  have wf': "wf_st w'" using wf_Ingest Cons.prems(1) run by (rule preservesD)
  show ?case
  proof (cases q)
    case (Inl e)
    with run have "db w' = db w" by (auto simp: Ingest_def dest: with_tx_error)
    with Cons.IH [OF wf', of r] Cons.prems run Inl show ?thesis by simp
  next
    case (Inr res)
    with run have run': "Ingest te ev w = (Inr res, w')" by simp
    note * = Ingest_Inr [OF run' Cons.prems(1)]
    have all: "fst (ingestAll te (ev # evs) w) = ir_Continuations res @ fst (ingestAll te evs w')"
      using run' by (simp split: prod.splits)
    show ?thesis
    proof (cases "r_ID r \<in> c_RuleID ` set (ir_Continuations res)")
      case True
      have "spent (r_ID r) (db w')"
        using ingest_fired_spent [OF run' Cons.prems True] .
      from ingestAll_spent [OF wf' this]
      have "filter (\<lambda>c. c_RuleID c = r_ID r) (fst (ingestAll te evs w')) = []"
        by (auto simp: filter_empty_conv)
      with all filter_le_one [of c_RuleID "ir_Continuations res" "r_ID r"] * show ?thesis by simp
    next
      case False
      then have none: "filter (\<lambda>c. c_RuleID c = r_ID r) (ir_Continuations res) = []"
        by (auto simp: filter_empty_conv image_iff)
      from False * Cons.prems(2) have "r \<in> set (rules (db w'))" by (auto simp: image_iff)
      with Cons.IH [OF wf' _ Cons.prems(3)] all none show ?thesis by simp
    qed
  qed
qed simp

lemma oracles_NewID [intro!]: "preserves (oracles K R F) (NewID p)"
  by (rule preserves_NewID) simp

text \<open>A predicate on the other fields of the state is not affected by the transaction.\<close>

lemma preserves_ingestRules:
  assumes "\<And>w d. I (w\<lparr>db := d\<rparr>) = I w" and "\<And>w n. I (w\<lparr>nfault := n\<rparr>) = I w"
    and "\<And>w n. I (w\<lparr>nrand := n\<rparr>) = I w"
  shows "preserves I (ingestRules te ev now rs acc)"
proof (induction rs arbitrary: acc)
  case (Cons r rs)
  then show ?case
    unfolding ingestRules.simps Let_def insertContinuation_def consumeRule_def Update_def UpdateN_def
    by (intro preserves_rules) (simp_all add: assms)
qed auto

lemma preserves_Ingest_frame:
  assumes "\<And>w d. I (w\<lparr>db := d\<rparr>) = I w" and "\<And>w n. I (w\<lparr>nfault := n\<rparr>) = I w"
    and "\<And>w n. I (w\<lparr>nrand := n\<rparr>) = I w" and "\<And>w n. I (w\<lparr>nclock := n\<rparr>) = I w"
  shows "preserves I (Ingest te ev)"
  unfolding Ingest_def ingestBody_def insertEventTx_def Update_def Query_def
  by (intro preserves_rules preserves_ingestRules) (simp_all add: assms)

lemma oracles_Ingest: "preserves (oracles K R F) (Ingest te ev)"
  by (rule preserves_Ingest_frame) simp_all

section \<open>A concrete store\<close>

text \<open>
  Two rules of one session, one of them one-shot, a template engine that renders a
  template as itself and rejects the empty one, and the event that matches both.
\<close>

definition exEngine :: "string template_engine" where
  "exEngine = \<lparr>t_parse = (\<lambda>s. if s = [] then Inl (GoError ''empty'') else Inr s),
     t_execute = (\<lambda>t _. Inr t)\<rparr>"

definition exEvent :: Event where
  "exEvent = \<lparr>ev_ID = ''evt-1'', ev_Type = ''docker.healthy'', ev_Source = ''postgres'',
     ev_Payload = Map.empty, ev_Timestamp = 5\<rparr>"

definition exRule :: "string \<Rightarrow> bool \<Rightarrow> Rule" where
  "exRule i one = \<lparr>r_ID = i, r_Selector = \<lparr>sel_Type = ''docker.healthy'', sel_Source = []\<rparr>,
     r_ActionKind = ActionContinueSession, r_SessionID = ''s1'', r_PromptTemplate = ''go'',
     r_Label = ''step-1'', r_OneShot = one, r_Consumed = False, r_ExpiresAt = None,
     r_CreatedAt = 1\<rparr>"

definition exSession :: Session where
  "exSession = \<lparr>s_SessionID = ''s1'', s_Agent = ''claude'', s_RepoPath = ''/repo'',
     s_State = SessionWaiting, s_CreatedAt = 1, s_UpdatedAt = 1\<rparr>"

definition exDB :: database where
  "exDB = \<lparr>events = [], rules = [exRule ''rule-1'' True, exRule ''rule-2'' False],
     sessions = [exSession], continuations = [], watches = []\<rparr>"

definition exConn :: "database \<Rightarrow> (nat \<Rightarrow> string option) \<Rightarrow> database conn" where
  "exConn d f = \<lparr>clock = (\<lambda>n. 10 + int n), nclock = 0, rand = of_nat, nrand = 0,
     db = d, fault = f, nfault = 0\<rparr>"

abbreviation exW :: "database conn" where
  "exW \<equiv> exConn exDB (\<lambda>_. None)"

lemmas ex_defs = exEngine_def exEvent_def exRule_def exSession_def exDB_def exConn_def

lemma exConn_sel [simp]:
  "db (exConn d f) = d" "fault (exConn d f) = f" "nfault (exConn d f) = 0"
  "nclock (exConn d f) = 0" "nrand (exConn d f) = 0" "clock (exConn d f) n = 10 + int n"
  by (simp_all add: exConn_def)

lemma exW_healthy: "healthy exW"
  by (simp add: healthy_def)

lemma exDB_wf: "wf_db exDB"
  by code_simp

lemma exW_fresh: "freshIDs (length (rules (db exW))) exW"
  by code_simp

theorem ingest_refines_outbox_witness:
  "\<exists>res w'. Ingest exEngine exEvent exW = (Inr res, w') \<and>
     map c_RuleID (ir_Continuations res) = [''rule-1'', ''rule-2''] \<and>
     map r_Consumed (rules (db w')) = [True, False]"
proof -
  obtain res w' where run: "Ingest exEngine exEvent exW = (Inr res, w')"
    using Ingest_healthy [OF exW_healthy, of exEvent exEngine] by (auto simp: exEvent_def)
  have "wf_st exW" using exDB_wf by simp
  from ingest_refines_outbox [OF run this exW_fresh]
  have m: "map (\<lambda>c. c\<lparr>c_ID := []\<rparr>) (ir_Continuations res) =
      map (newContinuation exEngine exEvent 10 []) (rules exDB)"
    and d: "db w' = outbox exEvent 10 (ir_Continuations res) exDB"
    by (auto simp: fires_def Matches_def Active_def delivered_def ex_defs)
  have "map c_RuleID (ir_Continuations res) = map c_RuleID (map (\<lambda>c. c\<lparr>c_ID := []\<rparr>) (ir_Continuations res))"
    by simp
  then have "map c_RuleID (ir_Continuations res) = [''rule-1'', ''rule-2'']"
    unfolding m by (simp add: exDB_def exRule_def)
  moreover have "map r_Consumed (rules (db w')) = [True, False]"
    unfolding d by (simp add: outbox_def fires_def Matches_def Active_def delivered_def ex_defs)
  ultimately show ?thesis using run by (intro exI conjI)
qed

theorem ingest_all_or_nothing_witness:
  "wf_st (exConn exDB (\<lambda>n. if n = 4 then Some ''disk I/O error'' else None)) \<and>
   (case Ingest exEngine exEvent (exConn exDB (\<lambda>n. if n = 4 then Some ''disk I/O error'' else None)) of
      (Inl e, w') \<Rightarrow> db w' = exDB
    | (Inr res, w') \<Rightarrow> list_ex (\<lambda>x. ev_ID x = ''evt-1'') (events (db w')) \<and>
        set (ir_Continuations res) \<subseteq> set (continuations (db w')) \<and>
        list_all (\<lambda>r. r_OneShot r \<and> r_ID r \<in> c_RuleID ` set (ir_Continuations res) \<longrightarrow> r_Consumed r)
          (rules (db w')))"
proof -
  let ?w = "exConn exDB (\<lambda>n. if n = 4 then Some ''disk I/O error'' else None)"
  have wf: "wf_st ?w" using exDB_wf by simp
  have i: "ev_ID exEvent = ''evt-1''" by (simp add: exEvent_def)
  show ?thesis
    using wf ingest_all_or_nothing [OF wf, where te = exEngine and ev = exEvent] unfolding i exConn_sel by blast
qed

theorem ingest_commits_witness:
  "\<exists>res w'. Ingest exEngine exEvent exW = (Inr res, w') \<and> healthy w'"
  by (rule ingest_commits [OF exW_healthy]) (simp add: exEvent_def)

theorem ingest_redelivery_noop_witness:
  "\<exists>res1 w1 res2 w2. Ingest exEngine exEvent exW = (Inr res1, w1) \<and>
     Ingest exEngine exEvent w1 = (Inr res2, w2) \<and> ir_Continuations res2 = [] \<and> db w2 = db w1"
proof -
  have ev: "ev_ID exEvent \<noteq> []" by (simp add: exEvent_def)
  obtain res1 w1 where r1: "Ingest exEngine exEvent exW = (Inr res1, w1)" and h1: "healthy w1"
    using Ingest_healthy [OF exW_healthy ev] by blast
  obtain res2 w2 where r2: "Ingest exEngine exEvent w1 = (Inr res2, w2)"
    using Ingest_healthy [OF h1 ev] by blast
  have "oracles (\<lambda>n. 10 + int n) of_nat (\<lambda>_. None) exW" by (simp add: oracles_def exConn_def)
  with oracles_Ingest have "oracles (\<lambda>n. 10 + int n) of_nat (\<lambda>_. None) w1" using r1 by (rule preservesD)
  then have mono: "clock exW (nclock exW) \<le> clock w1 (nclock w1)" by (simp add: oracles_def)
  have "wf_st exW" using exDB_wf by simp
  from ingest_redelivery_noop [OF r1 r2 this exW_fresh mono] r1 r2 show ?thesis by blast
qed

theorem one_shot_fires_at_most_once_witness:
  "length (filter (\<lambda>c. c_RuleID c = ''rule-1'')
     (fst (ingestAll exEngine [exEvent, exEvent\<lparr>ev_ID := ''evt-2''\<rparr>] exW))) \<le> 1"
proof -
  have "wf_st exW" using exDB_wf by simp
  moreover have "exRule ''rule-1'' True \<in> set (rules (db exW))" by (simp add: exDB_def)
  moreover have "r_OneShot (exRule ''rule-1'' True)" by (simp add: exRule_def)
  ultimately have "length (filter (\<lambda>c. c_RuleID c = r_ID (exRule ''rule-1'' True))
     (fst (ingestAll exEngine [exEvent, exEvent\<lparr>ev_ID := ''evt-2''\<rparr>] exW))) \<le> 1"
    by (rule one_shot_fires_at_most_once)
  then show ?thesis by (simp add: exRule_def)
qed

end
