(* ===== verification/Bus.thy ===== *)
theory Bus
  imports Core
begin

text \<open>
  The in-process event bus of \<^verbatim>\<open>src/internal/bus/bus.go\<close>.

  Go channels are shared objects: the bus holds the sending side of the registered
  subscribers, a consumer keeps its receiving side after it has cancelled. The model
  keeps all channels ever made in \<open>chans\<close> and the registered identifiers in \<open>subs\<close>.
  Sending on a closed channel and closing a closed channel panic in Go; both are the
  outcome \<open>None\<close> here, and the invariant shows that they never happen.
\<close>

section \<open>Channels\<close>

record chan =
  ch_cap :: nat
  ch_buf :: "Event list"
  ch_closed :: bool

definition makeChan :: "nat \<Rightarrow> chan" where
  "makeChan n = \<lparr>ch_cap = n, ch_buf = [], ch_closed = False\<rparr>"

definition trySend :: "Event \<Rightarrow> chan \<Rightarrow> chan option" where
  \<comment> \<open>\<open>select { case ch <- ev: default: }\<close>; \<open>None\<close> is the panic of a send on a closed channel\<close>
  "trySend ev c = (if ch_closed c then None
     else if length (ch_buf c) < ch_cap c then Some (c\<lparr>ch_buf := ch_buf c @ [ev]\<rparr>)
     else Some c)"

definition closeChan :: "chan \<Rightarrow> chan option" where
  "closeChan c = (if ch_closed c then None else Some (c\<lparr>ch_closed := True\<rparr>))"

datatype recv = Received Event | Closed | WouldBlock

definition receive :: "chan \<Rightarrow> recv \<times> chan" where
  \<comment> \<open>\<open>ev, ok := <-ch\<close>\<close>
  "receive c = (case ch_buf c of
     ev # rest \<Rightarrow> (Received ev, c\<lparr>ch_buf := rest\<rparr>)
   | [] \<Rightarrow> (if ch_closed c then Closed else WouldBlock, c))"

section \<open>The bus\<close>

record Bus =
  chans :: "nat \<rightharpoonup> chan"
  subs :: "nat set"
  next_id :: nat

definition NewBus :: Bus where
  "NewBus = \<lparr>chans = Map.empty, subs = {}, next_id = 0\<rparr>"

definition Subscribe :: "int \<Rightarrow> Bus \<Rightarrow> nat \<times> Bus" where
  "Subscribe buffer b =
     (let n = (if buffer < 1 then 1 else buffer); i = next_id b in
      (i, b\<lparr>next_id := Suc i, chans := (chans b)(i \<mapsto> makeChan (nat n)), subs := insert i (subs b)\<rparr>))"

definition Cancel :: "nat \<Rightarrow> Bus \<Rightarrow> Bus option" where
  \<comment> \<open>the function \<open>Subscribe\<close> returns; \<open>None\<close> is a panic\<close>
  "Cancel i b = (if i \<notin> subs b then Some b
     else (case chans b i of
       None \<Rightarrow> None
     | Some c \<Rightarrow> (case closeChan c of
         None \<Rightarrow> None
       | Some c' \<Rightarrow> Some (b\<lparr>subs := subs b - {i}, chans := (chans b)(i \<mapsto> c')\<rparr>))))"

definition publishOne :: "Event \<Rightarrow> Bus \<Rightarrow> nat \<Rightarrow> chan option" where
  "publishOne ev b i = (case chans b i of None \<Rightarrow> None | Some c \<Rightarrow>
     if i \<in> subs b then trySend ev c else Some c)"

definition Publish :: "Event \<Rightarrow> Bus \<Rightarrow> Bus option" where
  \<comment> \<open>the range loop over the subscribers: their channels are distinct, so the order of
     the iteration does not matter; \<open>None\<close> is a panic\<close>
  "Publish ev b = (if \<exists>i\<in>subs b. publishOne ev b i = None then None
     else Some (b\<lparr>chans := publishOne ev b\<rparr>))"

definition Receive :: "nat \<Rightarrow> Bus \<Rightarrow> recv \<times> Bus" where
  "Receive i b = (case chans b i of
     None \<Rightarrow> (WouldBlock, b)
   | Some c \<Rightarrow> (case receive c of (r, c') \<Rightarrow> (r, b\<lparr>chans := (chans b)(i \<mapsto> c')\<rparr>)))"

definition bufOf :: "nat \<Rightarrow> Bus \<Rightarrow> Event list" where
  "bufOf i b = (case chans b i of None \<Rightarrow> [] | Some c \<Rightarrow> ch_buf c)"

definition capOf :: "nat \<Rightarrow> Bus \<Rightarrow> nat" where
  "capOf i b = (case chans b i of None \<Rightarrow> 0 | Some c \<Rightarrow> ch_cap c)"

section \<open>Invariant\<close>

definition wf_chan :: "chan \<Rightarrow> bool" where
  "wf_chan c \<longleftrightarrow> 1 \<le> ch_cap c \<and> length (ch_buf c) \<le> ch_cap c"

definition wf_bus :: "Bus \<Rightarrow> bool" where
  "wf_bus b \<longleftrightarrow> finite (subs b) \<and> (\<forall>i\<in>subs b. \<exists>c. chans b i = Some c \<and> \<not> ch_closed c) \<and>
     (\<forall>i c. chans b i = Some c \<longrightarrow> i < next_id b \<and> wf_chan c)"

lemma wf_NewBus: "wf_bus NewBus"
  by (simp add: wf_bus_def NewBus_def)

lemma wf_Subscribe: "wf_bus b \<Longrightarrow> wf_bus (snd (Subscribe n b))"
  by (fastforce simp: wf_bus_def wf_chan_def Subscribe_def Let_def makeChan_def split: if_splits)

lemma Cancel_defined:
  assumes "wf_bus b"
  obtains b' where "Cancel i b = Some b'" and "wf_bus b'"
proof (cases "i \<in> subs b")
  case True
  with assms obtain c where c: "chans b i = Some c" "\<not> ch_closed c" by (auto simp: wf_bus_def)
  with True assms that show ?thesis
    by (fastforce simp: Cancel_def closeChan_def wf_bus_def wf_chan_def split: if_splits)
next
  case False
  with assms that [of b] show ?thesis by (simp add: Cancel_def)
qed

lemma Publish_defined:
  assumes "wf_bus b"
  obtains b' where "Publish ev b = Some b'" and "wf_bus b'"
proof -
  have "publishOne ev b i \<noteq> None" if "i \<in> subs b" for i
    using assms that by (fastforce simp: wf_bus_def publishOne_def trySend_def)
  then have p: "Publish ev b = Some (b\<lparr>chans := publishOne ev b\<rparr>)"
    by (auto simp: Publish_def)
  have "wf_bus (b\<lparr>chans := publishOne ev b\<rparr>)"
    unfolding wf_bus_def
  proof (intro conjI ballI allI impI)
    show "finite (subs (b\<lparr>chans := publishOne ev b\<rparr>))" using assms by (simp add: wf_bus_def)
  next
    fix i
    assume "i \<in> subs (b\<lparr>chans := publishOne ev b\<rparr>)"
    then show "\<exists>c. chans (b\<lparr>chans := publishOne ev b\<rparr>) i = Some c \<and> \<not> ch_closed c"
      using assms by (fastforce simp: wf_bus_def publishOne_def trySend_def)
  next
    fix i c
    assume "chans (b\<lparr>chans := publishOne ev b\<rparr>) i = Some c"
    then show "i < next_id (b\<lparr>chans := publishOne ev b\<rparr>)" and "wf_chan c"
      using assms
      by (auto simp: wf_bus_def wf_chan_def publishOne_def trySend_def split: option.splits if_splits)
  qed
  with p that show ?thesis by blast
qed

lemma wf_Receive:
  assumes "wf_bus b"
  shows "wf_bus (snd (Receive i b))"
proof (cases "chans b i")
  case (Some c)
  obtain r c' where rc: "receive c = (r, c')" by (cases "receive c")
  have "wf_chan c" and "i < next_id b" using assms Some by (auto simp: wf_bus_def)
  with rc have "wf_chan c'" and "ch_closed c' = ch_closed c"
    by (auto simp: receive_def wf_chan_def split: list.splits)
  with assms Some rc \<open>i < next_id b\<close> show ?thesis
    by (auto simp: Receive_def wf_bus_def)
qed (use assms in \<open>simp add: Receive_def\<close>)

section \<open>Properties\<close>

inductive bus_step :: "Bus \<Rightarrow> Bus \<Rightarrow> bool" where
  bus_Subscribe: "bus_step b (snd (Subscribe n b))"
| bus_Cancel: "Cancel i b = Some b' \<Longrightarrow> bus_step b b'"
| bus_Publish: "Publish ev b = Some b' \<Longrightarrow> bus_step b b'"
| bus_Receive: "bus_step b (snd (Receive i b))"

lemma wf_bus_step: "bus_step b b' \<Longrightarrow> wf_bus b \<Longrightarrow> wf_bus b'"
proof (induction rule: bus_step.induct)
  case (bus_Cancel i b b')
  then show ?case using Cancel_defined [of b i] by fastforce
next
  case (bus_Publish ev b b')
  then show ?case using Publish_defined [of b ev] by fastforce
qed (auto intro: wf_Subscribe wf_Receive)

interpretation busq: invariant_system "\<lambda>b. b = NewBus" bus_step wf_bus
  by unfold_locales (auto intro: wf_NewBus wf_bus_step)

text \<open>
  (C26) The bus never panics. In every state the bus can reach, publishing and cancelling
  are defined (no send on a closed channel, no second close), cancelling twice is the same
  as cancelling once, and no buffer exceeds its capacity.
\<close>

theorem bus_never_panics:
  assumes "reach (\<lambda>b. b = NewBus) bus_step b"
  shows "(\<exists>b'. Publish ev b = Some b') \<and>
    (\<exists>b'. Cancel i b = Some b' \<and> Cancel i b' = Some b') \<and>
    length (bufOf i b) \<le> capOf i b"
proof -
  have wf: "wf_bus b" using assms by (rule busq.reach_inv)
  obtain b' where b': "Cancel i b = Some b'" using Cancel_defined [OF wf] by blast
  then have "i \<notin> subs b'"
    by (auto simp: Cancel_def split: if_splits option.splits)
  then have "Cancel i b' = Some b'" by (simp add: Cancel_def)
  moreover obtain b'' where "Publish ev b = Some b''" using Publish_defined [OF wf] by blast
  moreover have "length (bufOf i b) \<le> capOf i b"
    using wf by (auto simp: bufOf_def capOf_def wf_bus_def wf_chan_def split: option.splits)
  ultimately show ?thesis using b' by blast
qed

lemma Publish_Some:
  assumes "Publish ev b = Some b'"
  shows "b' = b\<lparr>chans := publishOne ev b\<rparr>"
  using assms by (auto simp: Publish_def split: if_splits)

lemma publish_effect:
  assumes "Publish ev b = Some b'"
  shows "subs b' = subs b \<and> capOf i b' = capOf i b \<and>
    bufOf i b' = (if i \<in> subs b \<and> length (bufOf i b) < capOf i b
                  then bufOf i b @ [ev] else bufOf i b)"
proof -
  have "\<not> (\<exists>i\<in>subs b. publishOne ev b i = None)"
    using assms by (auto simp: Publish_def split: if_splits)
  then have "i \<in> subs b \<Longrightarrow> \<exists>c. chans b i = Some c \<and> \<not> ch_closed c"
    by (force simp: publishOne_def trySend_def split: option.splits if_splits)
  then show ?thesis
    unfolding Publish_Some [OF assms]
    by (auto simp: bufOf_def capOf_def publishOne_def trySend_def split: option.splits)
qed

text \<open>
  Delivery. Publishing appends the event to every registered subscriber that has
  room and drops it for the ones that are full; cancelled subscribers, registrations and
  capacities are unchanged: a slow consumer never affects another one.
\<close>

theorem publish_delivers_or_drops:
  assumes "Publish ev b = Some b'"
  shows "subs b' = subs b \<and> capOf i b' = capOf i b \<and>
    bufOf i b' = (if i \<in> subs b \<and> length (bufOf i b) < capOf i b
                  then bufOf i b @ [ev] else bufOf i b)"
  using assms by (rule publish_effect)

theorem bus_never_panics_witness:
  "reach (\<lambda>b. b = NewBus) bus_step (snd (Subscribe 0 NewBus)) \<and>
   length (bufOf 0 (snd (Subscribe 0 NewBus))) \<le> capOf 0 (snd (Subscribe 0 NewBus))"
proof -
  have "reach (\<lambda>b. b = NewBus) bus_step (snd (Subscribe 0 NewBus))"
    by (rule reach_step [where s = NewBus]) (auto intro: reach_init bus_Subscribe)
  with bus_never_panics [OF this, of undefined 0] show ?thesis by blast
qed

theorem publish_delivers_or_drops_witness:
  "\<exists>ev b'. Publish ev (snd (Subscribe 0 NewBus)) = Some b' \<and> bufOf 0 b' = [ev]"
proof -
  let ?b = "snd (Subscribe 0 NewBus)"
  obtain ev :: Event where True by simp
  obtain b' where p: "Publish ev ?b = Some b'"
    using Publish_defined [OF wf_Subscribe [OF wf_NewBus]] by blast
  from publish_delivers_or_drops [OF p, of 0] have "bufOf 0 b' = [ev]"
    by (simp add: bufOf_def capOf_def Subscribe_def NewBus_def makeChan_def Let_def)
  with p show ?thesis by blast
qed

end
