(* ===== verification/Engine.thy ===== *)
theory Engine
  imports Ingest Bus
begin

text \<open>
  The engine of \<^verbatim>\<open>src/internal/engine/engine.go\<close>: normalise the event, run
  the outbox transaction, and only then publish on the bus and signal the dispatcher.

  The state of the running daemon, \<open>rt\<close>, extends the database connection by the bus and
  by the dispatcher's wake channel (a channel of capacity one: a flag). A panic of the
  bus would be the error of \<open>busPublish\<close>; it is shown not to happen. The field \<open>pubs\<close>
  is history: for each publication, the event and the database at that moment.
\<close>

record rt = "database conn" +
  bus :: Bus
  wake :: bool
  pubs :: "(Event \<times> database) list"

type_synonym 'z rts = "'z rt_scheme"

definition Wake :: "('z rts, unit) io" where
  \<comment> \<open>\<open>select { case d.wake <- struct{}{}: default: }\<close>\<close>
  "Wake = modify (\<lambda>w. w\<lparr>wake := True\<rparr>)"

definition busPublish :: "Event \<Rightarrow> ('z rts, unit) io" where
  "busPublish ev = (\<lambda>w. case Publish ev (bus w) of
     None \<Rightarrow> (Inl (GoError ''send on closed channel''), w)
   | Some b \<Rightarrow> (Inr (), w\<lparr>bus := b, pubs := pubs w @ [(ev, db w)]\<rparr>))"

definition normalise :: "Event \<Rightarrow> ('z os_scheme, Event) io" where
  "normalise ev =
     bindE (if ev_ID ev = [] then NewID ''evt'' else returnE (ev_ID ev)) (\<lambda>i.
     bindE (if ev_Timestamp ev = 0 then Now else returnE (ev_Timestamp ev)) (\<lambda>t.
     returnE (ev\<lparr>ev_ID := i, ev_Timestamp := t\<rparr>)))"

definition EngineIngest :: "'t template_engine \<Rightarrow> Event \<Rightarrow> ('z rts, IngestResult) io" where
  \<comment> \<open>with \<open>Notify\<close> set to the dispatcher's \<open>Wake\<close>, as the daemon does\<close>
  "EngineIngest te ev =
     bindE (normalise ev) (\<lambda>ev.
     bindE (Ingest te ev) (\<lambda>res.
     bindE (busPublish (ir_Event res)) (\<lambda>_.
     bindE (if ir_Continuations res \<noteq> [] then Wake else returnE ()) (\<lambda>_.
     returnE res))))"

section \<open>Facts\<close>

text \<open>The transaction does not touch the bus, the wake channel or the history.\<close>

definition rt_frame :: "Bus \<Rightarrow> bool \<Rightarrow> (Event \<times> database) list \<Rightarrow> 'z rts \<Rightarrow> bool" where
  "rt_frame b k p w \<longleftrightarrow> bus w = b \<and> wake w = k \<and> pubs w = p"

lemma rt_frame_upd [simp]:
  "rt_frame b k p (w\<lparr>db := d\<rparr>) = rt_frame b k p w" "rt_frame b k p (w\<lparr>nfault := n\<rparr>) = rt_frame b k p w"
  "rt_frame b k p (w\<lparr>nclock := n\<rparr>) = rt_frame b k p w" "rt_frame b k p (w\<lparr>nrand := n\<rparr>) = rt_frame b k p w"
  by (simp_all add: rt_frame_def)

lemma frame_io [intro!]:
  "preserves (rt_frame b k p) (Exec stmt)" "preserves (rt_frame b k p) (Update f)"
  "preserves (rt_frame b k p) (UpdateN n f)" "preserves (rt_frame b k p) (Query q)"
  "preserves (rt_frame b k p) Now" "preserves (rt_frame b k p) (NewID x)"
  unfolding Update_def UpdateN_def Query_def
  by (auto intro!: preserves_Exec preserves_Now preserves_NewID)

lemma frame_with_tx: "preserves (rt_frame b k p) body \<Longrightarrow> preserves (rt_frame b k p) (with_tx body)"
  by (rule preserves_with_tx) auto

lemmas frame_rules = preserves_bind preserves_try preserves_if preserves_pure frame_io frame_with_tx

lemma frame_Ingest: "preserves (rt_frame b k p) (Ingest te ev)"
  by (rule preserves_Ingest_frame) simp_all

lemma normalise_run:
  obtains ev' w1 where "normalise ev w = (Inr ev', w1)" and "db w1 = db w"
    and "ev_ID ev' \<noteq> []" and "ev_Type ev' = ev_Type ev" and "ev_Source ev' = ev_Source ev"
    and "ev_Payload ev' = ev_Payload ev" and "ev_ID ev \<noteq> [] \<longrightarrow> ev_ID ev' = ev_ID ev"
  by (cases "ev_ID ev = []"; cases "ev_Timestamp ev = 0")
    (auto simp: normalise_def NewID_run Now_def returnE_def bindE_def)

lemma preserves_busPublish:
  assumes "\<And>w ev b. I w \<Longrightarrow> Publish ev (bus w) = Some b \<Longrightarrow> I (w\<lparr>bus := b, pubs := pubs w @ [(ev, db w)]\<rparr>)"
  shows "preserves I (busPublish ev)"
  using assms by (auto simp: preserves_def busPublish_def split: option.split)

lemma preserves_EngineIngest:
  assumes "\<And>w n. I (w\<lparr>nclock := n\<rparr>) = I w" and "\<And>w n. I (w\<lparr>nrand := n\<rparr>) = I w"
    and "\<And>ev. preserves I (Ingest te ev)" and "\<And>w. I w \<Longrightarrow> I (w\<lparr>wake := True\<rparr>)"
    and "\<And>w ev b. I w \<Longrightarrow> Publish ev (bus w) = Some b \<Longrightarrow> I (w\<lparr>bus := b, pubs := pubs w @ [(ev, db w)]\<rparr>)"
  shows "preserves I (EngineIngest te ev)"
  unfolding EngineIngest_def normalise_def Wake_def
  by (intro preserves_rules preserves_busPublish assms)

lemma wf_EngineIngest [wf_rules]: "preserves wf_st (EngineIngest te ev)"
  by (rule preserves_EngineIngest) (auto intro: wf_Ingest)

lemma oracles_EngineIngest: "preserves (oracles K R F) (EngineIngest te ev)"
  by (rule preserves_EngineIngest) (auto intro: oracles_Ingest simp: oracles_def)

lemma busPublish_run:
  assumes "wf_bus (bus w)"
  obtains b where "Publish ev (bus w) = Some b" and "wf_bus b"
    and "busPublish ev w = (Inr (), w\<lparr>bus := b, pubs := pubs w @ [(ev, db w)]\<rparr>)"
  using Publish_defined [OF assms, of ev] by (auto simp: busPublish_def)

lemma Ingest_event: "Ingest te ev w = (Inr res, w') \<Longrightarrow> ir_Event res = ev"
  unfolding Ingest_def by (erule with_tx_success, erule ingestBody_Inr)

lemma healthy_oracles:
  "healthy w \<Longrightarrow> oracles (clock w) (rand w) (fault w) w' \<Longrightarrow> healthy w'"
  by (simp add: oracles_def healthy_def)

text \<open>What one call of the engine does, in the two outcomes of the transaction.\<close>

lemma EngineIngest_cases:
  assumes "wf_bus (bus w)"
  obtains (failed) e w' where "EngineIngest te ev w = (Inl e, w')"
      and "db w' = db w" and "bus w' = bus w" and "wake w' = wake w" and "pubs w' = pubs w"
  | (committed) ev' w1 res w2 b w' where "EngineIngest te ev w = (Inr res, w')"
      and "normalise ev w = (Inr ev', w1)" and "db w1 = db w"
      and "Ingest te ev' w1 = (Inr res, w2)" and "db w' = db w2" and "ev_ID ev' \<noteq> []"
      and "ev_Type ev' = ev_Type ev" and "ev_Source ev' = ev_Source ev"
      and "ev_Payload ev' = ev_Payload ev" and "ev_ID ev \<noteq> [] \<longrightarrow> ev_ID ev' = ev_ID ev"
      and "ir_Event res = ev'"
      and "Publish ev' (bus w) = Some b" and "wf_bus b" and "bus w' = b"
      and "wake w' = (wake w \<or> ir_Continuations res \<noteq> [])" and "pubs w' = pubs w @ [(ev', db w2)]"
proof -
  obtain ev' w1 where n: "normalise ev w = (Inr ev', w1)" "db w1 = db w" "ev_ID ev' \<noteq> []"
    "ev_Type ev' = ev_Type ev" "ev_Source ev' = ev_Source ev" "ev_Payload ev' = ev_Payload ev"
    "ev_ID ev \<noteq> [] \<longrightarrow> ev_ID ev' = ev_ID ev"
    by (rule normalise_run)
  have fr: "preserves (rt_frame (bus w) (wake w) (pubs w)) (normalise ev)"
    unfolding normalise_def by (intro frame_rules)
  have f1: "rt_frame (bus w) (wake w) (pubs w) w1"
    using n(1) by (intro preservesD [OF fr _ n(1)]) (simp add: rt_frame_def)
  obtain r w2 where i: "Ingest te ev' w1 = (r, w2)" by (cases "Ingest te ev' w1")
  have f2: "rt_frame (bus w) (wake w) (pubs w) w2"
    using frame_Ingest f1 i by (rule preservesD)
  show ?thesis
  proof (cases r)
    case (Inl e)
    with i n have "EngineIngest te ev w = (Inl e, w2)" by (simp add: EngineIngest_def)
    moreover have "db w2 = db w" using i Inl n(2) by (auto simp: Ingest_def dest: with_tx_error)
    ultimately show ?thesis using f2 failed by (simp add: rt_frame_def)
  next
    case (Inr res)
    with i have run: "Ingest te ev' w1 = (Inr res, w2)" by simp
    have re: "ir_Event res = ev'" using Ingest_event [OF run] .
    from assms f2 have "wf_bus (bus w2)" by (simp add: rt_frame_def)
    then obtain b where b: "Publish (ir_Event res) (bus w2) = Some b" "wf_bus b"
      "busPublish (ir_Event res) w2 = (Inr (), w2\<lparr>bus := b, pubs := pubs w2 @ [(ir_Event res, db w2)]\<rparr>)"
      by (rule busPublish_run)
    from run n b have "EngineIngest te ev w = (Inr res, (if ir_Continuations res \<noteq> []
        then w2\<lparr>bus := b, wake := True, pubs := pubs w2 @ [(ir_Event res, db w2)]\<rparr>
        else w2\<lparr>bus := b, pubs := pubs w2 @ [(ir_Event res, db w2)]\<rparr>))"
      by (simp add: EngineIngest_def Wake_def modify_def bindE_def)
    from committed [OF this n(1,2) run] n b re f2 show ?thesis by (auto simp: rt_frame_def)
  qed
qed

lemma EngineIngest_Inr:
  fixes w :: "'z rts"
  assumes "wf_bus (bus w)" and "EngineIngest te ev w = (Inr res, w')"
  shows "\<exists>ev' (w1 :: 'z rts) w2. db w1 = db w \<and> Ingest te ev' w1 = (Inr res, w2) \<and> db w' = db w2 \<and>
    ev_Type ev' = ev_Type ev \<and> ev_Source ev' = ev_Source ev \<and> ev_Payload ev' = ev_Payload ev"
  using assms(1)
proof (cases rule: EngineIngest_cases [of w te ev])
  case (failed e w'')
  with assms(2) show ?thesis by simp
next
  case (committed ev' w1 res' w2 b w'')
  with assms(2) show ?thesis by (intro exI [of _ ev'] exI [of _ w1] exI [of _ w2]) simp
qed

lemma EngineIngest_healthy:
  assumes "healthy w" and "wf_bus (bus w)"
  shows "\<exists>res w'. EngineIngest te ev w = (Inr res, w') \<and> healthy w' \<and> wf_bus (bus w')"
proof -
  have orc: "preserves (oracles (clock w) (rand w) (fault w)) (normalise ev)"
    unfolding normalise_def by (intro oracles_rules oracles_NewID)
  have self: "oracles (clock w) (rand w) (fault w) w" by (simp add: oracles_def)
  show ?thesis
    using assms(2)
  proof (cases rule: EngineIngest_cases [of w te ev])
    case (failed e w')
    obtain ev' w1 where n: "normalise ev w = (Inr ev', w1)" "ev_ID ev' \<noteq> []"
      by (rule normalise_run)
    have h1: "healthy w1" by (rule healthy_oracles [OF assms(1) preservesD [OF orc self n(1)]])
    obtain res w2 where run: "Ingest te ev' w1 = (Inr res, w2)"
      using Ingest_healthy [OF h1 n(2)] by blast
    have "preserves (\<lambda>w. wf_bus (bus w)) (normalise ev)"
      unfolding normalise_def by (intro preserves_rules) auto
    then have "wf_bus (bus w1)" using assms(2) n(1) by (rule preservesD)
    moreover have "rt_frame (bus w1) (wake w1) (pubs w1) w2"
      by (rule preservesD [OF frame_Ingest _ run]) (simp add: rt_frame_def)
    ultimately have "wf_bus (bus w2)" by (simp add: rt_frame_def)
    then obtain b where "busPublish (ir_Event res) w2 = (Inr (), w2\<lparr>bus := b, pubs := pubs w2 @ [(ir_Event res, db w2)]\<rparr>)"
      by (rule busPublish_run)
    with run n(1) have "fst (EngineIngest te ev w) = Inr res"
      by (simp add: EngineIngest_def Wake_def modify_def bindE_def)
    with failed show ?thesis by simp
  next
    case (committed ev' w1 res w2 b w')
    have "healthy w'"
      by (rule healthy_oracles [OF assms(1) preservesD [OF oracles_EngineIngest self committed(1)]])
    with committed show ?thesis by auto
  qed
qed

text \<open>
  What a new event does to one rule: with a working database and fresh identifiers, a rule that matches, is not
  consumed and does not expire gets its continuation.
\<close>

definition firedBy :: "'t template_engine \<Rightarrow> Event \<Rightarrow> Rule \<Rightarrow> Continuation \<Rightarrow> bool" where
  "firedBy te ev r k \<longleftrightarrow> c_RuleID k = r_ID r \<and> c_SessionID k = r_SessionID r \<and> c_Label k = r_Label r \<and> c_EventID k = ev_ID ev \<and>
     (case RenderPrompt te r ev of
        Inl e \<Rightarrow> c_State k = ContinuationFailed
      | Inr prompt \<Rightarrow> c_State k = ContinuationPending \<and> c_Prompt k = prompt)"

lemma firedBy_new:
  assumes "newContinuation te ev now [] r = k\<lparr>c_ID := []\<rparr>"
  shows "firedBy te ev r k"
  using arg_cong [OF assms, of c_RuleID] arg_cong [OF assms, of c_SessionID] arg_cong [OF assms, of c_Label]
    arg_cong [OF assms, of c_EventID] arg_cong [OF assms, of c_State] arg_cong [OF assms, of c_Prompt]
  by (auto simp: firedBy_def newContinuation_def Let_def split: sum.splits)

lemma EngineIngest_fires:
  fixes w :: "'z rts"
  assumes run: "EngineIngest te ev0 w = (res, w')" and ev0: "ev_ID ev0 = []" "ev_Timestamp ev0 = 0"
    and ok: "healthy w" "wf_st w" "wf_bus (bus w)"
    and r: "r \<in> set (rules (db w))" "Matches (r_Selector r) ev0" "\<not> r_Consumed r" "r_ExpiresAt r = None"
    and fresh: "idAt ''evt'' (rand w) (nrand w) \<notin> c_EventID ` set (continuations (db w))"
      "freshIDs (length (rules (db w))) (w\<lparr>nrand := nrand w + 6\<rparr>)"
  shows "\<exists>ev k. k \<in> set (continuations (db w')) \<and> k \<notin> set (continuations (db w)) \<and>
    ev_Type ev = ev_Type ev0 \<and> ev_Source ev = ev_Source ev0 \<and> ev_Payload ev = ev_Payload ev0 \<and> firedBy te ev r k \<and> wake w'"
  using ok(3)
proof (cases rule: EngineIngest_cases [of w te ev0])
  case (failed e w2)
  with EngineIngest_healthy [OF ok(1,3), of te ev0] show ?thesis by simp
next
  case (committed ev w1 out w2 b w3)
  have n: "ev_ID ev = idAt ''evt'' (rand w) (nrand w)" "rules (db w1) = rules (db w)" "continuations (db w1) = continuations (db w)"
      "rand w1 = rand w" "nrand w1 = nrand w + 6"
    using committed(2) ev0 by (auto simp: normalise_def NewID_run Now_def bindE_def)
  have wf: "wf_st w1" and f: "freshIDs (length (rules (db w1))) w1"
    using ok(2) committed(3) fresh(2) n by (simp_all add: freshIDs_def)
  let ?now = "clock w1 (nclock w1)"
  have "fires ev ?now (db w1) r"
    using r committed(7,8) fresh(1) n by (force simp: fires_def Matches_def Active_def delivered_def list_ex_iff)
  with Ingest_fresh [OF committed(4) wf f] r(1) n(2)
  have "newContinuation te ev ?now [] r \<in> set (map (\<lambda>c. c\<lparr>c_ID := []\<rparr>) (ir_Continuations out))" by simp
  then obtain k where k: "k \<in> set (ir_Continuations out)" "newContinuation te ev ?now [] r = k\<lparr>c_ID := []\<rparr>"
    by auto
  have fb: "firedBy te ev r k" using k(2) by (rule firedBy_new)
  have "continuations (db w3) = continuations (db w) @ ir_Continuations out" "w' = w3" "wake w3"
    using Ingest_Inr [OF committed(4) wf] committed(1,5,15) n(3) run k(1) by auto
  moreover have "k \<notin> set (continuations (db w))" using fb fresh(1) n(1) by (metis firedBy_def image_eqI)
  ultimately show ?thesis using fb committed(7-9) k(1) by auto
qed

section \<open>Properties\<close>

text \<open>
  (C13) Durable first, notify second. Whatever fails, one call of the engine publishes at
  most once; if it returns an error then nothing was published and the database and the
  wake signal are unchanged; if it succeeds then the event that was published is the one
  stored, the database at the moment of the publication already held the event and all
  the continuations it created, and the dispatcher is signalled exactly when there are any.
\<close>

theorem engine_durable_first:
  assumes "wf_bus (bus w)" and "wf_st w" and "EngineIngest te ev w = (r, w')"
  shows "case r of
      Inl e \<Rightarrow> db w' = db w \<and> pubs w' = pubs w \<and> bus w' = bus w \<and> wake w' = wake w
    | Inr res \<Rightarrow> pubs w' = pubs w @ [(ir_Event res, db w')] \<and>
        list_ex (\<lambda>x. ev_ID x = ev_ID (ir_Event res)) (events (db w')) \<and>
        continuations (db w') = continuations (db w) @ ir_Continuations res \<and>
        wake w' = (wake w \<or> ir_Continuations res \<noteq> [])"
  using assms(1)
proof (cases rule: EngineIngest_cases [of w te ev])
  case (failed e w'')
  with assms(3) show ?thesis by auto
next
  case (committed ev' w1 res w2 b w'')
  have "wf_st w1" using assms(2) committed(3) by simp
  from Ingest_Inr [OF committed(4) this] committed assms(3) show ?thesis
    by (auto simp: insert_or_ignore_def list_ex_iff conf_event_def)
qed

definition exRT :: rt where
  \<comment> \<open>the store of the earlier example, with one subscriber\<close>
  "exRT = \<lparr>clock = (\<lambda>n. 10 + int n), nclock = 0, rand = of_nat, nrand = 0, db = exDB,
     fault = (\<lambda>_. None), nfault = 0, bus = snd (Subscribe 4 NewBus), wake = False, pubs = []\<rparr>"

lemma exRT_facts: "wf_bus (bus exRT)" "wf_st exRT" "healthy exRT"
  using wf_Subscribe [OF wf_NewBus, of 4] exDB_wf by (simp_all add: exRT_def healthy_def)

theorem engine_durable_first_witness:
  "\<exists>res w'. EngineIngest exEngine exEvent exRT = (Inr res, w') \<and>
     pubs w' = [(ir_Event res, db w')] \<and>
     list_ex (\<lambda>x. ev_ID x = ev_ID (ir_Event res)) (events (db w'))"
proof -
  obtain res w' where run: "EngineIngest exEngine exEvent exRT = (Inr res, w')"
    using EngineIngest_healthy [OF exRT_facts(3,1)] by blast
  have "pubs exRT = []" by (simp add: exRT_def)
  with engine_durable_first [OF exRT_facts(1,2) run] run show ?thesis by auto
qed

end
