(* ===== verification/GoStrings.thy ===== *)
theory GoStrings
  imports Prelude "HOL-Library.Sublist"
begin

text \<open>
  The functions of Go's \<open>strings\<close>, \<open>strconv\<close> and \<open>unicode/utf8\<close> that the sources
  call, on byte strings, with the facts about them the components use.
\<close>

section \<open>Searching and cutting\<close>

definition HasPrefix :: "string \<Rightarrow> string \<Rightarrow> bool" where
  "HasPrefix s p \<longleftrightarrow> take (length p) s = p"

definition TrimPrefix :: "string \<Rightarrow> string \<Rightarrow> string" where
  "TrimPrefix s p = (if HasPrefix s p then drop (length p) s else s)"

fun Index :: "string \<Rightarrow> string \<Rightarrow> nat option" where
  \<comment> \<open>\<open>strings.Index\<close>; \<open>None\<close> for \<open>-1\<close>\<close>
  "Index [] p = (if p = [] then Some 0 else None)"
| "Index (c # cs) p = (if HasPrefix (c # cs) p then Some 0 else map_option Suc (Index cs p))"

definition Contains :: "string \<Rightarrow> string \<Rightarrow> bool" where
  "Contains s p \<longleftrightarrow> Index s p \<noteq> None"

fun Join :: "string list \<Rightarrow> string \<Rightarrow> string" where
  "Join [] sep = []"
| "Join [x] sep = x"
| "Join (x # y # xs) sep = x @ sep @ Join (y # xs) sep"

fun splitOn :: "char \<Rightarrow> string \<Rightarrow> string list" where
  \<comment> \<open>\<open>strings.Split\<close> with a one-byte separator\<close>
  "splitOn c [] = [[]]"
| "splitOn c (x # xs) = (if x = c then [] # splitOn c xs
     else (case splitOn c xs of [] \<Rightarrow> [[x]] | y # ys \<Rightarrow> (x # y) # ys))"

definition Cut :: "string \<Rightarrow> string \<Rightarrow> (string \<times> string) option" where
  \<comment> \<open>\<open>strings.Cut\<close>; \<open>None\<close> when the separator is not found\<close>
  "Cut s sep = (case Index s sep of None \<Rightarrow> None
     | Some i \<Rightarrow> Some (take i s, drop (i + length sep) s))"

section \<open>White space\<close>

definition spaceRunes :: "string list" where
  \<comment> \<open>the UTF-8 encodings of the runes with \<open>unicode.IsSpace\<close>\<close>
  "spaceRunes = [[CHR 0x09], [CHR 0x0A], [CHR 0x0B], [CHR 0x0C], [CHR 0x0D], [CHR 0x20],
     [CHR 0xC2, CHR 0x85], [CHR 0xC2, CHR 0xA0], [CHR 0xE1, CHR 0x9A, CHR 0x80],
     [CHR 0xE2, CHR 0x80, CHR 0x80], [CHR 0xE2, CHR 0x80, CHR 0x81], [CHR 0xE2, CHR 0x80, CHR 0x82],
     [CHR 0xE2, CHR 0x80, CHR 0x83], [CHR 0xE2, CHR 0x80, CHR 0x84], [CHR 0xE2, CHR 0x80, CHR 0x85],
     [CHR 0xE2, CHR 0x80, CHR 0x86], [CHR 0xE2, CHR 0x80, CHR 0x87], [CHR 0xE2, CHR 0x80, CHR 0x88],
     [CHR 0xE2, CHR 0x80, CHR 0x89], [CHR 0xE2, CHR 0x80, CHR 0x8A], [CHR 0xE2, CHR 0x80, CHR 0xA8],
     [CHR 0xE2, CHR 0x80, CHR 0xA9], [CHR 0xE2, CHR 0x80, CHR 0xAF], [CHR 0xE2, CHR 0x81, CHR 0x9F],
     [CHR 0xE3, CHR 0x80, CHR 0x80]]"

function stripRunes :: "string list \<Rightarrow> string \<Rightarrow> string" where
  \<comment> \<open>drop leading members of a set of non-empty encodings\<close>
  "stripRunes rs s = (case find (\<lambda>r. r \<noteq> [] \<and> HasPrefix s r) rs of
     None \<Rightarrow> s | Some r \<Rightarrow> stripRunes rs (drop (length r) s))"
  by pat_completeness auto
termination
proof (relation "measure (\<lambda>(rs, s). length s)")
  fix rs :: "string list" and s r :: string
  assume "find (\<lambda>r. r \<noteq> [] \<and> HasPrefix s r) rs = Some r"
  then have "r \<noteq> []" and "take (length r) s = r"
    by (auto simp: find_Some_iff HasPrefix_def)
  then have "0 < length r" and "length r \<le> length s"
    by (simp, metis length_take min.cobounded1)
  then have "length s - length r < length s" by linarith
  then show "((rs, drop (length r) s), (rs, s)) \<in> measure (\<lambda>(rs, s). length s)" by simp
qed simp

declare stripRunes.simps [simp del]

definition TrimSpace :: "string \<Rightarrow> string" where
  "TrimSpace s = rev (stripRunes (map rev spaceRunes) (rev (stripRunes spaceRunes s)))"

fun fieldsAux :: "string \<Rightarrow> string \<Rightarrow> string list" where
  \<comment> \<open>\<open>strings.Fields\<close> of a text whose only white space is ASCII, with the field being read\<close>
  "fieldsAux cur [] = (if cur = [] then [] else [cur])"
| "fieldsAux cur (c # cs) = (if [c] \<in> set spaceRunes
     then (if cur = [] then fieldsAux [] cs else cur # fieldsAux [] cs)
     else fieldsAux (cur @ [c]) cs)"

definition Fields :: "string \<Rightarrow> string list" where
  "Fields s = fieldsAux [] s"

section \<open>Decimal numbers\<close>

fun natStr :: "nat \<Rightarrow> string" where
  "natStr n = (if n < 10 then [''0123456789'' ! n]
     else natStr (n div 10) @ [''0123456789'' ! (n mod 10)])"

declare natStr.simps [simp del]

definition Itoa :: "int \<Rightarrow> string" where
  \<comment> \<open>\<open>strconv.Itoa\<close> and \<open>strconv.FormatInt(_, 10)\<close>\<close>
  "Itoa i = (if i < 0 then ''-'' @ natStr (nat (- i)) else natStr (nat i))"

definition digitVal :: "char \<Rightarrow> int option" where
  "digitVal c = (if 48 \<le> (of_char c :: int) \<and> (of_char c :: int) \<le> 57 then Some (of_char c - 48) else None)"

fun parseDigits :: "int \<Rightarrow> string \<Rightarrow> int option" where
  "parseDigits acc [] = Some acc"
| "parseDigits acc (c # cs) = (case digitVal c of None \<Rightarrow> None | Some d \<Rightarrow> parseDigits (10 * acc + d) cs)"

definition Atoi :: "string \<Rightarrow> int option" where
  \<comment> \<open>\<open>strconv.Atoi\<close> with 64-bit \<open>int\<close>; \<open>None\<close> for an error (syntax or range)\<close>
  "Atoi s = (let (neg, ds) = (case s of [] \<Rightarrow> (False, [])
       | c # cs \<Rightarrow> if c = CHR ''-'' then (True, cs) else if c = CHR ''+'' then (False, cs) else (False, s)) in
     if ds = [] then None
     else (case parseDigits 0 ds of None \<Rightarrow> None
       | Some n \<Rightarrow> if neg then (if n \<le> 9223372036854775808 then Some (- n) else None)
           else (if n \<le> 9223372036854775807 then Some n else None)))"

definition lowerChar :: "char \<Rightarrow> char" where
  "lowerChar c = (if 65 \<le> (of_char c :: nat) \<and> (of_char c :: nat) \<le> 90 then char_of ((of_char c :: nat) + 32) else c)"

definition ToLower :: "string \<Rightarrow> string" where
  \<comment> \<open>\<open>strings.ToLower\<close> of a text whose upper-case letters are ASCII\<close>
  "ToLower s = map lowerChar s"

section \<open>Facts\<close>

lemma HasPrefix_iff: "HasPrefix s p \<longleftrightarrow> (\<exists>t. s = p @ t)"
  by (metis HasPrefix_def append_eq_conv_conj append_take_drop_id)

lemma HasPrefix_append [simp]: "HasPrefix (p @ t) p"
  by (simp add: HasPrefix_def)

lemma HasPrefix_Nil [simp]: "HasPrefix s []"
  by (simp add: HasPrefix_def)

lemma Index_Some:
  "Index s p = Some i \<Longrightarrow> i + length p \<le> length s \<and> take i s @ p @ drop (i + length p) s = s"
proof (induction s arbitrary: i)
  case Nil
  then show ?case by (auto split: if_splits)
next
  case (Cons c cs)
  show ?case
  proof (cases "HasPrefix (c # cs) p")
    case True
    then obtain t where "c # cs = p @ t" by (auto simp: HasPrefix_iff)
    with True Cons.prems show ?thesis
      by (metis Index.simps(2) add_0 append_Nil append_eq_conv_conj drop0 le_add1 length_append
          option.inject take0)
  next
    case False
    with Cons.prems obtain j where "i = Suc j" and "Index cs p = Some j" by auto
    with Cons.IH [of j] show ?thesis by auto
  qed
qed

lemma Index_append: "Index (u @ p @ v) p \<noteq> None"
proof (induction u)
  case Nil
  have "HasPrefix (p @ v) p" by simp
  then show ?case by (cases "p @ v") auto
qed auto

lemma Contains_iff: "Contains s p \<longleftrightarrow> (\<exists>u v. s = u @ p @ v)"
proof
  assume "Contains s p"
  then obtain i where "Index s p = Some i" by (auto simp: Contains_def)
  with Index_Some show "\<exists>u v. s = u @ p @ v" by metis
next
  assume "\<exists>u v. s = u @ p @ v"
  then show "Contains s p" using Index_append by (auto simp: Contains_def)
qed

lemma stripRunes_suffix: "suffix (stripRunes rs s) s"
proof (induction rs s rule: stripRunes.induct)
  case (1 rs s)
  show ?case
  proof (cases "find (\<lambda>r. r \<noteq> [] \<and> HasPrefix s r) rs")
    case None
    then show ?thesis by (simp add: stripRunes.simps [of rs s])
  next
    case (Some r)
    from 1 [OF Some] have "suffix (stripRunes rs (drop (length r) s)) s"
      by (meson suffix_drop suffix_order.trans)
    with Some show ?thesis by (simp add: stripRunes.simps [of rs s])
  qed
qed

lemma length_TrimSpace: "length (TrimSpace s) \<le> length s"
proof -
  have "length (stripRunes (map rev spaceRunes) (rev (stripRunes spaceRunes s)))
      \<le> length (rev (stripRunes spaceRunes s))"
    by (rule suffix_length_le [OF stripRunes_suffix])
  also have "\<dots> \<le> length s"
    using suffix_length_le [OF stripRunes_suffix [of spaceRunes s]] by simp
  finally show ?thesis by (simp add: TrimSpace_def)
qed

lemma TrimSpace_Nil [simp]: "TrimSpace [] = []"
  using length_TrimSpace [of "[]"] by simp

lemma TrimSpace_infix: "\<exists>u v. s = u @ TrimSpace s @ v"
proof -
  obtain u where u: "s = u @ stripRunes spaceRunes s"
    using stripRunes_suffix [of spaceRunes s] by (auto simp: suffix_def)
  obtain v where "rev (stripRunes spaceRunes s) = v @ rev (TrimSpace s)"
    using stripRunes_suffix [of "map rev spaceRunes" "rev (stripRunes spaceRunes s)"]
    by (auto simp: suffix_def TrimSpace_def)
  then have "stripRunes spaceRunes s = TrimSpace s @ rev v" by (metis rev_append rev_rev_ident)
  with u show ?thesis by metis
qed

lemma stripRunes_id:
  assumes "s = [] \<or> hd s \<notin> hd ` set rs"
  shows "stripRunes rs s = s"
proof -
  have "\<not> (r \<noteq> [] \<and> HasPrefix s r)" if "r \<in> set rs" for r
    using assms that by (cases r) (auto simp: HasPrefix_iff image_iff)
  then have "find (\<lambda>r. r \<noteq> [] \<and> HasPrefix s r) rs = None" by (auto simp: find_None_iff)
  then show ?thesis by (simp add: stripRunes.simps [of rs s])
qed

lemma stripRunes_newline: "stripRunes (map rev spaceRunes) (CHR 0x0A # t) = stripRunes (map rev spaceRunes) t"
proof -
  have "find (\<lambda>r. r \<noteq> [] \<and> HasPrefix (CHR 0x0A # t) r) (map rev spaceRunes) = Some [CHR 0x0A]"
    by (simp add: spaceRunes_def HasPrefix_def)
  then show ?thesis by (simp add: stripRunes.simps [of "map rev spaceRunes" "CHR 0x0A # t"])
qed

text \<open>A word of plain characters survives trimming, with or without a final newline.\<close>

definition plainChar :: "char \<Rightarrow> bool" where
  "plainChar c \<longleftrightarrow> c \<notin> set (map hd spaceRunes) \<and> c \<notin> set (map last spaceRunes)"

lemma TrimSpace_plain:
  assumes "s \<noteq> []" and "plainChar (hd s)" and "plainChar (last s)"
  shows "TrimSpace s = s" and "TrimSpace (s @ [CHR 0x0A]) = s"
proof -
  have h: "hd s \<notin> hd ` set spaceRunes" "hd (rev s) \<notin> hd ` set (map rev spaceRunes)"
    using assms by (auto simp: plainChar_def hd_rev image_iff)
  then have "stripRunes spaceRunes s = s" "stripRunes spaceRunes (s @ [CHR 0x0A]) = s @ [CHR 0x0A]"
      "stripRunes (map rev spaceRunes) (rev s) = rev s"
    using assms(1) by (auto intro!: stripRunes_id)
  then show "TrimSpace s = s" and "TrimSpace (s @ [CHR 0x0A]) = s"
    by (simp_all add: TrimSpace_def stripRunes_newline)
qed

section \<open>Numbers are read back\<close>

lemma digitVal_digit: "k < 10 \<Longrightarrow> digitVal (''0123456789'' ! k) = Some (int k)"
proof -
  assume "k < 10"
  then have "k \<in> {0,1,2,3,4,5,6,7,8,9}" by auto
  then show ?thesis by (auto simp: digitVal_def)
qed

lemma parseDigits_append:
  "parseDigits acc (xs @ ys) = (case parseDigits acc xs of None \<Rightarrow> None | Some a \<Rightarrow> parseDigits a ys)"
  by (induction xs arbitrary: acc) (auto split: option.split)

lemma parse_natStr: "parseDigits 0 (natStr n) = Some (int n)"
proof (induction n rule: natStr.induct)
  case (1 n)
  show ?case
  proof (cases "n < 10")
    case True
    then show ?thesis by (subst natStr.simps) (simp add: digitVal_digit)
  next
    case False
    with 1 have "parseDigits 0 (natStr (n div 10)) = Some (int (n div 10))" by simp
    with False show ?thesis by (subst natStr.simps) (simp add: parseDigits_append digitVal_digit zdiv_int zmod_int)
  qed
qed

lemma natStr_head: "\<exists>c cs. natStr n = c # cs \<and> c \<noteq> CHR ''-'' \<and> c \<noteq> CHR ''+''"
proof (induction n rule: natStr.induct)
  case (1 n)
  show ?case
  proof (cases "n < 10")
    case True
    then have "n \<in> {0,1,2,3,4,5,6,7,8,9}" by auto
    then show ?thesis by (subst natStr.simps) auto
  next
    case False
    with 1 show ?thesis by (subst natStr.simps) auto
  qed
qed

lemma Atoi_Itoa:
  assumes "- 9223372036854775808 \<le> i" and "i \<le> 9223372036854775807"
  shows "Atoi (Itoa i) = Some i"
proof (cases "i < 0")
  case True
  obtain c cs where "natStr (nat (- i)) = c # cs" using natStr_head by blast
  with True assms parse_natStr [of "nat (- i)"] show ?thesis by (simp add: Atoi_def Itoa_def)
next
  case False
  obtain c cs where "natStr (nat i) = c # cs" "c \<noteq> CHR ''-''" "c \<noteq> CHR ''+''" using natStr_head by blast
  with False assms parse_natStr [of "nat i"] show ?thesis by (simp add: Atoi_def Itoa_def)
qed

end
