(* ===== verification/Adapter.thy ===== *)
theory Adapter
  imports Core GoStrings
begin

text \<open>
  The agent adapters of \<^verbatim>\<open>src/internal/adapter\<close>: the supervised CLI runner they
  share, the command line each of them builds, the daemon's registry, and the
  controllable fake.

  What the operating system answers is a parameter, the record \<open>penv\<close>: environment
  variables, \<open>exec.LookPath\<close>, the outcome of running a command (\<open>cmd.Run\<close> with the
  captured streams, the elapsed time, and whether the context was done by then), and the
  decoding of the agent's JSON output.
\<close>

section \<open>Results and processes\<close>

record Result =
  res_Command :: string
  res_ExitCode :: int
  res_OutputSummary :: string
  res_DurationMs :: int

datatype run_error = ExitError int | OtherError error

record proc_outcome =
  po_err :: "run_error option"
  po_stdout :: string
  po_stderr :: string
  po_durationMs :: int
  po_ctxErr :: bool

record penv =
  getenv :: "string \<Rightarrow> string"
  lookPath :: "string \<Rightarrow> error option"
  spawn :: "string \<Rightarrow> string list \<Rightarrow> string \<Rightarrow> proc_outcome"
  jsonResult :: "string \<Rightarrow> string option"
    \<comment> \<open>the field \<open>result\<close> of a well-formed JSON object, \<open>None\<close> when decoding fails\<close>

type_synonym resume_fun = "Session \<Rightarrow> string \<Rightarrow> Result \<times> error option"

record Adapter =
  ad_Name :: string
  ad_Resume :: resume_fun
  ad_Validate :: "error option"

type_synonym Registry = "(string \<times> Adapter) list"

section \<open>The shared runner\<close>

definition summaryLimit :: nat where
  "summaryLimit = 500"

definition RuneStart :: "char \<Rightarrow> bool" where
  \<comment> \<open>\<open>utf8.RuneStart\<close>: \<open>b & 0xC0 != 0x80\<close>\<close>
  "RuneStart c \<longleftrightarrow> and (of_char c :: byte) 0xC0 \<noteq> 0x80"

fun cutBack :: "string \<Rightarrow> nat \<Rightarrow> nat" where
  "cutBack s 0 = 0"
| "cutBack s (Suc n) = (if \<not> RuneStart (s ! Suc n) then cutBack s n else Suc n)"

definition truncateS :: "string \<Rightarrow> string" where
  "truncateS s = (if length s \<le> summaryLimit then s else take (cutBack s summaryLimit) s)"

definition ParseResultJSON :: "penv \<Rightarrow> string \<Rightarrow> string \<times> bool" where
  "ParseResultJSON env out = (case jsonResult env out of
     Some r \<Rightarrow> if r \<noteq> [] then (truncateS r, True) else (truncateS (TrimSpace out), False)
   | None \<Rightarrow> (truncateS (TrimSpace out), False))"

definition runCLI ::
  "penv \<Rightarrow> string \<Rightarrow> string list \<Rightarrow> string \<Rightarrow> (string \<Rightarrow> string) \<Rightarrow> Result \<times> error option" where
  "runCLI env bin args dir parse =
     (let o1 = spawn env bin args dir;
          res = \<lparr>res_Command = bin @ '' '' @ Join args '' '', res_ExitCode = 0,
                 res_OutputSummary = [], res_DurationMs = po_durationMs o1\<rparr>;
          errTail = truncateS (TrimSpace (po_stderr o1)) in
      case po_err o1 of
        Some err \<Rightarrow>
          if po_ctxErr o1 then
            (res\<lparr>res_ExitCode := -1,
               res_OutputSummary := ''resume timed out or cancelled'' @
                 (if errTail \<noteq> [] then '': '' @ errTail else [])\<rparr>, None)
          else (case err of
            ExitError code \<Rightarrow> (res\<lparr>res_ExitCode := code,
               res_OutputSummary := (if errTail \<noteq> [] then errTail else parse (po_stdout o1))\<rparr>, None)
          | OtherError e \<Rightarrow> (res, Some e))
      | None \<Rightarrow>
          (let summary = parse (po_stdout o1) in
           (res\<lparr>res_OutputSummary := (if summary = [] \<and> errTail \<noteq> []
              then ''(stderr) '' @ errTail else summary)\<rparr>, None)))"

section \<open>The four agents\<close>

definition envOr :: "penv \<Rightarrow> string \<Rightarrow> string \<Rightarrow> string" where
  "envOr env var dflt = (if getenv env var \<noteq> [] then getenv env var else dflt)"

definition claudeBin :: "penv \<Rightarrow> string" where
  "claudeBin env = envOr env ''RUNTIMEPULSE_CLAUDE_BIN'' ''claude''"

definition BuildClaudeArgs :: "string \<Rightarrow> string \<Rightarrow> string list" where
  "BuildClaudeArgs sessionID prompt =
     [''--resume'', sessionID, ''--output-format'', ''json'', ''-p'', ''--'', prompt]"

definition ClaudeResume :: "penv \<Rightarrow> resume_fun" where
  "ClaudeResume env sess prompt = runCLI env (claudeBin env)
     (BuildClaudeArgs (s_SessionID sess) prompt) (s_RepoPath sess)
     (\<lambda>out. fst (ParseResultJSON env out))"

definition cursorBin :: "penv \<Rightarrow> string" where
  "cursorBin env = (if getenv env ''RUNTIMEPULSE_CURSOR_BIN'' \<noteq> []
     then getenv env ''RUNTIMEPULSE_CURSOR_BIN''
     else if lookPath env ''agent'' = None then ''agent'' else ''cursor-agent'')"

definition BuildCursorArgs :: "string \<Rightarrow> string \<Rightarrow> string list" where
  "BuildCursorArgs sessionID prompt =
     [''-p'', ''--resume'', sessionID, ''--output-format'', ''json'', ''--'', prompt]"

definition CursorResume :: "penv \<Rightarrow> resume_fun" where
  "CursorResume env sess prompt = runCLI env (cursorBin env)
     (BuildCursorArgs (s_SessionID sess) prompt) (s_RepoPath sess)
     (\<lambda>out. fst (ParseResultJSON env out))"

definition codexBin :: "penv \<Rightarrow> string" where
  "codexBin env = envOr env ''RUNTIMEPULSE_CODEX_BIN'' ''codex''"

definition BuildCodexArgs :: "string \<Rightarrow> string \<Rightarrow> string list" where
  "BuildCodexArgs sessionID prompt =
     [''exec'', ''resume'', sessionID, ''--skip-git-repo-check'', ''--'', prompt]"

definition CodexResume :: "penv \<Rightarrow> resume_fun" where
  "CodexResume env sess prompt = runCLI env (codexBin env)
     (BuildCodexArgs (s_SessionID sess) prompt) (s_RepoPath sess)
     (\<lambda>out. truncateS (TrimSpace out))"

definition openCodeBin :: "penv \<Rightarrow> string" where
  "openCodeBin env = envOr env ''RUNTIMEPULSE_OPENCODE_BIN'' ''opencode''"

definition BuildOpenCodeArgs :: "string \<Rightarrow> string \<Rightarrow> string list" where
  "BuildOpenCodeArgs sessionID prompt = [''run'', ''--session'', sessionID, ''--'', prompt]"

definition OpenCodeResume :: "penv \<Rightarrow> resume_fun" where
  "OpenCodeResume env sess prompt = runCLI env (openCodeBin env)
     (BuildOpenCodeArgs (s_SessionID sess) prompt) (s_RepoPath sess)
     (\<lambda>out. truncateS (TrimSpace out))"

definition Claude :: "penv \<Rightarrow> Adapter" where
  "Claude env = \<lparr>ad_Name = ''claude'', ad_Resume = ClaudeResume env,
     ad_Validate = lookPath env (claudeBin env)\<rparr>"

definition Cursor :: "penv \<Rightarrow> Adapter" where
  "Cursor env = \<lparr>ad_Name = ''cursor'', ad_Resume = CursorResume env,
     ad_Validate = lookPath env (cursorBin env)\<rparr>"

definition Codex :: "penv \<Rightarrow> Adapter" where
  "Codex env = \<lparr>ad_Name = ''codex'', ad_Resume = CodexResume env,
     ad_Validate = lookPath env (codexBin env)\<rparr>"

definition OpenCode :: "penv \<Rightarrow> Adapter" where
  "OpenCode env = \<lparr>ad_Name = ''opencode'', ad_Resume = OpenCodeResume env,
     ad_Validate = lookPath env (openCodeBin env)\<rparr>"

definition daemonRegistry :: "penv \<Rightarrow> Registry" where
  \<comment> \<open>the registry literal of \<open>daemon.New\<close>\<close>
  "daemonRegistry env = [(''claude'', Claude env), (''cursor'', Cursor env),
     (''codex'', Codex env), (''opencode'', OpenCode env)]"

section \<open>The fake\<close>

record FakeCall =
  fc_SessionID :: string
  fc_RepoPath :: string
  fc_Prompt :: string

record Fake =
  f_calls :: "FakeCall list"
  f_exitCode :: int
  f_err :: "error option"
  f_delay :: duration

definition NewFake :: Fake where
  "NewFake = \<lparr>f_calls = [], f_exitCode = 0, f_err = None, f_delay = 0\<rparr>"

definition SetOutcome :: "int \<Rightarrow> error option \<Rightarrow> Fake \<Rightarrow> Fake" where
  "SetOutcome ec e f = f\<lparr>f_exitCode := ec, f_err := e\<rparr>"

definition SetDelay :: "duration \<Rightarrow> Fake \<Rightarrow> Fake" where
  "SetDelay d f = f\<lparr>f_delay := d\<rparr>"

definition FakeResume :: "Session \<Rightarrow> string \<Rightarrow> Fake \<Rightarrow> (Result \<times> error option) \<times> Fake" where
  "FakeResume sess prompt f =
     ((\<lparr>res_Command = ''fake-resume '' @ s_SessionID sess, res_ExitCode = f_exitCode f,
        res_OutputSummary = ''fake'', res_DurationMs = 0\<rparr>, f_err f),
      f\<lparr>f_calls := f_calls f @ [\<lparr>fc_SessionID = s_SessionID sess,
        fc_RepoPath = s_RepoPath sess, fc_Prompt = prompt\<rparr>]\<rparr>)"

section \<open>Truncation\<close>

lemma cutBack_le: "cutBack s n \<le> n"
  by (induction n) auto

lemma cutBack_eq:
  assumes "a \<le> n" and "a = 0 \<or> RuneStart (s ! a)" and "\<And>i. a < i \<Longrightarrow> i \<le> n \<Longrightarrow> \<not> RuneStart (s ! i)"
  shows "cutBack s n = a"
  using assms by (induction n) (auto simp: le_Suc_eq)

lemma length_truncateS: "length (truncateS s) \<le> summaryLimit"
  using cutBack_le [of s summaryLimit] by (auto simp: truncateS_def)

lemma truncateS_prefix: "prefix (truncateS s) s"
  by (simp add: truncateS_def take_is_prefix)

definition wf_rune :: "string \<Rightarrow> bool" where
  \<comment> \<open>the shape of one encoded rune: a start byte and continuation bytes\<close>
  "wf_rune r \<longleftrightarrow> r \<noteq> [] \<and> RuneStart (hd r) \<and> list_all (\<lambda>b. \<not> RuneStart b) (tl r)"

lemma rune_at:
  assumes "n < length (concat rs)"
  obtains k where "k < length rs" and "length (concat (take k rs)) \<le> n"
    and "n < length (concat (take k rs)) + length (rs ! k)"
  using assms
proof (induction rs arbitrary: n thesis)
  case (Cons r rs)
  show ?case
  proof (cases "n < length r")
    case True
    with Cons.prems(1) [of 0] show ?thesis by simp
  next
    case False
    with Cons.prems(2) have "n - length r < length (concat rs)" by auto
    then obtain k where "k < length rs" "length (concat (take k rs)) \<le> n - length r"
      "n - length r < length (concat (take k rs)) + length (rs ! k)"
      using Cons.IH by blast
    with False Cons.prems(1) [of "Suc k"] show ?thesis by simp
  qed
qed simp

lemma concat_nth:
  assumes "k < length rs" and "j < length (rs ! k)"
  shows "concat rs ! (length (concat (take k rs)) + j) = rs ! k ! j"
proof -
  have "concat rs = concat (take k rs) @ rs ! k @ concat (drop (Suc k) rs)"
    using id_take_nth_drop [OF assms(1)] by (metis concat.simps(2) concat_append)
  then show ?thesis using assms(2) by (metis nth_append nth_append_length_plus)
qed

lemma cutBack_rune:
  assumes "list_all wf_rune rs" and "k < length rs" and "length (concat (take k rs)) \<le> n"
    and "n < length (concat (take k rs)) + length (rs ! k)"
  shows "cutBack (concat rs) n = length (concat (take k rs))"
proof (rule cutBack_eq)
  let ?a = "length (concat (take k rs))"
  have wf: "wf_rune (rs ! k)" using assms(1,2) by (simp add: list_all_length)
  then have "0 < length (rs ! k)" by (simp add: wf_rune_def)
  with concat_nth [OF assms(2), of 0] wf
  show "?a = 0 \<or> RuneStart (concat rs ! ?a)" by (auto simp: wf_rune_def hd_conv_nth)
  fix i
  assume i: "?a < i" "i \<le> n"
  then have j: "i - ?a < length (rs ! k)" "0 < i - ?a" using assms(4) by auto
  then have j': "i - ?a - 1 < length (tl (rs ! k))" by simp
  have "concat rs ! i = rs ! k ! Suc (i - ?a - 1)"
    using concat_nth [OF assms(2) j(1)] i(1) j(2) by (metis Suc_diff_1 add_diff_inverse_nat less_imp_not_less)
  then have "concat rs ! i = tl (rs ! k) ! (i - ?a - 1)" using nth_tl [OF j'] by simp
  moreover have "\<not> RuneStart (tl (rs ! k) ! (i - ?a - 1))"
    using wf j' unfolding wf_rune_def list_all_length by blast
  ultimately show "\<not> RuneStart (concat rs ! i)" by simp
qed (use assms(3) in simp)

text \<open>
  (C34) Truncation never splits a character. On a text made of whole encoded runes the
  summary is a sequence of whole leading runes, within the limit, and as long as the
  limit allows.
\<close>

theorem truncate_keeps_runes:
  assumes "list_all wf_rune rs"
  shows "\<exists>k\<le>length rs. truncateS (concat rs) = concat (take k rs) \<and>
    length (truncateS (concat rs)) \<le> summaryLimit \<and>
    (k < length rs \<longrightarrow> summaryLimit < length (concat (take (Suc k) rs)))"
proof (cases "length (concat rs) \<le> summaryLimit")
  case True
  then show ?thesis by (intro exI [of _ "length rs"]) (simp add: truncateS_def)
next
  case False
  then have "summaryLimit < length (concat rs)" by simp
  then obtain k where k: "k < length rs" "length (concat (take k rs)) \<le> summaryLimit"
    "summaryLimit < length (concat (take k rs)) + length (rs ! k)"
    by (rule rune_at)
  from cutBack_rune [OF assms k] False
  have "truncateS (concat rs) = take (length (concat (take k rs))) (concat rs)"
    by (simp add: truncateS_def)
  also have "\<dots> = concat (take k rs)"
  proof -
    have "concat rs = concat (take k rs) @ concat (drop k rs)"
      by (simp flip: concat_append)
    then show ?thesis by (metis append_eq_conv_conj)
  qed
  finally show ?thesis using k length_truncateS [of "concat rs"]
    by (intro exI [of _ k]) (simp add: take_Suc_conv_app_nth)
qed

theorem truncate_keeps_runes_witness:
  "\<exists>k\<le>2. truncateS (concat [''a'', [CHR 0xC3, CHR 0xA9]]) = concat (take k [''a'', [CHR 0xC3, CHR 0xA9]])"
proof -
  have "list_all wf_rune [''a'', [CHR 0xC3, CHR 0xA9]]" by code_simp
  from truncate_keeps_runes [OF this] obtain k
    where k: "k \<le> length [''a'', [CHR 0xC3, CHR 0xA9]]"
      and t: "truncateS (concat [''a'', [CHR 0xC3, CHR 0xA9]]) = concat (take k [''a'', [CHR 0xC3, CHR 0xA9]])"
    by blast
  from k have "k \<le> 2" by simp
  with t show ?thesis by blast
qed

section \<open>The runner's contract\<close>

lemma length_parse:
  "length (fst (ParseResultJSON env out)) \<le> summaryLimit"
  by (auto simp: ParseResultJSON_def length_truncateS split: option.splits)

lemma runCLI_summary_bound:
  assumes "\<And>out. length (parse out) \<le> summaryLimit"
  shows "length (res_OutputSummary (fst (runCLI env bin args dir parse))) \<le> summaryLimit + 31"
proof -
  let ?o = "spawn env bin args dir"
  have "length (parse (po_stdout ?o)) \<le> summaryLimit"
    and "length (truncateS (TrimSpace (po_stderr ?o))) \<le> summaryLimit"
    using assms length_truncateS by auto
  then show ?thesis
    by (auto simp: runCLI_def Let_def split: option.split run_error.split)
qed

text \<open>
  (C36) What the runner reports. Provided a process that ran and failed has a nonzero exit
  code: a run counts as successful (no error, exit code 0) exactly when the command ended
  without error; a Go error is returned exactly when the command could not be run and the
  context was not done; a command cut short by the context is a result with exit code -1.
\<close>

theorem runCLI_outcome:
  assumes "\<forall>c. po_err (spawn env bin args dir) = Some (ExitError c) \<longrightarrow> c \<noteq> 0"
  shows "(snd (runCLI env bin args dir parse) = None \<and>
      res_ExitCode (fst (runCLI env bin args dir parse)) = 0 \<longleftrightarrow>
        po_err (spawn env bin args dir) = None) \<and>
    (snd (runCLI env bin args dir parse) \<noteq> None \<longleftrightarrow>
        (\<exists>e. po_err (spawn env bin args dir) = Some (OtherError e)) \<and> \<not> po_ctxErr (spawn env bin args dir)) \<and>
    (po_err (spawn env bin args dir) \<noteq> None \<and> po_ctxErr (spawn env bin args dir) \<longrightarrow>
        res_ExitCode (fst (runCLI env bin args dir parse)) = -1)"
  using assms by (auto simp: runCLI_def Let_def split: option.splits run_error.splits)

definition exProc :: "int \<Rightarrow> penv" where
  \<comment> \<open>an environment whose every command exits with the given code\<close>
  "exProc code = \<lparr>getenv = (\<lambda>_. []), lookPath = (\<lambda>_. None),
     spawn = (\<lambda>bin args dir. \<lparr>po_err = (if code = 0 then None else Some (ExitError code)),
       po_stdout = ''done'', po_stderr = [], po_durationMs = 7, po_ctxErr = False\<rparr>),
     jsonResult = (\<lambda>_. None)\<rparr>"

theorem runCLI_outcome_witness:
  "snd (runCLI (exProc 2) ''claude'' [] ''/repo'' id) = None \<and>
   res_ExitCode (fst (runCLI (exProc 2) ''claude'' [] ''/repo'' id)) \<noteq> 0"
  using runCLI_outcome [of "exProc 2" "''claude''" "[]" "''/repo''" id]
  by (auto simp: exProc_def)

section \<open>Prompts are positional\<close>

text \<open>
  The contract of an argument builder: the prompt is the one argument after the
  terminator, and what precedes the terminator does not depend on it.
\<close>

locale prompt_last =
  fixes build :: "string \<Rightarrow> string \<Rightarrow> string list" and opts :: "string \<Rightarrow> string list"
  assumes build_split: "build sid prompt = opts sid @ [''--'', prompt]"
    and opts_session: "sid \<in> set (opts sid)"
    and opts_plain: "sid \<noteq> ''--'' \<Longrightarrow> ''--'' \<notin> set (opts sid)"
begin

lemma options_seen: "sid \<noteq> ''--'' \<Longrightarrow> takeWhile (\<lambda>x. x \<noteq> ''--'') (build sid prompt) = opts sid"
  using opts_plain [of sid] by (simp add: build_split takeWhile_append takeWhile_eq_all_conv)

lemma positional_seen: "sid \<noteq> ''--'' \<Longrightarrow> dropWhile (\<lambda>x. x \<noteq> ''--'') (build sid prompt) = [''--'', prompt]"
  using opts_plain [of sid] by (simp add: build_split dropWhile_append)

lemma dash_safe:
  assumes "sid \<noteq> ''--''"
  shows "takeWhile (\<lambda>x. x \<noteq> ''--'') (build sid prompt) = takeWhile (\<lambda>x. x \<noteq> ''--'') (build sid prompt') \<and>
    dropWhile (\<lambda>x. x \<noteq> ''--'') (build sid prompt) = [''--'', prompt] \<and>
    sid \<in> set (takeWhile (\<lambda>x. x \<noteq> ''--'') (build sid prompt))"
  using assms opts_session by (simp add: options_seen positional_seen)

end

interpretation claude_args: prompt_last BuildClaudeArgs
    "\<lambda>sid. [''--resume'', sid, ''--output-format'', ''json'', ''-p'']"
  by unfold_locales (auto simp: BuildClaudeArgs_def)

interpretation cursor_args: prompt_last BuildCursorArgs
    "\<lambda>sid. [''-p'', ''--resume'', sid, ''--output-format'', ''json'']"
  by unfold_locales (auto simp: BuildCursorArgs_def)

interpretation codex_args: prompt_last BuildCodexArgs
    "\<lambda>sid. [''exec'', ''resume'', sid, ''--skip-git-repo-check'']"
  by unfold_locales (auto simp: BuildCodexArgs_def)

interpretation opencode_args: prompt_last BuildOpenCodeArgs
    "\<lambda>sid. [''run'', ''--session'', sid]"
  by unfold_locales (auto simp: BuildOpenCodeArgs_def)

definition argsOf :: "string \<Rightarrow> string \<Rightarrow> string \<Rightarrow> string list" where
  \<comment> \<open>the argument builder of each registered agent\<close>
  "argsOf a = (if a = ''claude'' then BuildClaudeArgs else if a = ''cursor'' then BuildCursorArgs
     else if a = ''codex'' then BuildCodexArgs else BuildOpenCodeArgs)"

definition resultBound :: nat where
  "resultBound = 531"

text \<open>
  Every registered adapter runs its agent in the session's repository with the
  prompt as the only argument after the terminator \<open>--\<close>; the options before it contain
  the session id and do not depend on the prompt, so no prompt can be taken for an option.
  The recorded summary is bounded.
\<close>

theorem resume_is_dash_safe:
  assumes "(a, ad) \<in> set (daemonRegistry env)" and "s_SessionID sess \<noteq> ''--''"
  shows "ad_Name ad = a \<and>
    (\<exists>bin parse. \<forall>prompt. ad_Resume ad sess prompt =
       runCLI env bin (argsOf a (s_SessionID sess) prompt) (s_RepoPath sess) parse) \<and>
    (\<forall>prompt prompt'.
       takeWhile (\<lambda>x. x \<noteq> ''--'') (argsOf a (s_SessionID sess) prompt) =
         takeWhile (\<lambda>x. x \<noteq> ''--'') (argsOf a (s_SessionID sess) prompt') \<and>
       dropWhile (\<lambda>x. x \<noteq> ''--'') (argsOf a (s_SessionID sess) prompt) = [''--'', prompt] \<and>
       s_SessionID sess \<in> set (takeWhile (\<lambda>x. x \<noteq> ''--'') (argsOf a (s_SessionID sess) prompt))) \<and>
    length (res_OutputSummary (fst (ad_Resume ad sess prompt))) \<le> resultBound"
proof -
  note resume = ClaudeResume_def CursorResume_def CodexResume_def OpenCodeResume_def
  note agent = Claude_def Cursor_def Codex_def OpenCode_def
  have reg: "(a = ''claude'' \<and> ad = Claude env) \<or> (a = ''cursor'' \<and> ad = Cursor env) \<or>
      (a = ''codex'' \<and> ad = Codex env) \<or> (a = ''opencode'' \<and> ad = OpenCode env)"
    using assms(1) by (auto simp: daemonRegistry_def)
  have safe: "\<forall>prompt prompt'.
       takeWhile (\<lambda>x. x \<noteq> ''--'') (argsOf a (s_SessionID sess) prompt) =
         takeWhile (\<lambda>x. x \<noteq> ''--'') (argsOf a (s_SessionID sess) prompt') \<and>
       dropWhile (\<lambda>x. x \<noteq> ''--'') (argsOf a (s_SessionID sess) prompt) = [''--'', prompt] \<and>
       s_SessionID sess \<in> set (takeWhile (\<lambda>x. x \<noteq> ''--'') (argsOf a (s_SessionID sess) prompt))"
    unfolding argsOf_def
    using claude_args.dash_safe [OF assms(2)] cursor_args.dash_safe [OF assms(2)]
      codex_args.dash_safe [OF assms(2)] opencode_args.dash_safe [OF assms(2)] by simp
  have run: "\<exists>bin parse. (\<forall>prompt. ad_Resume ad sess prompt =
       runCLI env bin (argsOf a (s_SessionID sess) prompt) (s_RepoPath sess) parse) \<and>
       (\<forall>out. length (parse out) \<le> summaryLimit)"
    using reg length_parse length_truncateS
    by (elim disjE) (auto simp: agent resume argsOf_def intro!: exI)
  then have "length (res_OutputSummary (fst (ad_Resume ad sess prompt))) \<le> resultBound"
    using runCLI_summary_bound by (fastforce simp: summaryLimit_def resultBound_def)
  with reg safe run show ?thesis by (auto simp: agent)
qed

theorem resume_is_dash_safe_witness:
  "dropWhile (\<lambda>x. x \<noteq> ''--'') (argsOf ''codex'' ''s1'' ''--help'') = [''--'', ''--help''] \<and>
   length (res_OutputSummary (fst (ad_Resume (Codex (exProc 0))
     \<lparr>s_SessionID = ''s1'', s_Agent = ''codex'', s_RepoPath = ''/repo'', s_State = [],
      s_CreatedAt = 0, s_UpdatedAt = 0\<rparr> ''--help''))) \<le> resultBound"
proof -
  let ?s = "\<lparr>s_SessionID = ''s1'', s_Agent = ''codex'', s_RepoPath = ''/repo'', s_State = [],
      s_CreatedAt = 0, s_UpdatedAt = 0\<rparr>"
  have "(''codex'', Codex (exProc 0)) \<in> set (daemonRegistry (exProc 0))"
    by (simp add: daemonRegistry_def)
  moreover have "s_SessionID ?s \<noteq> ''--''" by simp
  ultimately show ?thesis
    using resume_is_dash_safe [of "''codex''" "Codex (exProc 0)" "exProc 0" ?s "''--help''"] by simp
qed

end
