(* ===== verification/Dispatch.thy ===== *)
theory Dispatch
  imports Engine Adapter
begin

text \<open>
  The dispatcher of \<^verbatim>\<open>src/internal/dispatch/dispatcher.go\<close>: one worker per
  session takes the session's pending continuations in FIFO order, claims each with a
  compare-and-swap on its row, runs the session's agent, records the result and feeds a
  \<open>continuation.*\<close> event back into the engine.

  The state \<open>drt\<close> extends the running daemon by the worker table, the successive answers
  of \<open>ctx.Err() != nil\<close> (an oracle with a read position, like the clock) and the history
  of adapter runs. The adapters are a function of the number of runs so far, so an agent
  may answer the same prompt differently each time. \<open>log.Printf\<close> is left out: a call
  whose error is only logged is a \<open>tryE\<close> that goes on. A panic of the bus would end the
  process; \<open>Bus\<close> shows that it cannot happen from a well-formed bus, and the
  properties here are stated for one.

  The methods are composed of the segments between two store calls; the transition
  system of theory \<open>Workers\<close> interleaves the same segments.
\<close>

section \<open>State\<close>

record drt = rt +
  workers :: "string set"
  ctxErr :: "nat \<Rightarrow> bool"
  nctx :: nat
  runs :: "(Continuation \<times> Session) list"

type_synonym 'z ds = "'z drt_scheme"

type_synonym adapters = "nat \<Rightarrow> Registry"

definition CtxErr :: "('z ds, bool) io" where
  "CtxErr = (\<lambda>w. (Inr (ctxErr w (nctx w)), w\<lparr>nctx := Suc (nctx w)\<rparr>))"

record verdict =
  v_state :: ContinuationState
  v_command :: string
  v_summary :: string
  v_exitCode :: "int option"
  v_durationMs :: int

section \<open>Executing one continuation\<close>

definition registryKeys :: "Registry \<Rightarrow> string" where
  \<comment> \<open>the registry is a Go map: each name once\<close>
  "registryKeys reg = Join (sort (remdups (map fst reg))) '', ''"

definition failure :: "string \<Rightarrow> verdict" where
  \<comment> \<open>the initial values of the result variables, with a summary\<close>
  "failure m = \<lparr>v_state = ContinuationFailed, v_command = [], v_summary = m,
     v_exitCode = None, v_durationMs = 0\<rparr>"

definition judge :: "Result \<times> error option \<Rightarrow> verdict" where
  \<comment> \<open>the verdict on an adapter run\<close>
  "judge rr = (case rr of (res, runErr) \<Rightarrow>
     \<lparr>v_state = (case runErr of Some _ \<Rightarrow> ContinuationFailed
        | None \<Rightarrow> if res_ExitCode res = 0 then ContinuationCompleted else ContinuationFailed),
      v_command = res_Command res,
      v_summary = (case runErr of Some e \<Rightarrow> ''resume failed to start: '' @ Error e
        | None \<Rightarrow> res_OutputSummary res),
      v_exitCode = Some (res_ExitCode res), v_durationMs = res_DurationMs res\<rparr>)"

definition execLookup :: "adapters \<Rightarrow> Continuation \<Rightarrow> ('z ds, verdict + Session \<times> Adapter) io" where
  "execLookup ads c = tryE (GetSession (c_SessionID c)) (\<lambda>r.
     case r of
       Inl e \<Rightarrow> returnE (Inl (failure (''session lookup failed: '' @ Error e)))
     | Inr None \<Rightarrow> returnE (Inl (failure (''session '' @ c_SessionID c @ '' is not registered'')))
     | Inr (Some sess) \<Rightarrow> bindE (gets (\<lambda>w. ads (length (runs w)))) (\<lambda>reg.
         returnE (case map_of reg (s_Agent sess) of
           None \<Rightarrow> Inl (failure (''no adapter for agent '' @ s_Agent sess @
             '' (available: '' @ registryKeys reg @ '')''))
         | Some ad \<Rightarrow> Inr (sess, ad))))"

definition setState :: "string \<Rightarrow> SessionState \<Rightarrow> ('z ds, unit) io" where
  \<comment> \<open>an error is only logged\<close>
  "setState i st = tryE (SetSessionState i st) (\<lambda>_. returnE ())"

definition resume :: "Adapter \<Rightarrow> Continuation \<Rightarrow> Session \<Rightarrow> ('z ds, Result \<times> error option) io" where
  "resume ad c sess = bindE (modify (\<lambda>w. w\<lparr>runs := runs w @ [(c, sess)]\<rparr>)) (\<lambda>_.
     returnE (ad_Resume ad sess (c_Prompt c)))"

definition execRun :: "Continuation \<Rightarrow> Session \<times> Adapter \<Rightarrow> ('z ds, verdict) io" where
  "execRun c sa = (case sa of (sess, ad) \<Rightarrow>
     bindE (setState (s_SessionID sess) SessionRunning) (\<lambda>_.
     bindE (resume ad c sess) (\<lambda>rr.
     bindE (setState (s_SessionID sess) SessionWaiting) (\<lambda>_.
     returnE (judge rr)))))"

definition resultEvent :: "Continuation \<Rightarrow> verdict \<Rightarrow> Event" where
  "resultEvent c v = \<lparr>ev_ID = [],
     ev_Type = (if v_state v = ContinuationCompleted then ''continuation.completed''
       else ''continuation.failed''),
     ev_Source = (if c_Label c = [] then c_RuleID c else c_Label c),
     ev_Payload = (\<lambda>k. if k = ''continuationId'' then Some (c_ID c)
       else if k = ''sessionId'' then Some (c_SessionID c)
       else if k = ''durationMs'' then Some (Itoa (v_durationMs v))
       else if k = ''exitCode'' then map_option Itoa (v_exitCode v)
       else None),
     ev_Timestamp = 0\<rparr>"

definition emitResult :: "'t template_engine \<Rightarrow> Continuation \<Rightarrow> verdict \<Rightarrow> ('z ds, unit) io" where
  "emitResult te c v = tryE (EngineIngest te (resultEvent c v)) (\<lambda>_. returnE ())"

definition recordResult :: "Continuation \<Rightarrow> verdict \<Rightarrow> ('z ds, unit) io" where
  \<comment> \<open>an error is only logged\<close>
  "recordResult c v = tryE (UpdateContinuationResult (c_ID c) (v_state v) (v_command v)
     (v_exitCode v) (v_summary v)) (\<lambda>_. returnE ())"

definition finish :: "'t template_engine \<Rightarrow> Continuation \<Rightarrow> verdict \<Rightarrow> ('z ds, unit) io" where
  "finish te c v = bindE CtxErr (\<lambda>stop.
     if stop then returnE ()
     else bindE (recordResult c v) (\<lambda>_. emitResult te c v))"

definition execute :: "'t template_engine \<Rightarrow> adapters \<Rightarrow> Continuation \<Rightarrow> ('z ds, unit) io" where
  "execute te ads c =
     bindE (execLookup ads c) (\<lambda>l.
     bindE (case l of Inl v \<Rightarrow> returnE v | Inr sa \<Rightarrow> execRun c sa) (\<lambda>v.
     finish te c v))"

section \<open>Workers\<close>

definition workerIter :: "'t template_engine \<Rightarrow> adapters \<Rightarrow> string \<Rightarrow> ('z ds, bool) io" where
  \<comment> \<open>one round of the worker's loop; the result tells whether the loop goes on\<close>
  "workerIter te ads sid =
     bindE CtxErr (\<lambda>stop.
     if stop then returnE False
     else tryE (NextPendingForSession sid) (\<lambda>r. case r of
         Inl _ \<Rightarrow> returnE False
       | Inr None \<Rightarrow> returnE False
       | Inr (Some c) \<Rightarrow> tryE (ClaimContinuation (c_ID c)) (\<lambda>k. case k of
           Inr True \<Rightarrow> bindE (execute te ads c) (\<lambda>_. returnE True)
         | _ \<Rightarrow> returnE True)))"

partial_function (option) workerLoop ::
  "'t template_engine \<Rightarrow> adapters \<Rightarrow> string \<Rightarrow> 'z ds \<Rightarrow> 'z ds option" where
  "workerLoop te ads sid w = (case workerIter te ads sid w of
     (r, w') \<Rightarrow> if r = Inr True then workerLoop te ads sid w' else Some w')"

definition deregister :: "string \<Rightarrow> 'z ds \<Rightarrow> 'z ds" where
  \<comment> \<open>the deferred function: leave the worker table, then wake the dispatcher\<close>
  "deregister sid w = w\<lparr>wake := True, workers := workers w - {sid}\<rparr>"

definition worker :: "'t template_engine \<Rightarrow> adapters \<Rightarrow> string \<Rightarrow> 'z ds \<Rightarrow> 'z ds option" where
  "worker te ads sid w = map_option (deregister sid) (workerLoop te ads sid w)"

fun spawnAll :: "string list \<Rightarrow> string set \<Rightarrow> string list \<times> string set" where
  \<comment> \<open>the loop of \<open>scan\<close> under the mutex: the sessions that get a goroutine\<close>
  "spawnAll [] ws = ([], ws)"
| "spawnAll (s # ss) ws = (if s \<in> ws then spawnAll ss ws
     else (case spawnAll ss (insert s ws) of (new, ws') \<Rightarrow> (s # new, ws')))"

definition scan :: "('z ds, string list) io" where
  \<comment> \<open>the result is the list of sessions for which a worker goroutine is started\<close>
  "scan = tryE PendingSessions (\<lambda>r. case r of
     Inl _ \<Rightarrow> returnE []
   | Inr ss \<Rightarrow> bindE (gets workers) (\<lambda>ws. case spawnAll ss ws of (new, ws') \<Rightarrow>
       bindE (modify (\<lambda>w. w\<lparr>workers := ws'\<rparr>)) (\<lambda>_. returnE new)))"

definition bootRecovery :: "('z ds, unit) io" where
  \<comment> \<open>the start of \<open>Run\<close>\<close>
  "bootRecovery = tryE ResetRunningContinuations (\<lambda>_. returnE ())"

section \<open>Facts about the segments\<close>

lemma wf_CtxErr [wf_rules]: "preserves wf_st CtxErr"
  by (simp add: preserves_def CtxErr_def)

lemma v_state_judge: "v_state (judge rr) \<in> {ContinuationCompleted, ContinuationFailed}"
  by (auto simp: judge_def split: prod.splits option.splits)

lemma v_state_failure [simp]: "v_state (failure m) = ContinuationFailed"
  by (simp add: failure_def)

lemma execLookup_verdict: "execLookup ads c w = (Inr (Inl v), w') \<Longrightarrow> v_state v = ContinuationFailed"
  by (auto simp: execLookup_def tryE_def gets_def returnE_def bindE_def
      split: prod.splits sum.splits option.splits)

lemma execRun_verdict:
  assumes "execRun c sa w = (Inr v, w')"
  shows "v_state v \<in> {ContinuationCompleted, ContinuationFailed}"
proof -
  from assms obtain rr where "v = judge rr"
    by (cases sa) (auto simp: execRun_def bindE_Inr_iff)
  then show ?thesis using v_state_judge by simp
qed

lemma verdict_terminal:
  assumes "bindE (execLookup ads c) (\<lambda>l. case l of Inl v \<Rightarrow> returnE v | Inr sa \<Rightarrow> execRun c sa) w = (Inr v, w')"
  shows "v_state v \<in> {ContinuationCompleted, ContinuationFailed}"
proof -
  from assms obtain l w1 where l: "execLookup ads c w = (Inr l, w1)"
    and v: "(case l of Inl v \<Rightarrow> returnE v | Inr sa \<Rightarrow> execRun c sa) w1 = (Inr v, w')"
    by (auto simp: bindE_Inr_iff)
  show ?thesis
  proof (cases l)
    case (Inl v')
    with l v show ?thesis by (simp add: execLookup_verdict)
  next
    case (Inr sa)
    with v execRun_verdict [of c sa w1 v w'] show ?thesis by simp
  qed
qed

text \<open>
  A property of the state that is kept by the bookkeeping fields and by a change of a
  session's state is kept by everything up to the verdict; one that the engine keeps as
  well is kept by the whole execution. The schema invariant, the well-formed bus and the
  frame conditions below are instances.
\<close>

locale segment_kept =
  fixes I :: "'z ds \<Rightarrow> bool"
  assumes kept_clock: "\<And>w n. I (w\<lparr>nclock := n\<rparr>) = I w"
    and kept_ctx: "\<And>w n. I (w\<lparr>nctx := n\<rparr>) = I w"
    and kept_fault: "\<And>w n. I (w\<lparr>nfault := n\<rparr>) = I w"
    and kept_runs: "\<And>w x. I w \<Longrightarrow> I (w\<lparr>runs := runs w @ [x]\<rparr>)"
    and kept_session: "\<And>w i st t. I w \<Longrightarrow> I (w\<lparr>db := (db w)\<lparr>sessions :=
      update_where (\<lambda>s. s_SessionID s = i) (\<lambda>s. s\<lparr>s_State := st, s_UpdatedAt := t\<rparr>) (sessions (db w))\<rparr>\<rparr>)"
begin

lemma kept_Query: "preserves I (Query f)"
  unfolding Query_def by (rule preserves_Exec) (auto simp: kept_fault)

lemma kept_CtxErr: "preserves I CtxErr"
  by (simp add: preserves_def CtxErr_def kept_ctx)

lemma kept_setState: "preserves I (setState i st)"
  unfolding setState_def SetSessionState_def Update_def
  by (intro preserves_rules kept_clock kept_fault) (auto intro: kept_session)

lemma kept_execLookup: "preserves I (execLookup ads c)"
  unfolding execLookup_def GetSession_def
  by (intro preserves_try kept_Query)
    (auto split: sum.split option.split intro!: preserves_bind)

lemma kept_resume: "preserves I (resume ad c sess)"
  unfolding resume_def by (intro preserves_bind preserves_modify preserves_pure kept_runs)

lemma kept_execRun: "preserves I (execRun c sa)"
  unfolding execRun_def
  by (cases sa) (auto intro!: preserves_bind kept_setState kept_resume)

lemma kept_verdict:
  "preserves I (bindE (execLookup ads c) (\<lambda>l. case l of Inl v \<Rightarrow> returnE v | Inr sa \<Rightarrow> execRun c sa))"
  by (intro preserves_bind kept_execLookup) (auto split: sum.split intro: kept_execRun)

end

locale dispatch_kept = segment_kept I for I :: "'z ds \<Rightarrow> bool" +
  fixes te :: "'t template_engine"
  assumes kept_engine: "\<And>ev. preserves I (EngineIngest te ev)"
    and kept_record: "\<And>c v. v_state v \<in> {ContinuationCompleted, ContinuationFailed} \<Longrightarrow>
      preserves I (recordResult c v)"
begin

lemma kept_emitResult: "preserves I (emitResult te c v)"
  unfolding emitResult_def by (intro preserves_rules kept_engine)

lemma kept_finish:
  "v_state v \<in> {ContinuationCompleted, ContinuationFailed} \<Longrightarrow> preserves I (finish te c v)"
  unfolding finish_def by (intro preserves_rules kept_CtxErr kept_emitResult kept_record)

lemma kept_execute: "preserves I (execute te ads c)"
  unfolding execute_def bindE_assoc [symmetric]
  by (rule preserves_bind_post [OF kept_verdict verdict_terminal kept_finish])

end

interpretation wfk: dispatch_kept wf_st te
  by unfold_locales
    (auto intro!: wf_sessions_update wf_EngineIngest preserves_try wf_UpdateContinuationResult
      simp: recordResult_def)

lemma bus_EngineIngest: "preserves (\<lambda>w. wf_bus (bus w)) (EngineIngest te ev)"
proof (rule preservesI)
  fix w :: "'a rts"
  assume b: "wf_bus (bus w)"
  then show "wf_bus (bus (snd (EngineIngest te ev w)))"
    by (cases rule: EngineIngest_cases [of w te ev]) (use b in auto)
qed

lemma preserves_recordResult:
  assumes "\<And>w n. I (w\<lparr>nclock := n\<rparr>) = I w" and "\<And>w n. I (w\<lparr>nfault := n\<rparr>) = I w"
    and "\<And>w d. I (w\<lparr>db := d\<rparr>) = I w"
  shows "preserves I (recordResult c v)"
  unfolding recordResult_def UpdateContinuationResult_def Update_def
  by (intro preserves_rules) (simp_all add: assms)

interpretation busk: dispatch_kept "\<lambda>w. wf_bus (bus w)" te
  by unfold_locales (auto intro: bus_EngineIngest preserves_recordResult)

interpretation orck: dispatch_kept "oracles K R F" te for K R F
  by unfold_locales (auto intro: oracles_EngineIngest preserves_recordResult simp: oracles_def)

interpretation ctxk: dispatch_kept "\<lambda>w. ctxErr w = X" te for X
  by unfold_locales (auto intro!: preserves_EngineIngest preserves_Ingest_frame preserves_recordResult)

text \<open>Up to its verdict, an execution changes no rule, event, watch or continuation.\<close>

interpretation work: segment_kept "\<lambda>w. continuations (db w) = C \<and> rules (db w) = R \<and> events (db w) = E" for C R E
  by unfold_locales auto

subsection \<open>Errors of an execution are recorded, never returned\<close>

lemma total_CtxErr [total_rules]: "total CtxErr"
  by (simp add: total_def CtxErr_def)

lemma total_execLookup [total_rules]: "total (execLookup ads c)"
  unfolding execLookup_def
  by (rule total_try) (auto split: sum.split option.split intro!: total_bind)

lemma total_execRun [total_rules]: "total (execRun c sa)"
  unfolding execRun_def setState_def resume_def
  by (cases sa) (auto intro!: total_rules)

lemma total_finish [total_rules]: "total (finish te c v)"
  unfolding finish_def recordResult_def emitResult_def by (intro total_rules)

lemma total_verdict:
  "total (bindE (execLookup ads c) (\<lambda>l. case l of Inl v \<Rightarrow> returnE v | Inr sa \<Rightarrow> execRun c sa))"
  by (intro total_bind total_execLookup) (auto split: sum.split intro: total_execRun)

lemma total_execute [total_rules]: "total (execute te ads c)"
  unfolding execute_def bindE_assoc [symmetric]
  by (intro total_bind total_verdict total_finish)

section \<open>The queue of a session\<close>

lemma healthy_drt [simp]:
  "healthy (w\<lparr>nctx := n\<rparr>) = healthy w" "healthy (w\<lparr>runs := h\<rparr>) = healthy w"
  "healthy (w\<lparr>workers := ws\<rparr>) = healthy w" "healthy (w\<lparr>wake := k\<rparr>) = healthy w"
  by (simp_all add: healthy_def)

abbreviation fifoKey :: "Continuation \<Rightarrow> time \<times> string" where
  "fifoKey c \<equiv> (c_CreatedAt c, c_ID c)"

lemma sort_key_hd:
  assumes "sort_key k xs = y # ys"
  shows "y \<in> set xs \<and> (\<forall>x\<in>set xs. k y \<le> k x)"
proof -
  have "set xs = insert y (set ys)" using assms by (metis list.simps(15) set_sort)
  moreover have "sorted (map k (y # ys))" using assms by (metis sorted_sort_key)
  ultimately show ?thesis by auto
qed

lemma NextPending_Some:
  assumes "NextPendingForSession sid w = (Inr (Some c), w')"
  shows "c \<in> set (pendingOf sid (db w)) \<and> (\<forall>x\<in>set (pendingOf sid (db w)). fifoKey c \<le> fifoKey x) \<and>
    w' = w\<lparr>nfault := Suc (nfault w)\<rparr>"
proof -
  from Query_Inr [OF assms [unfolded NextPendingForSession_def]]
  obtain cs where c: "sort_key fifoKey (pendingOf sid (db w)) = c # cs" and w: "w' = w\<lparr>nfault := Suc (nfault w)\<rparr>"
    by (auto split: list.splits)
  from sort_key_hd [OF c] w show ?thesis by blast
qed

lemma NextPending_None:
  assumes "NextPendingForSession sid w = (Inr None, w')"
  shows "pendingOf sid (db w) = [] \<and> w' = w\<lparr>nfault := Suc (nfault w)\<rparr>"
proof -
  from Query_Inr [OF assms [unfolded NextPendingForSession_def]]
  have "sort_key fifoKey (pendingOf sid (db w)) = []" and "w' = w\<lparr>nfault := Suc (nfault w)\<rparr>"
    by (auto split: list.splits)
  then show ?thesis by (metis length_0_conv length_sort)
qed

lemma Claim_Inr:
  assumes "ClaimContinuation i w = (Inr k, w')"
  shows "k = (count_where (claimable i) (continuations (db w)) = 1) \<and>
    db w' = (db w)\<lparr>continuations := update_where (claimable i)
      (\<lambda>c. c\<lparr>c_State := ContinuationRunning, c_UpdatedAt := clock w (nclock w)\<rparr>) (continuations (db w))\<rparr> \<and>
    runs w' = runs w \<and> bus w' = bus w"
  using assms unfolding ClaimContinuation_def
  by (auto simp: bindE_Inr_iff Now_def dest!: UpdateN_Inr)

lemma claim_succeeds:
  assumes "healthy w" and "wf_st w" and "c \<in> set (pendingOf sid (db w))"
  shows "fst (ClaimContinuation (c_ID c) w) = Inr True"
proof -
  have "distinct (map c_ID (continuations (db w)))"
    using wf_db_uniqD(4) [OF assms(2)] by (rule uniq_distinct) (simp add: conf_cont_def)
  moreover from assms(3) have "c \<in> set (continuations (db w))" "claimable (c_ID c) c"
    by (auto simp: pendingOf_def claimable_def)
  ultimately have "count_where (claimable (c_ID c)) (continuations (db w)) = 1"
    by (rule count_where_key) (simp add: claimable_def)
  with assms(1) show ?thesis by (simp add: ClaimContinuation_def bindE_def Now_def)
qed

lemma claim_runs: "preserves (\<lambda>w. runs w = X) (ClaimContinuation i)"
  unfolding ClaimContinuation_def UpdateN_def by (intro preserves_rules) auto

section \<open>Which runs happen\<close>

lemma runs_setState: "preserves (\<lambda>w. runs w = X) (setState i st)"
  unfolding setState_def SetSessionState_def Update_def by (intro preserves_rules) auto

lemma runs_EngineIngest: "preserves (\<lambda>w. runs w = X) (EngineIngest te ev)"
  by (intro preserves_EngineIngest preserves_Ingest_frame) auto

lemma runs_finish: "preserves (\<lambda>w. runs w = X) (finish te c v)"
  unfolding finish_def emitResult_def CtxErr_def
  by (intro preserves_rules preserves_recordResult runs_EngineIngest) (auto simp: preserves_def)

lemma execLookup_run:
  assumes "execLookup ads c w = (Inr (Inr (sess, ad)), w')"
  shows "find (\<lambda>s. s_SessionID s = c_SessionID c) (sessions (db w)) = Some sess \<and>
    map_of (ads (length (runs w))) (s_Agent sess) = Some ad \<and> runs w' = runs w"
  using assms unfolding execLookup_def GetSession_def
  by (auto simp: tryE_def gets_def bindE_Inr_iff split: prod.splits sum.splits option.splits
      dest!: Query_Inr)

lemma execLookup_runs: "preserves (\<lambda>w. runs w = X) (execLookup ads c)"
  unfolding execLookup_def GetSession_def Query_def
  by (rule preserves_try, rule preserves_Exec)
    (auto split: sum.split option.split intro!: preserves_bind)

lemma execRun_runs:
  assumes "execRun c (sess, ad) w = (r, w')"
  shows "runs w' = runs w @ [(c, sess)]"
proof -
  have p: "preserves (\<lambda>w. runs w = X) (bindE (setState (s_SessionID sess) SessionWaiting) (\<lambda>_. returnE v))" for X v
    by (intro preserves_rules runs_setState)
  obtain x w1 where s: "setState (s_SessionID sess) SessionRunning w = (Inr x, w1)"
    using totalD [of "setState (s_SessionID sess) SessionRunning" w]
    by (auto simp: setState_def intro: total_rules)
  then have "bindE (setState (s_SessionID sess) SessionWaiting)
      (\<lambda>_. returnE (judge (ad_Resume ad sess (c_Prompt c)))) (w1\<lparr>runs := runs w1 @ [(c, sess)]\<rparr>) = (r, w')"
    using assms by (simp add: execRun_def resume_def modify_def bindE_def [of "\<lambda>s. (Inr (), _ s)"])
  then have "runs w' = runs w1 @ [(c, sess)]" by (rule preservesD [OF p, rotated]) simp
  moreover have "runs w1 = runs w" by (rule preservesD [OF runs_setState refl s])
  ultimately show ?thesis by simp
qed

lemma execute_runs:
  assumes "execute te ads c w = (r, w')"
  shows "runs w' = runs w \<or> (\<exists>sess. find (\<lambda>s. s_SessionID s = c_SessionID c) (sessions (db w)) = Some sess \<and>
    runs w' = runs w @ [(c, sess)])"
proof -
  obtain l w1 where l: "execLookup ads c w = (Inr l, w1)" using totalD [OF total_execLookup] by blast
  have r1: "runs w1 = runs w" by (rule preservesD [OF execLookup_runs refl l])
  show ?thesis
  proof (cases l)
    case (Inl v)
    with l assms have "finish te c v w1 = (r, w')" by (simp add: execute_def)
    then have "runs w' = runs w1" by (rule preservesD [OF runs_finish refl])
    with r1 show ?thesis by simp
  next
    case (Inr sa)
    obtain sess ad where sa: "sa = (sess, ad)" by (cases sa)
    obtain v w2 where v: "execRun c sa w1 = (Inr v, w2)" using totalD [OF total_execRun] by blast
    with l Inr assms have "finish te c v w2 = (r, w')" by (simp add: execute_def)
    then have "runs w' = runs w2" by (rule preservesD [OF runs_finish refl])
    moreover have "runs w2 = runs w1 @ [(c, sess)]" using execRun_runs v sa by blast
    moreover have "find (\<lambda>s. s_SessionID s = c_SessionID c) (sessions (db w)) = Some sess"
      using execLookup_run l Inr sa by blast
    ultimately show ?thesis using r1 by simp
  qed
qed

lemma CtxErr_run: "CtxErr w = (Inr (ctxErr w (nctx w)), w\<lparr>nctx := Suc (nctx w)\<rparr>)"
  by (simp add: CtxErr_def)

text \<open>The rounds of a worker, by what the queue and the claim answered.\<close>

lemma workerIter_cases:
  obtains (stop) n w' where "workerIter te ads sid w = (Inr False, w')"
      and "w' = w\<lparr>nfault := n, nctx := Suc (nctx w)\<rparr>" and "ctxErr w (nctx w) \<or> pendingOf sid (db w) = [] \<or> \<not> healthy w"
  | (retry) c w' where "workerIter te ads sid w = (Inr True, w')" and "runs w' = runs w"
      and "c \<in> set (pendingOf sid (db w))" and "\<not> healthy w \<or> \<not> wf_st w"
  | (exec) c w1 w' where "workerIter te ads sid w = (Inr True, w')"
      and "c \<in> set (pendingOf sid (db w))" and "\<forall>x\<in>set (pendingOf sid (db w)). fifoKey c \<le> fifoKey x"
      and "ClaimContinuation (c_ID c) (w\<lparr>nfault := Suc (nfault w), nctx := Suc (nctx w)\<rparr>) = (Inr True, w1)"
      and "execute te ads c w1 = (Inr (), w')"
proof -
  let ?w0 = "w\<lparr>nctx := Suc (nctx w)\<rparr>"
  show ?thesis
  proof (cases "ctxErr w (nctx w)")
    case True
    then show ?thesis by (intro stop [of ?w0 "nfault w"]) (simp_all add: workerIter_def CtxErr_run)
  next
    case ctx: False
    obtain q w2 where q: "NextPendingForSession sid ?w0 = (q, w2)" by (cases "NextPendingForSession sid ?w0")
    have it: "workerIter te ads sid w = (case q of Inl _ \<Rightarrow> returnE False | Inr None \<Rightarrow> returnE False
        | Inr (Some c) \<Rightarrow> tryE (ClaimContinuation (c_ID c)) (\<lambda>k. case k of
           Inr True \<Rightarrow> bindE (execute te ads c) (\<lambda>_. returnE True) | _ \<Rightarrow> returnE True)) w2"
      by (simp add: workerIter_def bindE_def [of CtxErr] CtxErr_run ctx tryE_def [of "NextPendingForSession _"] q)
    show ?thesis
    proof (cases q)
      case (Inl e)
      have "w2 = ?w0\<lparr>nfault := Suc (nfault w)\<rparr>" and "\<not> healthy w"
        using q Inl healthy_run(1) [of ?w0]
        by (auto simp: NextPendingForSession_def dest: Query_Inl)
      with Inl show ?thesis by (intro stop [of w2 "Suc (nfault w)"]) (simp_all add: it)
    next
      case (Inr oc)
      show ?thesis
      proof (cases oc)
        case None
        with q Inr have "NextPendingForSession sid ?w0 = (Inr None, w2)" by simp
        from NextPending_None [OF this] None Inr show ?thesis
          by (intro stop [of w2 "Suc (nfault w)"]) (simp_all add: it)
      next
        case (Some c)
        with q Inr have c: "c \<in> set (pendingOf sid (db w))" "\<forall>x\<in>set (pendingOf sid (db w)). fifoKey c \<le> fifoKey x"
          and w2: "w2 = w\<lparr>nfault := Suc (nfault w), nctx := Suc (nctx w)\<rparr>"
          using NextPending_Some [of sid ?w0 c w2] by simp_all
        obtain k w3 where k: "ClaimContinuation (c_ID c) w2 = (k, w3)" by (cases "ClaimContinuation (c_ID c) w2")
        have r3: "runs w3 = runs w" using preservesD [OF claim_runs refl k] w2 by simp
        show ?thesis
        proof (cases "k = Inr True")
          case True
          obtain w' where "execute te ads c w3 = (Inr (), w')" using totalD [OF total_execute] by force
          with True k Inr Some w2 show ?thesis by (intro exec [OF _ c, of w' w3]) (simp_all add: it)
        next
          case False
          have "workerIter te ads sid w = (Inr True, w3)"
            using False k Inr Some by (auto simp: it split: sum.split bool.split)
          moreover have "\<not> healthy w \<or> \<not> wf_st w" using False k w2 claim_succeeds [of w2 c sid] c(1) by auto
          ultimately show ?thesis using retry [of w3 c] r3 c(1) by blast
        qed
      qed
    qed
  qed
qed

text \<open>
  (C18) First in, first out, one at a time. Whatever fails, one round of a session's worker
  starts at most one agent run; it is the run of a pending continuation of that session
  with the least creation time (then the least identifier), in the registered session.
\<close>

theorem worker_fifo:
  "runs (snd (workerIter te ads sid w)) = runs w \<or>
   (\<exists>c sess. runs (snd (workerIter te ads sid w)) = runs w @ [(c, sess)] \<and>
      c \<in> set (pendingOf sid (db w)) \<and>
      list_all (\<lambda>x. (c_CreatedAt c, c_ID c) \<le> (c_CreatedAt x, c_ID x)) (pendingOf sid (db w)) \<and>
      sess \<in> set (sessions (db w)) \<and> s_SessionID sess = sid)"
proof (cases rule: workerIter_cases [of te ads sid w])
  case (exec c w1 w')
  have w1: "sessions (db w1) = sessions (db w)" "runs w1 = runs w"
    using Claim_Inr [OF exec(4)] by simp_all
  have "c_SessionID c = sid" using exec(2) by (simp add: pendingOf_def)
  with execute_runs [OF exec(5)] w1 exec show ?thesis
    by (fastforce simp: find_Some_iff list_all_iff)
qed auto

section \<open>A worker drains its queue\<close>

definition resultTypes :: "string list" where
  "resultTypes = [''continuation.completed'', ''continuation.failed'']"

definition chainOneShot :: "database \<Rightarrow> bool" where
  \<comment> \<open>every rule on result events is one-shot, as all rules of a workflow are\<close>
  "chainOneShot d \<longleftrightarrow> list_all (\<lambda>r. sel_Type (r_Selector r) \<in> set resultTypes \<longrightarrow> r_OneShot r) (rules d)"

definition openRules :: "database \<Rightarrow> nat" where
  "openRules d = count_where (\<lambda>r. r_OneShot r \<and> \<not> r_Consumed r) (rules d)"

definition load :: "string \<Rightarrow> database \<Rightarrow> nat" where
  \<comment> \<open>the measure: what is pending plus what can still be created\<close>
  "load sid d = length (pendingOf sid d) + openRules d"

lemma openRules_consume:
  "count_where (\<lambda>r. r_OneShot r \<and> \<not> r_Consumed r) (map (\<lambda>r. if Q r \<and> r_OneShot r then r\<lparr>r_Consumed := True\<rparr> else r) rs) +
     count_where (\<lambda>r. Q r \<and> r_OneShot r \<and> \<not> r_Consumed r) rs =
   count_where (\<lambda>r. r_OneShot r \<and> \<not> r_Consumed r) rs"
  by (induction rs) (auto simp: count_where_def)

lemma Ingest_chain:
  assumes run: "Ingest te ev w = (Inr res, w')" and wf: "wf_st w"
    and ty: "ev_Type ev \<in> set resultTypes" and ch: "chainOneShot (db w)"
  shows "openRules (db w') + length (ir_Continuations res) \<le> openRules (db w) \<and> chainOneShot (db w')"
proof
  let ?now = "clock w (nclock w)" and ?cs = "ir_Continuations res"
  let ?Q = "\<lambda>r. ruleQuery ev ?now r \<and> r_ID r \<in> c_RuleID ` set ?cs"
  note I = Ingest_Inr [OF run wf]
  have rs: "rules (db w') = map (\<lambda>r. if ?Q r \<and> r_OneShot r then r\<lparr>r_Consumed := True\<rparr> else r) (rules (db w))"
    using I by (auto intro: map_cong)
  then show "chainOneShot (db w')" using ch by (auto simp: chainOneShot_def list_all_iff)
  let ?S = "filter (\<lambda>r. ?Q r \<and> r_OneShot r \<and> \<not> r_Consumed r) (rules (db w))"
  have "set (map c_RuleID ?cs) \<subseteq> r_ID ` set ?S"
  proof
    fix i
    assume "i \<in> set (map c_RuleID ?cs)"
    then obtain c where c: "c \<in> set ?cs" "i = c_RuleID c" by auto
    with I obtain j r where r: "r \<in> set (rules (db w))" "ruleQuery ev ?now r"
      "c = newContinuation te ev ?now j r" by blast
    with ch ty have "r_OneShot r" by (auto simp: chainOneShot_def list_all_iff ruleQuery_def)
    with r c show "i \<in> r_ID ` set ?S" by (force simp: ruleQuery_def rule_active_def)
  qed
  then have "card (set (map c_RuleID ?cs)) \<le> card (r_ID ` set ?S)" by (intro card_mono) simp_all
  also have "\<dots> \<le> card (set ?S)" by (intro card_image_le) simp
  also have "\<dots> \<le> length ?S" by (rule card_length)
  finally have "length ?cs \<le> length ?S" using I distinct_card [of "map c_RuleID ?cs"] by simp
  with openRules_consume [of ?Q "rules (db w)"] rs
  show "openRules (db w') + length ?cs \<le> openRules (db w)"
    by (simp add: openRules_def count_where_def conj_ac)
qed

text \<open>One execution, when no statement fails and the daemon is not shutting down.\<close>

lemma recordResult_run:
  assumes "healthy w"
  shows "\<exists>f w'. recordResult c v w = (Inr (), w') \<and>
    db w' = (db w)\<lparr>continuations := update_where (\<lambda>x. c_ID x = c_ID c) f (continuations (db w))\<rparr> \<and>
    (\<forall>x. c_ID (f x) = c_ID x \<and> c_SessionID (f x) = c_SessionID x \<and> c_State (f x) = v_state v)"
  using assms
  by (auto simp: recordResult_def UpdateContinuationResult_def Now_def bindE_def tryE_def
      intro!: exI [of _ "\<lambda>x. x\<lparr>c_State := v_state v, c_Command := v_command v, c_ExitCode := v_exitCode v,
          c_OutputSummary := v_summary v, c_UpdatedAt := clock w (nclock w)\<rparr>"])

definition ready :: "'z ds \<Rightarrow> bool" where
  \<comment> \<open>no failing statement, no shutdown, a well-formed state, one-shot chains\<close>
  "ready w \<longleftrightarrow> healthy w \<and> wf_st w \<and> wf_bus (bus w) \<and> ctxErr w = (\<lambda>_. False) \<and> chainOneShot (db w)"

lemma verdict_ready:
  assumes "ready w"
    and v: "bindE (execLookup ads c) (\<lambda>l. case l of Inl v \<Rightarrow> returnE v | Inr sa \<Rightarrow> execRun c sa) w = (Inr v, w1)"
  shows "ready w1 \<and> continuations (db w1) = continuations (db w) \<and> rules (db w1) = rules (db w)"
proof -
  from assms(1) have ok: "healthy w" "wf_st w" "wf_bus (bus w)" "ctxErr w = (\<lambda>_. False)" "chainOneShot (db w)"
    by (auto simp: ready_def)
  have self: "oracles (clock w) (rand w) (fault w) w" by (simp add: oracles_def)
  show ?thesis
    using healthy_oracles [OF ok(1) preservesD [OF orck.kept_verdict self v]]
      preservesD [OF ctxk.kept_verdict ok(4) v] preservesD [OF wfk.kept_verdict ok(2) v]
      preservesD [OF busk.kept_verdict ok(3) v] ok(5)
      preservesD [OF work.kept_verdict _ v, of "continuations (db w)" "rules (db w)" "events (db w)"]
    by (auto simp: ready_def chainOneShot_def)
qed

lemma recordResult_ready:
  assumes "ready w" and vt: "v_state v \<in> {ContinuationCompleted, ContinuationFailed}"
    and rec: "recordResult c v w = (Inr (), w')"
  shows "ready w'"
proof -
  obtain f where "rules (db w') = rules (db w)"
    using recordResult_run [of w c v] assms(1) rec by (auto simp: ready_def)
  then show ?thesis
    using assms(1) preservesD [OF busk.kept_record [OF vt] _ rec] preservesD [OF wfk.kept_record [OF vt] _ rec]
      preservesD [OF orck.kept_record [OF vt] _ rec, of "clock w" "rand w" "fault w"]
      preservesD [OF ctxk.kept_record [OF vt] _ rec]
    by (auto simp: ready_def oracles_def healthy_def chainOneShot_def)
qed

lemma emitResult_ready:
  fixes w :: "'z ds"
  assumes "ready w" and run: "emitResult te c v w = (Inr (), w')"
  shows "ready w' \<and> (\<exists>new. continuations (db w') = continuations (db w) @ new \<and>
    (\<forall>x\<in>set new. c_State x \<noteq> ContinuationRunning) \<and> openRules (db w') + length new \<le> openRules (db w))"
proof -
  from assms(1) have ok: "healthy w" "wf_st w" "wf_bus (bus w)" "ctxErr w = (\<lambda>_. False)" "chainOneShot (db w)"
    by (auto simp: ready_def)
  obtain res w1 where e: "EngineIngest te (resultEvent c v) w = (Inr res, w1)" "healthy w1"
    using EngineIngest_healthy [OF ok(1,3)] by blast
  with run have "w' = w1" by (simp add: emitResult_def tryE_def)
  with e have e': "EngineIngest te (resultEvent c v) w = (Inr res, w')" and h: "healthy w'" by simp_all
  from EngineIngest_Inr [OF ok(3) e'] obtain ev' and w0 w4 :: "'z ds" where n: "db w0 = db w"
    "Ingest te ev' w0 = (Inr res, w4)" "db w' = db w4" "ev_Type ev' = ev_Type (resultEvent c v)" by blast
  have ty: "ev_Type ev' \<in> set resultTypes" by (simp add: n resultEvent_def resultTypes_def)
  have wf0: "wf_st w0" and ch0: "chainOneShot (db w0)" using ok n by simp_all
  have "continuations (db w') = continuations (db w) @ ir_Continuations res"
    using Ingest_Inr [OF n(2) wf0] n by simp
  moreover have "\<forall>x\<in>set (ir_Continuations res). c_State x \<noteq> ContinuationRunning"
  proof
    fix x
    assume "x \<in> set (ir_Continuations res)"
    with Ingest_Inr [OF n(2) wf0] obtain ev t i r where "x = newContinuation te ev t i r" by blast
    then show "c_State x \<noteq> ContinuationRunning"
      by (simp add: newContinuation_def Let_def ContinuationPending_def ContinuationRunning_def ContinuationFailed_def split: sum.split)
  qed
  moreover have "openRules (db w') + length (ir_Continuations res) \<le> openRules (db w)" and "chainOneShot (db w')"
    using Ingest_chain [OF n(2) wf0 ty ch0] n by simp_all
  moreover have "wf_bus (bus w')" "wf_st w'" "ctxErr w' = (\<lambda>_. False)"
    using preservesD [OF bus_EngineIngest ok(3) e'] preservesD [OF wf_EngineIngest ok(2) e']
      preservesD [OF ctxk.kept_engine ok(4) e'] by auto
  ultimately show ?thesis using h by (auto simp: ready_def)
qed

lemma execute_ready:
  assumes "ready w" and run: "execute te ads c w = (Inr (), w')"
  shows "ready w' \<and> (\<exists>f new. continuations (db w') =
      update_where (\<lambda>x. c_ID x = c_ID c) f (continuations (db w)) @ new \<and>
    (\<forall>x. c_ID (f x) = c_ID x \<and> c_SessionID (f x) = c_SessionID x \<and>
      c_State (f x) \<in> {ContinuationCompleted, ContinuationFailed}) \<and>
    (\<forall>x\<in>set new. c_State x \<noteq> ContinuationRunning) \<and>
    openRules (db w') + length new \<le> openRules (db w))"
proof -
  let ?V = "bindE (execLookup ads c) (\<lambda>l. case l of Inl v \<Rightarrow> returnE v | Inr sa \<Rightarrow> execRun c sa)"
  obtain v w1 where v: "?V w = (Inr v, w1)" using totalD [OF total_verdict] by blast
  have fin: "finish te c v w1 = (Inr (), w')"
    using run bindE_run(1) [of ?V w v w1 "finish te c"] v by (simp add: execute_def bindE_assoc)
  note vt = verdict_terminal [OF v] and r1 = verdict_ready [OF assms(1) v]
  let ?w1 = "w1\<lparr>nctx := Suc (nctx w1)\<rparr>"
  have r1': "ready ?w1" using r1 by (simp add: ready_def)
  then obtain f w2 where rec: "recordResult c v ?w1 = (Inr (), w2)"
    and d2: "db w2 = (db ?w1)\<lparr>continuations := update_where (\<lambda>x. c_ID x = c_ID c) f (continuations (db ?w1))\<rparr>"
    and f: "\<forall>x. c_ID (f x) = c_ID x \<and> c_SessionID (f x) = c_SessionID x \<and> c_State (f x) = v_state v"
    using recordResult_run [of ?w1 c v] by (auto simp: ready_def)
  have "emitResult te c v w2 = (Inr (), w')"
    using fin rec r1 by (simp add: finish_def CtxErr_run bindE_def ready_def)
  from emitResult_ready [OF recordResult_ready [OF r1' vt rec] this] obtain new where
    "ready w'" "continuations (db w') = continuations (db w2) @ new" "\<forall>x\<in>set new. c_State x \<noteq> ContinuationRunning"
    "openRules (db w') + length new \<le> openRules (db w2)" by blast
  with d2 f vt r1 show ?thesis
    by (intro conjI exI [of _ f] exI [of _ new]) (simp_all add: openRules_def)
qed

lemma filter_update:
  assumes "distinct (map c_ID cs)" and "c \<in> set cs" and "P c" and "\<And>x. \<not> P (f x)"
  shows "Suc (length (filter P (update_where (\<lambda>x. c_ID x = c_ID c) f cs))) = length (filter P cs)"
  using assms(1,2)
proof (induction cs)
  case (Cons x xs)
  show ?case
  proof (cases "c = x")
    case True
    with Cons.prems have "update_where (\<lambda>x. c_ID x = c_ID c) f xs = xs"
      by (intro update_where_none) (auto simp: image_iff)
    with True assms(3,4) show ?thesis by (simp add: update_where_def)
  next
    case False
    with Cons.prems have "c_ID x \<noteq> c_ID c" by (auto simp: image_iff)
    with Cons False show ?thesis by (simp add: update_where_def)
  qed
qed simp

definition tload :: "database \<Rightarrow> nat" where
  \<comment> \<open>the same for all sessions together\<close>
  "tload d = length (filter (\<lambda>c. c_State c = ContinuationPending) (continuations d)) + openRules d"

definition settles :: "database \<Rightarrow> database \<Rightarrow> bool" where
  \<comment> \<open>work was done or no row changed, and no row was left running\<close>
  "settles d d' \<longleftrightarrow> (tload d' < tload d \<or> continuations d' = continuations d \<and> tload d' = tload d) \<and>
     (\<forall>x\<in>set (continuations d'). c_State x = ContinuationRunning \<longrightarrow> x \<in> set (continuations d))"

lemma settles_refl: "settles d d"
  by (simp add: settles_def)

lemma settles_trans: "settles d1 d2 \<Longrightarrow> settles d2 d3 \<Longrightarrow> settles d1 d3"
  unfolding settles_def by auto

definition progress :: "string \<Rightarrow> database \<Rightarrow> database \<Rightarrow> bool" where
  \<comment> \<open>a pending row of the session is kept or has become terminal; other rows are kept\<close>
  "progress sid d d' \<longleftrightarrow> (\<forall>c\<in>set (continuations d).
     c \<in> set (continuations d') \<or>
     c_SessionID c = sid \<and> c_State c = ContinuationPending \<and>
     (\<exists>c'\<in>set (continuations d'). c_ID c' = c_ID c \<and>
        c_State c' \<in> {ContinuationCompleted, ContinuationFailed}))"

lemma progress_refl: "continuations d' = continuations d \<Longrightarrow> progress sid d d'"
  by (simp add: progress_def)

lemma progress_trans: "progress sid d1 d2 \<Longrightarrow> progress sid d2 d3 \<Longrightarrow> progress sid d1 d3"
  unfolding progress_def by (metis (no_types, lifting) continuation_states_distinct insert_iff singletonD)

lemma progress_update:
  assumes dist: "distinct (map c_ID (continuations d))" and c: "c \<in> set (continuations d)"
    "c_SessionID c = sid" "c_State c = ContinuationPending"
    and d': "continuations d' = update_where (\<lambda>x. c_ID x = c_ID c) g (continuations d) @ new"
    and g: "c_ID (g c) = c_ID c" "c_State (g c) \<in> {ContinuationCompleted, ContinuationFailed}"
  shows "progress sid d d'"
  unfolding progress_def
proof
  fix x
  assume x: "x \<in> set (continuations d)"
  show "x \<in> set (continuations d') \<or> c_SessionID x = sid \<and> c_State x = ContinuationPending \<and>
    (\<exists>c'\<in>set (continuations d'). c_ID c' = c_ID x \<and> c_State c' \<in> {ContinuationCompleted, ContinuationFailed})"
  proof (cases "c_ID x = c_ID c")
    case True
    with dist x c have "x = c" by (auto simp: distinct_map dest: inj_onD)
    moreover have "g c \<in> set (continuations d')" using c(1) by (auto simp: d' set_update_where)
    ultimately show ?thesis using c g by (auto intro!: bexI [of _ "g c"])
  next
    case False
    with x show ?thesis by (force simp: d' set_update_where)
  qed
qed

lemma execRound_ready:
  assumes "ready w" and c: "c \<in> set (pendingOf sid (db w))"
    and claim: "ClaimContinuation (c_ID c) (w\<lparr>nfault := Suc (nfault w), nctx := Suc (nctx w)\<rparr>) = (Inr True, w1)"
    and run: "execute te ads c w1 = (Inr (), w')"
  shows "ready w' \<and> load sid (db w') < load sid (db w) \<and> progress sid (db w) (db w') \<and> settles (db w) (db w')"
proof -
  from assms(1) have ok: "healthy w" "wf_st w" "wf_bus (bus w)" "ctxErr w = (\<lambda>_. False)" "chainOneShot (db w)"
    by (auto simp: ready_def)
  let ?w0 = "w\<lparr>nfault := Suc (nfault w), nctx := Suc (nctx w)\<rparr>"
  let ?now = "clock w (nclock w)"
  let ?mark = "\<lambda>c. c\<lparr>c_State := ContinuationRunning, c_UpdatedAt := ?now\<rparr>"
  have d1: "db w1 = (db w)\<lparr>continuations := update_where (claimable (c_ID c)) ?mark (continuations (db w))\<rparr>"
    using Claim_Inr [OF claim] by simp
  have "ready w1"
    using ok d1 preservesD [OF wf_ClaimContinuation _ claim] Claim_Inr [OF claim] claim
    by (auto simp: ready_def chainOneShot_def ClaimContinuation_def Now_def bindE_def)
  from execute_ready [OF this run] obtain f new where r: "ready w'"
    and cs: "continuations (db w') = update_where (\<lambda>x. c_ID x = c_ID c) f (continuations (db w1)) @ new"
    and f: "\<And>x. c_ID (f x) = c_ID x \<and> c_SessionID (f x) = c_SessionID x \<and>
      c_State (f x) \<in> {ContinuationCompleted, ContinuationFailed}"
    and nr: "\<forall>x\<in>set new. c_State x \<noteq> ContinuationRunning"
    and o: "openRules (db w') + length new \<le> openRules (db w1)" by blast
  have dist: "distinct (map c_ID (continuations (db w)))"
    using wf_db_uniqD(4) [OF ok(2)] by (rule uniq_distinct) (simp add: conf_cont_def)
  have c': "c \<in> set (continuations (db w))" "c_SessionID c = sid" "c_State c = ContinuationPending"
    using c by (auto simp: pendingOf_def)
  let ?g = "\<lambda>x. f (if claimable (c_ID c) x then ?mark x else x)"
  have upd: "update_where (\<lambda>x. c_ID x = c_ID c) f (continuations (db w1)) =
      update_where (\<lambda>x. c_ID x = c_ID c) ?g (continuations (db w))"
    unfolding d1 by (auto simp: update_where_def claimable_def)
  have g: "c_State (?g x) \<noteq> ContinuationPending" "c_State (?g x) \<noteq> ContinuationRunning" for x
    using f by (metis continuation_states_distinct insert_iff singletonD)+
  have o1: "openRules (db w1) = openRules (db w)" by (simp add: d1 openRules_def)
  have len: "length (filter P (continuations (db w'))) < length (filter P (continuations (db w))) + length new"
    if "P c" "\<And>x. \<not> P (?g x)" for P :: "Continuation \<Rightarrow> bool"
  proof -
    have "length (filter P (continuations (db w'))) = length (filter P (update_where (\<lambda>x. c_ID x = c_ID c) ?g (continuations (db w)))) +
        length (filter P new)" by (simp only: cs upd filter_append length_append)
    moreover have "length (filter P new) \<le> length new" by simp
    moreover note filter_update [OF dist c'(1), of P ?g, OF that]
    ultimately show ?thesis by linarith
  qed
  have "load sid (db w') < load sid (db w)"
    using len [of "\<lambda>x. c_SessionID x = sid \<and> c_State x = ContinuationPending"] c' g(1) o o1
    by (simp add: load_def pendingOf_def)
  moreover have "tload (db w') < tload (db w)"
    using len [of "\<lambda>x. c_State x = ContinuationPending"] c' g(1) o o1 by (simp add: tload_def)
  moreover have "x \<in> set (continuations (db w))" if "x \<in> set (continuations (db w'))" "c_State x = ContinuationRunning" for x
    using that(1) unfolding cs upd set_append set_update_where
    using that(2) nr g(2) by (auto split: if_splits)
  moreover have "progress sid (db w) (db w')"
    using cs upd f by (intro progress_update [OF dist c', of _ ?g new]) simp_all
  ultimately show ?thesis using r by (simp add: settles_def)
qed

interpretation wl: bounded_loop "workerLoop te ads sid" "workerIter te ads sid" ready
    "\<lambda>w. load sid (db w)" "\<lambda>w w'. progress sid (db w) (db w') \<and> settles (db w) (db w')" "\<lambda>w. pendingOf sid (db w) = []"
    for te ads sid
proof unfold_locales
  show "workerLoop te ads sid s = (case workerIter te ads sid s of (r, t) \<Rightarrow>
      if r = Inr True then workerLoop te ads sid t else Some t)" for s
    by (rule workerLoop.simps)
  have *: "ready t \<and> (progress sid (db s) (db t) \<and> settles (db s) (db t)) \<and>
      (if r = Inr True then load sid (db t) < load sid (db s) else pendingOf sid (db t) = [])"
    if s: "ready s" and run: "workerIter te ads sid s = (r, t)" for s r t
  proof (cases rule: workerIter_cases [of te ads sid s])
    case (stop n w')
    with s run show ?thesis by (auto simp: ready_def progress_refl settles_refl)
  next
    case (retry c w')
    with s show ?thesis by (simp add: ready_def)
  next
    case (exec c w1 w')
    with run execRound_ready [OF s exec(2,4,5)] show ?thesis by simp
  qed
  show "ready t" if "ready s" "workerIter te ads sid s = (r, t)" for s r t
    using * that by blast
  show "load sid (db t) < load sid (db s)" if "ready s" "workerIter te ads sid s = (Inr True, t)" for s t
    using * [OF that] by simp
  show "progress sid (db s) (db t) \<and> settles (db s) (db t)" if "ready s" "workerIter te ads sid s = (r, t)" for s r t
    using * that by blast
  show "pendingOf sid (db t) = []" if "ready s" "workerIter te ads sid s = (r, t)" "r \<noteq> Inr True" for s r t
    using * [OF that(1,2)] that(3) by simp
qed (blast intro: progress_trans settles_trans)

text \<open>
  (C6) A worker drains its queue. When no statement fails, the daemon is not shutting down
  and the rules on result events are one-shot (so that no chain feeds itself for ever), the
  worker of a session returns whatever the agents answer. Then the session has nothing
  pending, every row that was pending for it when the worker started is completed or
  failed, the rows of other sessions are untouched, and the worker has left the worker
  table and signalled the dispatcher.
\<close>

theorem worker_drains:
  assumes "ready w"
  shows "\<exists>w'. worker te ads sid w = Some w' \<and> pendingOf sid (db w') = [] \<and>
    sid \<notin> workers w' \<and> wake w' \<and>
    (\<forall>c\<in>set (continuations (db w)).
       if c_SessionID c = sid \<and> c_State c = ContinuationPending
       then (\<exists>c'\<in>set (continuations (db w')). c_ID c' = c_ID c \<and>
         c_State c' \<in> {ContinuationCompleted, ContinuationFailed})
       else c \<in> set (continuations (db w')))"
proof -
  from wl.loop_returns [OF assms] obtain t where t: "workerLoop te ads sid w = Some t"
    "progress sid (db w) (db t)" "pendingOf sid (db t) = []" by blast
  have "c \<notin> set (continuations (db t))" if "c_SessionID c = sid" "c_State c = ContinuationPending" for c
    using t(3) that by (auto simp: pendingOf_def filter_empty_conv)
  with t show ?thesis
    by (auto simp: worker_def deregister_def progress_def pendingOf_def
        intro!: exI [of _ "t\<lparr>wake := True, workers := workers t - {sid}\<rparr>"])
qed

section \<open>Verdicts\<close>

text \<open>
  The verdict on an execution. A continuation is judged completed exactly when its
  session is registered, its agent has an adapter, the adapter reported no error and its
  exit code is 0; an execution that could not look up its session or find an adapter is
  judged failed without a run, with no exit code.
\<close>

theorem verdict_completed_iff:
  assumes "healthy w"
  shows "\<exists>v w'. bindE (execLookup ads c) (\<lambda>l. case l of Inl v \<Rightarrow> returnE v | Inr sa \<Rightarrow> execRun c sa) w = (Inr v, w') \<and>
    (case find (\<lambda>s. s_SessionID s = c_SessionID c) (sessions (db w)) of
       None \<Rightarrow> v_state v = ContinuationFailed \<and> v_exitCode v = None \<and> runs w' = runs w
     | Some sess \<Rightarrow> (case map_of (ads (length (runs w))) (s_Agent sess) of
         None \<Rightarrow> v_state v = ContinuationFailed \<and> v_exitCode v = None \<and> runs w' = runs w
       | Some ad \<Rightarrow> runs w' = runs w @ [(c, sess)] \<and>
           v_exitCode v = Some (res_ExitCode (fst (ad_Resume ad sess (c_Prompt c)))) \<and>
           (v_state v = ContinuationCompleted \<longleftrightarrow>
              snd (ad_Resume ad sess (c_Prompt c)) = None \<and>
              res_ExitCode (fst (ad_Resume ad sess (c_Prompt c))) = 0)))"
  using assms
  by (auto simp: execLookup_def GetSession_def execRun_def setState_def SetSessionState_def Now_def
      resume_def modify_def gets_def bindE_def tryE_def failure_def judge_def
      split: option.split prod.split)

section \<open>Starting workers\<close>

lemma spawnAll_set:
  assumes "spawnAll ss ws = (new, ws')"
  shows "distinct new \<and> set new = set ss - ws \<and> ws' = ws \<union> set ss"
  using assms
proof (induction ss arbitrary: ws new ws')
  case (Cons s ss)
  show ?case
  proof (cases "s \<in> ws")
    case True
    with Cons show ?thesis by fastforce
  next
    case False
    obtain new1 where n: "spawnAll ss (insert s ws) = (new1, ws')" "new = s # new1"
      using Cons.prems False by (auto split: prod.splits)
    from Cons.IH [OF n(1)] n(2) False show ?thesis by auto
  qed
qed simp

lemma PendingSessions_Inr:
  assumes "PendingSessions w = (Inr ss, w')"
  shows "distinct ss \<and> set ss = {sid. pendingOf sid (db w) \<noteq> []} \<and> w' = w\<lparr>nfault := Suc (nfault w)\<rparr>"
  using Query_Inr [OF assms [unfolded PendingSessions_def]]
  by (auto simp: pendingOf_def filter_empty_conv)

text \<open>
  The scan. Whatever the state, a scan returns, changes no table, and starts at most
  one worker per session, none for a session that has one, each for a session with pending
  work; the sessions started are exactly the ones registered. If its query does not fail,
  afterwards every session with pending work has a worker.
\<close>

theorem scan_one_worker_per_session:
  "\<exists>new w'. scan w = (Inr new, w') \<and> db w' = db w \<and> distinct new \<and>
     set new \<subseteq> {sid. pendingOf sid (db w) \<noteq> []} - workers w \<and>
     workers w' = workers w \<union> set new \<and>
     (case fst (PendingSessions w) of
        Inl e \<Rightarrow> new = []
      | Inr ss \<Rightarrow> {sid. pendingOf sid (db w) \<noteq> []} \<subseteq> workers w')"
proof -
  obtain r w1 where q: "PendingSessions w = (r, w1)" by (cases "PendingSessions w")
  show ?thesis
  proof (cases r)
    case (Inl e)
    then have "w1 = w\<lparr>nfault := Suc (nfault w)\<rparr>" using q by (auto simp: PendingSessions_def dest: Query_Inl)
    with q Inl show ?thesis by (simp add: scan_def tryE_def)
  next
    case (Inr ss)
    with q have ss: "distinct ss" "set ss = {sid. pendingOf sid (db w) \<noteq> []}" "w1 = w\<lparr>nfault := Suc (nfault w)\<rparr>"
      using PendingSessions_Inr [of w ss w1] by auto
    obtain new ws' where sp: "spawnAll ss (workers w) = (new, ws')" by (cases "spawnAll ss (workers w)")
    have "scan w = (Inr new, w1\<lparr>workers := ws'\<rparr>)"
      using q Inr ss(3) sp by (simp add: scan_def tryE_def gets_def modify_def bindE_def)
    with spawnAll_set [OF sp] ss q Inr show ?thesis by auto
  qed
qed

section \<open>A concrete dispatcher\<close>

definition exCont :: Continuation where
  "exCont = \<lparr>c_ID = ''cont-1'', c_RuleID = ''rule-2'', c_EventID = ''evt-0'', c_SessionID = ''s1'',
     c_Prompt = ''go'', c_Label = ''step-1'', c_State = ContinuationPending, c_Command = [],
     c_ExitCode = None, c_OutputSummary = [], c_CreatedAt = 3, c_UpdatedAt = 3\<rparr>"

definition exD :: drt where
  "exD = \<lparr>clock = (\<lambda>n. 10 + int n), nclock = 0, rand = of_nat, nrand = 0,
     db = exDB\<lparr>continuations := [exCont]\<rparr>, fault = (\<lambda>_. None), nfault = 0,
     bus = snd (Subscribe 4 NewBus), wake = False, pubs = [], workers = {''s1''},
     ctxErr = (\<lambda>_. False), nctx = 0, runs = []\<rparr>"

lemma exD_ready: "ready exD"
proof -
  have "wf_db (exDB\<lparr>continuations := [exCont]\<rparr>)" by code_simp
  moreover have "chainOneShot (exDB\<lparr>continuations := [exCont]\<rparr>)" by code_simp
  ultimately show ?thesis
    using wf_Subscribe [OF wf_NewBus, of 4] by (simp add: ready_def exD_def healthy_def)
qed

theorem worker_drains_witness:
  "\<exists>w'. worker exEngine (\<lambda>_. daemonRegistry (exProc 0)) ''s1'' exD = Some w' \<and>
     pendingOf ''s1'' (db w') = [] \<and> ''s1'' \<notin> workers w'"
  using worker_drains [OF exD_ready] by blast

theorem verdict_completed_iff_witness:
  "\<exists>v w'. bindE (execLookup (\<lambda>_. daemonRegistry (exProc 0)) exCont)
       (\<lambda>l. case l of Inl v \<Rightarrow> returnE v | Inr sa \<Rightarrow> execRun exCont sa) exD = (Inr v, w') \<and>
     v_state v = ContinuationCompleted"
proof -
  have "healthy exD" using exD_ready by (simp add: ready_def)
  moreover have "find (\<lambda>s. s_SessionID s = c_SessionID exCont) (sessions (db exD)) = Some exSession"
    by (simp add: exD_def exDB_def exCont_def exSession_def)
  moreover have "map_of (daemonRegistry (exProc 0)) (s_Agent exSession) = Some (Claude (exProc 0))"
    by (simp add: daemonRegistry_def exSession_def)
  moreover have "snd (ad_Resume (Claude (exProc 0)) exSession (c_Prompt exCont)) = None \<and>
      res_ExitCode (fst (ad_Resume (Claude (exProc 0)) exSession (c_Prompt exCont))) = 0"
    by (simp add: Claude_def ClaudeResume_def runCLI_def exProc_def Let_def)
  ultimately show ?thesis
    using verdict_completed_iff [of exD "\<lambda>_. daemonRegistry (exProc 0)" exCont] by force
qed

end
