(* ===== verification/Retention.thy ===== *)
theory Retention
  imports Ingest
begin

text \<open>
  The retention sweep of \<^verbatim>\<open>src/internal/store/retention.go\<close>, the daemon's
  fixed policy (\<^verbatim>\<open>src/internal/daemon/daemon.go\<close>), and the transition system
  of the store: every method call, with any outcome of its statements, is a step.
\<close>

section \<open>The sweep\<close>

record RetentionPolicy =
  SessionIdle :: duration
  ContinuationAge :: duration
  EventAge :: duration

record SweepResult =
  sw_Sessions :: nat
  sw_Continuations :: nat
  sw_Events :: nat

definition sweepSession :: "time \<Rightarrow> time \<Rightarrow> Rule list \<Rightarrow> Session \<Rightarrow> bool" where
  \<comment> \<open>the \<open>WHERE\<close> clause of the session prune\<close>
  "sweepSession now cutoff rs s \<longleftrightarrow> s_UpdatedAt s < cutoff \<and> s_State s \<noteq> SessionRunning \<and>
     s_SessionID s \<notin> set (map r_SessionID (filter (rule_active now) rs))"

definition sweepCont :: "time \<Rightarrow> Continuation \<Rightarrow> bool" where
  "sweepCont cutoff c \<longleftrightarrow> (c_State c = ContinuationCompleted \<or> c_State c = ContinuationFailed) \<and>
     c_UpdatedAt c < cutoff"

definition sweepEvent :: "time \<Rightarrow> Event \<Rightarrow> bool" where
  "sweepEvent cutoff e \<longleftrightarrow> ev_Timestamp e < cutoff"

definition Sweep :: "time \<Rightarrow> RetentionPolicy \<Rightarrow> ('z st, SweepResult) io" where
  "Sweep now p = with_tx (
     bindE (UpdateN (\<lambda>d. count_where (sweepSession now (now - SessionIdle p) (rules d)) (sessions d))
       (\<lambda>d. d\<lparr>sessions := delete_where (sweepSession now (now - SessionIdle p) (rules d)) (sessions d)\<rparr>)) (\<lambda>ns.
     bindE (UpdateN (\<lambda>d. count_where (sweepCont (now - ContinuationAge p)) (continuations d))
       (\<lambda>d. d\<lparr>continuations := delete_where (sweepCont (now - ContinuationAge p)) (continuations d)\<rparr>)) (\<lambda>nc.
     bindE (UpdateN (\<lambda>d. count_where (sweepEvent (now - EventAge p)) (events d))
       (\<lambda>d. d\<lparr>events := delete_where (sweepEvent (now - EventAge p)) (events d)\<rparr>)) (\<lambda>ne.
     returnE \<lparr>sw_Sessions = ns, sw_Continuations = nc, sw_Events = ne\<rparr>))))"

definition hour :: duration where
  "hour = 3600 * second"

definition daemonPolicy :: RetentionPolicy where
  \<comment> \<open>\<open>sessionIdleRetention\<close>, \<open>continuationRetention\<close>, \<open>eventRetention\<close>\<close>
  "daemonPolicy = \<lparr>SessionIdle = 7 * 24 * hour, ContinuationAge = 30 * 24 * hour,
     EventAge = 30 * 24 * hour\<rparr>"

definition sweepOnce :: "('z st, unit) io" where
  \<comment> \<open>errors and counts are only logged\<close>
  "sweepOnce = bindE Now (\<lambda>now. tryE (Sweep now daemonPolicy) (\<lambda>_. returnE ()))"

definition swept :: "time \<Rightarrow> RetentionPolicy \<Rightarrow> database \<Rightarrow> database" where
  \<comment> \<open>specification: what one sweep leaves\<close>
  "swept now p d = d\<lparr>
     sessions := filter (\<lambda>s. now - SessionIdle p \<le> s_UpdatedAt s \<or> s_State s = SessionRunning \<or>
       list_ex (\<lambda>r. r_SessionID r = s_SessionID s \<and> Active r now) (rules d)) (sessions d),
     continuations := filter (\<lambda>c. c_State c \<notin> {ContinuationCompleted, ContinuationFailed} \<or>
       now - ContinuationAge p \<le> c_UpdatedAt c) (continuations d),
     events := filter (\<lambda>e. now - EventAge p \<le> ev_Timestamp e) (events d)\<rparr>"

lemma rule_active_Active: "rule_active now r = Active r now"
  by (auto simp: rule_active_def Active_def split: option.splits)

lemma delete_sweeps:
  "delete_where (sweepSession now c rs) ss = filter (\<lambda>s. c \<le> s_UpdatedAt s \<or>
      s_State s = SessionRunning \<or> list_ex (\<lambda>r. r_SessionID r = s_SessionID s \<and> Active r now) rs) ss"
  "delete_where (sweepCont k) cs = filter (\<lambda>c. c_State c \<notin> {ContinuationCompleted, ContinuationFailed} \<or>
      k \<le> c_UpdatedAt c) cs"
  "delete_where (sweepEvent k) es = filter (\<lambda>e. k \<le> ev_Timestamp e) es"
  unfolding delete_where_def
  by (intro filter_cong; auto simp: sweepSession_def sweepCont_def sweepEvent_def rule_active_Active list_ex_iff image_iff)+

lemma Sweep_Inr:
  assumes "Sweep now p w = (Inr res, w')"
  shows "db w' = swept now p (db w) \<and>
    sw_Sessions res + length (sessions (db w')) = length (sessions (db w)) \<and>
    sw_Continuations res + length (continuations (db w')) = length (continuations (db w)) \<and>
    sw_Events res + length (events (db w')) = length (events (db w))"
proof -
  note n = delete_where_count [of "sweepSession now (now - SessionIdle p) (rules (db w))" "sessions (db w)"]
    delete_where_count [of "sweepCont (now - ContinuationAge p)" "continuations (db w)"]
    delete_where_count [of "sweepEvent (now - EventAge p)" "events (db w)"]
  from assms show ?thesis
    unfolding Sweep_def
    by (rule with_tx_success)
      (use n in \<open>auto simp: swept_def bindE_Inr_iff delete_sweeps dest!: UpdateN_Inr\<close>)
qed

lemma Sweep_healthy:
  assumes "healthy w"
  shows "\<exists>res w'. Sweep now p w = (Inr res, w') \<and> healthy w'"
  using assms by (simp add: Sweep_def with_tx_def Begin_def Commit_def bindE_def)

lemma wf_Sweep [wf_rules]: "preserves wf_st (Sweep now p)"
  unfolding Sweep_def
  by (intro wf_with_tx preserves_bind preserves_pure wf_UpdateN wf_sessions_delete
      wf_conts_delete wf_events_delete)

lemma wf_sweepOnce [wf_rules]: "preserves wf_st sweepOnce"
  unfolding sweepOnce_def by (intro preserves_bind preserves_try preserves_pure wf_Now wf_Sweep)

text \<open>
  (C25) What the sweep removes. A committed sweep leaves exactly the specification
  \<open>swept\<close>: sessions are removed only when idle past the window, not running and not
  referenced by an active rule; only terminal continuations past their age; only old
  events. Rules and watches are untouched, and the reported counts are the rows removed.
\<close>

theorem sweep_removes_only_expired:
  assumes "Sweep now p w = (Inr res, w')"
  shows "db w' = swept now p (db w) \<and>
    sw_Sessions res + length (sessions (db w')) = length (sessions (db w)) \<and>
    sw_Continuations res + length (continuations (db w')) = length (continuations (db w)) \<and>
    sw_Events res + length (events (db w')) = length (events (db w))"
  using assms by (rule Sweep_Inr)

lemma swept_idem: "swept now p (swept now p d) = swept now p d"
  by (simp add: swept_def)

text \<open>
  Nothing that is still owed is swept. Under any failures, a sweep keeps every
  pending and running continuation, every active rule and every session an active rule
  names.
\<close>

theorem sweep_keeps_owed_work:
  assumes "Sweep now p w = (r, w')"
  shows "(\<forall>c\<in>set (continuations (db w)). c_State c \<in> {ContinuationPending, ContinuationRunning} \<longrightarrow>
        c \<in> set (continuations (db w'))) \<and>
    rules (db w') = rules (db w) \<and>
    (\<forall>x\<in>set (rules (db w)). Active x now \<longrightarrow>
      (\<forall>s\<in>set (sessions (db w)). s_SessionID s = r_SessionID x \<longrightarrow> s \<in> set (sessions (db w'))))"
proof (cases r)
  case (Inl e)
  with assms have "db w' = db w" by (auto simp: Sweep_def dest: with_tx_error)
  then show ?thesis by simp
next
  case (Inr res)
  with assms have "db w' = swept now p (db w)" using Sweep_Inr by blast
  then show ?thesis by (auto simp: swept_def list_ex_iff)
qed

section \<open>Store calls as a transition system\<close>

text \<open>
  One rule per method that changes the tables, with its arguments as the callers choose
  them; the failure schedule, the clock and the random source of the state decide the
  outcome. The dispatcher records only terminal states.
\<close>

inductive store_call :: "'t template_engine \<Rightarrow> 'z st \<Rightarrow> 'z st \<Rightarrow> bool"
  for te :: "'t template_engine" where
  call_InsertEvent: "store_call te w (snd (InsertEvent ev w))"
| call_Ingest: "store_call te w (snd (Ingest te ev w))"
| call_PruneEvents: "store_call te w (snd (PruneEvents before w))"
| call_AddRule: "store_call te w (snd (AddRule r w))"
| call_RemoveRule: "store_call te w (snd (RemoveRule i w))"
| call_RegisterSession: "store_call te w (snd (RegisterSession s w))"
| call_SetSessionState: "store_call te w (snd (SetSessionState i st w))"
| call_Claim: "store_call te w (snd (ClaimContinuation i w))"
| call_Result: "st \<in> {ContinuationCompleted, ContinuationFailed} \<Longrightarrow>
    store_call te w (snd (UpdateContinuationResult i st cmd ec out w))"
| call_Reset: "store_call te w (snd (ResetRunningContinuations w))"
| call_Manual: "store_call te w (snd (InsertManualContinuation i prompt w))"
| call_AddWatch: "store_call te w (snd (AddWatch x w))"
| call_RemoveWatch: "store_call te w (snd (RemoveWatch i w))"
| call_Sweep: "store_call te w (snd (Sweep now p w))"

lemma wf_call: "preserves wf_st m \<Longrightarrow> wf_st w \<Longrightarrow> wf_st (snd (m w))"
  by (simp add: preserves_def)

lemma wf_store_call: "store_call te w w' \<Longrightarrow> wf_st w \<Longrightarrow> wf_st w'"
  by (induction rule: store_call.induct) (auto intro!: wf_call wf_rules)

definition fresh_store :: "'z st \<Rightarrow> bool" where
  "fresh_store w \<longleftrightarrow> db w = emptyDB"

interpretation stq: invariant_system fresh_store "store_call te" wf_st for te
  by unfold_locales (auto simp: fresh_store_def wf_emptyDB intro: wf_store_call)

text \<open>
  The schema invariant. Whatever calls are made on a new store and whichever of
  their statements fail: no two continuations share a pair (rule, event) or an identifier,
  every continuation is in one of the four declared states, only one-shot rules are ever
  consumed, and keys of events, rules, sessions and watches stay unique.
\<close>

theorem store_invariant:
  assumes "reach fresh_store (store_call te) w"
  shows "distinct (map (\<lambda>c. (c_RuleID c, c_EventID c)) (continuations (db w))) \<and>
    distinct (map c_ID (continuations (db w))) \<and>
    c_State ` set (continuations (db w)) \<subseteq> set continuation_states \<and>
    (\<forall>r\<in>set (rules (db w)). r_Consumed r \<longrightarrow> r_OneShot r) \<and>
    distinct (map ev_ID (events (db w))) \<and> distinct (map r_ID (rules (db w))) \<and>
    distinct (map s_SessionID (sessions (db w))) \<and>
    distinct (map (\<lambda>x. (w_Type x, w_Target x)) (watches (db w)))"
proof -
  have wf: "wf_st w" using assms by (rule stq.reach_inv)
  note u = wf_db_uniqD [OF wf]
  show ?thesis
    using wf uniq_distinct [OF u(1), of ev_ID] uniq_distinct [OF u(2), of r_ID] uniq_distinct [OF u(3), of s_SessionID]
      uniq_distinct [OF u(4), of c_ID] uniq_distinct [OF u(4), of "\<lambda>c. (c_RuleID c, c_EventID c)"]
      uniq_distinct [OF u(5), of "\<lambda>x. (w_Type x, w_Target x)"]
    by (auto simp: wf_db_def list_all_iff conf_event_def conf_rule_def conf_session_def
        conf_cont_def conf_watch_def)
qed

section \<open>A sweep that overtakes the dispatcher\<close>

text \<open>
  The session prune looks at rules, not at continuations: once a one-shot rule has fired
  it no longer protects its session. A session idle for more than the window whose
  pending continuation is not dispatched yet is therefore removed.
\<close>

text \<open>
  A sweep can remove the session a pending continuation is waiting for: when the
  session has been idle past the window, is not running and has no active rule, a
  committed sweep removes it while every pending continuation of it stays.
\<close>

theorem sweep_may_orphan_pending:
  assumes "Sweep now p w = (Inr res, w')"
    and "c \<in> set (continuations (db w))" and "c_State c = ContinuationPending"
    and "\<forall>s\<in>set (sessions (db w)). s_SessionID s = c_SessionID c \<longrightarrow>
      s_UpdatedAt s < now - SessionIdle p \<and> s_State s \<noteq> SessionRunning"
    and "\<forall>r\<in>set (rules (db w)). r_SessionID r = c_SessionID c \<longrightarrow> \<not> Active r now"
  shows "c \<in> set (continuations (db w')) \<and> find (\<lambda>s. s_SessionID s = c_SessionID c) (sessions (db w')) = None"
  using assms Sweep_Inr [OF assms(1)] by (auto simp: swept_def find_None_iff list_ex_iff)

section \<open>Witnesses\<close>

definition exOrphan :: Continuation where
  "exOrphan = \<lparr>c_ID = ''cont-1'', c_RuleID = ''rule-1'', c_EventID = ''evt-1'', c_SessionID = ''s1'',
     c_Prompt = ''go'', c_Label = ''step-1'', c_State = ContinuationPending, c_Command = [],
     c_ExitCode = None, c_OutputSummary = [], c_CreatedAt = 2, c_UpdatedAt = 2\<rparr>"

definition exOrphanDB :: database where
  \<comment> \<open>a one-shot rule has fired, its continuation is still pending\<close>
  "exOrphanDB = \<lparr>events = [exEvent], rules = [(exRule ''rule-1'' True)\<lparr>r_Consumed := True\<rparr>],
     sessions = [exSession], continuations = [exOrphan], watches = []\<rparr>"

abbreviation exOrphanW :: "database conn" where
  "exOrphanW \<equiv> exConn exOrphanDB (\<lambda>_. None)"

lemma exOrphanW_healthy: "healthy exOrphanW"
  by (simp add: healthy_def)

theorem sweep_removes_only_expired_witness:
  "\<exists>res w'. Sweep (40 * 24 * hour) daemonPolicy exOrphanW = (Inr res, w') \<and>
     db w' = swept (40 * 24 * hour) daemonPolicy exOrphanDB \<and> sw_Events res + length (events (db w')) = 1"
proof -
  obtain res w' where run: "Sweep (40 * 24 * hour) daemonPolicy exOrphanW = (Inr res, w')"
    using Sweep_healthy [OF exOrphanW_healthy] by blast
  have "length (events exOrphanDB) = 1" by (simp add: exOrphanDB_def)
  with sweep_removes_only_expired [OF run] run show ?thesis by auto
qed

theorem sweep_keeps_owed_work_witness:
  "exOrphan \<in> set (continuations (db (snd (Sweep (40 * 24 * hour) daemonPolicy exOrphanW))))"
proof -
  obtain r w' where run: "Sweep (40 * 24 * hour) daemonPolicy exOrphanW = (r, w')" by fastforce
  have "exOrphan \<in> set (continuations (db exOrphanW))" "c_State exOrphan = ContinuationPending"
    by (simp_all add: exOrphanDB_def exOrphan_def)
  with sweep_keeps_owed_work [OF run] run show ?thesis by auto
qed

theorem store_invariant_witness:
  "distinct (map (\<lambda>c. (c_RuleID c, c_EventID c)) (continuations (db
     (snd (Ingest exEngine exEvent (exConn emptyDB (\<lambda>_. None)))))))"
proof -
  have "reach fresh_store (store_call exEngine) (exConn emptyDB (\<lambda>_. None))"
    by (rule reach_init) (simp add: fresh_store_def)
  then have "reach fresh_store (store_call exEngine)
      (snd (Ingest exEngine exEvent (exConn emptyDB (\<lambda>_. None))))"
    by (rule reach_step) (rule store_call.call_Ingest)
  from store_invariant [OF this] show ?thesis by simp
qed

theorem sweep_may_orphan_pending_witness:
  "\<exists>res w'. Sweep (8 * 24 * hour) daemonPolicy exOrphanW = (Inr res, w') \<and>
     exOrphan \<in> set (continuations (db w')) \<and> find (\<lambda>s. s_SessionID s = ''s1'') (sessions (db w')) = None"
proof -
  obtain res w' where run: "Sweep (8 * 24 * hour) daemonPolicy exOrphanW = (Inr res, w')"
    using Sweep_healthy [OF exOrphanW_healthy] by blast
  have c: "exOrphan \<in> set (continuations (db exOrphanW))" "c_State exOrphan = ContinuationPending"
    "c_SessionID exOrphan = ''s1''"
    by (simp_all add: exOrphanDB_def exOrphan_def)
  have "\<forall>s\<in>set (sessions (db exOrphanW)). s_SessionID s = c_SessionID exOrphan \<longrightarrow>
      s_UpdatedAt s < 8 * 24 * hour - SessionIdle daemonPolicy \<and> s_State s \<noteq> SessionRunning"
    by (simp add: exOrphanDB_def exSession_def daemonPolicy_def hour_def second_def)
  moreover have "\<forall>r\<in>set (rules (db exOrphanW)). r_SessionID r = c_SessionID exOrphan \<longrightarrow>
      \<not> Active r (8 * 24 * hour)"
    by (simp add: exOrphanDB_def exRule_def Active_def)
  ultimately show ?thesis
    using sweep_may_orphan_pending [OF run c(1,2)] run unfolding c(3) by blast
qed

end
