(* ===== verification/Workers.thy ===== *)
theory Workers
  imports Dispatch Retention
begin

text \<open>
  The dispatcher with all its goroutines: the workers of different sessions, the scan
  loop, the RPC handlers, the watchers and the retention sweep interleave. The atomic
  steps are the segments of theory \<open>Dispatch\<close> (at most one store call or transaction
  each: the store has one connection), so a worker may be overtaken between the query for
  its next continuation and the claim, during the agent run, and between recording the
  result and emitting it. A restart of the daemon loses every goroutine and runs the boot
  recovery.

  Goroutines are a list: that no session has two workers and no continuation two
  executions is proved, not built in.
\<close>

section \<open>Goroutines\<close>

datatype phase =
    PLoop
  | PClaim Continuation
  | PLookup Continuation
  | PStart Continuation Session Adapter
  | PRun Continuation Session Adapter
  | PEnd Continuation Session verdict
  | PFinish Continuation verdict
  | PEmit Continuation verdict
  | PExit

record 'z sys =
  world :: "'z ds"
  gs :: "(string \<times> phase) list"

fun gstep :: "'t template_engine \<Rightarrow> adapters \<Rightarrow> string \<Rightarrow> phase \<Rightarrow> 'z ds \<Rightarrow> phase option \<times> 'z ds" where
  \<comment> \<open>the next segment of a worker; \<open>None\<close>: the goroutine has ended\<close>
  "gstep te ads sid PLoop w = (case CtxErr w of
     (Inr False, w1) \<Rightarrow> (case NextPendingForSession sid w1 of
        (Inr (Some c), w2) \<Rightarrow> (Some (PClaim c), w2)
      | (_, w2) \<Rightarrow> (Some PExit, w2))
   | (_, w1) \<Rightarrow> (Some PExit, w1))"
| "gstep te ads sid (PClaim c) w = (case ClaimContinuation (c_ID c) w of
     (r, w1) \<Rightarrow> (Some (if r = Inr True then PLookup c else PLoop), w1))"
| "gstep te ads sid (PLookup c) w = (case execLookup ads c w of
     (Inr (Inl v), w1) \<Rightarrow> (Some (PFinish c v), w1)
   | (Inr (Inr (sess, ad)), w1) \<Rightarrow> (Some (PStart c sess ad), w1)
   | (Inl e, w1) \<Rightarrow> (Some PExit, w1))"
| "gstep te ads sid (PStart c sess ad) w =
     (Some (PRun c sess ad), snd (setState (s_SessionID sess) SessionRunning w))"
| "gstep te ads sid (PRun c sess ad) w =
     (Some (PEnd c sess (judge (ad_Resume ad sess (c_Prompt c)))), snd (resume ad c sess w))"
| "gstep te ads sid (PEnd c sess v) w =
     (Some (PFinish c v), snd (setState (s_SessionID sess) SessionWaiting w))"
| "gstep te ads sid (PFinish c v) w = (case CtxErr w of
     (Inr False, w1) \<Rightarrow> (Some (PEmit c v), snd (recordResult c v w1))
   | (_, w1) \<Rightarrow> (Some PLoop, w1))"
| "gstep te ads sid (PEmit c v) w = (Some PLoop, snd (emitResult te c v w))"
| "gstep te ads sid PExit w = (None, deregister sid w)"

inductive ext_call :: "'t template_engine \<Rightarrow> 'z ds \<Rightarrow> 'z ds \<Rightarrow> bool"
  for te :: "'t template_engine" where
  \<comment> \<open>what the rest of the daemon does: RPC handlers, watchers, the sweep\<close>
  ext_ingest: "ext_call te w (snd (EngineIngest te ev w))"
| ext_AddRule: "ext_call te w (snd (AddRule r w))"
| ext_RemoveRule: "ext_call te w (snd (RemoveRule i w))"
| ext_RegisterSession: "ext_call te w (snd (RegisterSession s w))"
| ext_Manual: "ext_call te w (snd (InsertManualContinuation i prompt w))"
| ext_AddWatch: "ext_call te w (snd (AddWatch x w))"
| ext_RemoveWatch: "ext_call te w (snd (RemoveWatch i w))"
| ext_sweep: "ext_call te w (snd (sweepOnce w))"

inductive sys_step :: "'t template_engine \<Rightarrow> adapters \<Rightarrow> 'z sys \<Rightarrow> 'z sys \<Rightarrow> bool"
  for te :: "'t template_engine" and ads :: adapters where
  sys_worker: "gs s = xs @ (sid, ph) # ys \<Longrightarrow> gstep te ads sid ph (world s) = (q, w') \<Longrightarrow>
    sys_step te ads s (s\<lparr>world := w', gs := xs @ (case q of None \<Rightarrow> [] | Some ph' \<Rightarrow> [(sid, ph')]) @ ys\<rparr>)"
| sys_scan: "scan (world s) = (Inr new, w') \<Longrightarrow>
    sys_step te ads s (s\<lparr>world := w', gs := gs s @ map (\<lambda>i. (i, PLoop)) new\<rparr>)"
| sys_ext: "ext_call te (world s) w' \<Longrightarrow> sys_step te ads s (s\<lparr>world := w'\<rparr>)"

definition restart :: "'z sys \<Rightarrow> 'z sys" where
  "restart s = s\<lparr>world := snd (bootRecovery ((world s)\<lparr>workers := {}\<rparr>)), gs := []\<rparr>"

definition sys_any :: "'t template_engine \<Rightarrow> adapters \<Rightarrow> 'z sys \<Rightarrow> 'z sys \<Rightarrow> bool" where
  "sys_any te ads s t \<longleftrightarrow> sys_step te ads s t \<or> t = restart s"

definition sys_init :: "'z sys \<Rightarrow> bool" where
  "sys_init s \<longleftrightarrow> db (world s) = emptyDB \<and> bus (world s) = NewBus \<and> workers (world s) = {} \<and> gs s = []"

section \<open>What each segment does to the tables\<close>

abbreviation conts :: "'z ds \<Rightarrow> Continuation list" where
  "conts w \<equiv> continuations (db w)"

definition idle :: "Continuation list \<Rightarrow> string set \<Rightarrow> 'z ds \<Rightarrow> bool" where
  "idle C W w \<longleftrightarrow> conts w = C \<and> workers w = W"

interpretation idk: segment_kept "idle C W" for C W
  by unfold_locales (auto simp: idle_def)

lemma idle_NextPending: "preserves (idle C W) (NextPendingForSession sid)"
  unfolding NextPendingForSession_def by (rule idk.kept_Query)

lemma idleD:
  assumes "\<And>C W. preserves (idle C W) m" and "m w = (r, w')"
  shows "conts w' = conts w \<and> workers w' = workers w"
proof -
  have "idle (conts w) (workers w) w" by (simp add: idle_def)
  from preservesD [OF assms(1) this assms(2)] show ?thesis by (simp add: idle_def)
qed

lemma claim_step:
  assumes "ClaimContinuation i w = (r, w')"
  shows "workers w' = workers w \<and> bus w' = bus w \<and>
    (conts w' = conts w \<and> r \<noteq> Inr True \<or>
     (\<exists>t. conts w' = update_where (claimable i) (\<lambda>c. c\<lparr>c_State := ContinuationRunning, c_UpdatedAt := t\<rparr>) (conts w)) \<and>
     (r = Inr True \<longleftrightarrow> count_where (claimable i) (conts w) = 1))"
proof (cases r)
  case (Inr k)
  with assms have "ClaimContinuation i w = (Inr k, w')" by simp
  moreover from assms have "workers w' = workers w"
    by (auto simp: ClaimContinuation_def Now_def UpdateN_def Exec_def bindE_def
        split: option.splits sum.splits prod.splits)
  ultimately show ?thesis using Claim_Inr Inr by fastforce
next
  case (Inl e)
  with assms show ?thesis
    by (auto simp: ClaimContinuation_def Now_def UpdateN_def Exec_def bindE_def returnE_def
        split: option.splits sum.splits prod.splits)
qed

lemma record_step:
  assumes "recordResult c v w = (r, w')"
  shows "workers w' = workers w \<and> bus w' = bus w \<and>
    (conts w' = conts w \<or>
     conts w' = update_where (\<lambda>x. c_ID x = c_ID c)
       (\<lambda>x. x\<lparr>c_State := v_state v, c_Command := v_command v, c_ExitCode := v_exitCode v,
          c_OutputSummary := v_summary v, c_UpdatedAt := clock w (nclock w)\<rparr>) (conts w))"
  using assms
  by (auto simp: recordResult_def UpdateContinuationResult_def Now_def Update_def Exec_def bindE_def tryE_def
      split: option.splits sum.splits prod.splits)

lemma workers_EngineIngest: "preserves (\<lambda>w. workers w = W) (EngineIngest te ev)"
  by (intro preserves_EngineIngest preserves_Ingest_frame) auto

lemma engine_grows:
  fixes w :: "'z ds"
  assumes "wf_st w" and "wf_bus (bus w)" and run: "EngineIngest te ev w = (r, w')"
  shows "\<exists>new. conts w' = conts w @ new"
  using assms(2)
proof (cases rule: EngineIngest_cases [of w te ev])
  case (failed e w'')
  with run show ?thesis by simp
next
  case (committed ev' w1 res w2 b w'')
  have "wf_st w1" using assms(1) committed(3) by simp
  from Ingest_Inr [OF committed(4) this] committed run show ?thesis by simp
qed

lemma emit_step:
  fixes w :: "'z ds"
  assumes "wf_st w" and "wf_bus (bus w)" and "emitResult te c v w = (r, w')"
  shows "workers w' = workers w \<and> (\<exists>new. conts w' = conts w @ new)"
proof -
  obtain q where e: "EngineIngest te (resultEvent c v) w = (q, w')"
    using assms(3) by (auto simp: emitResult_def tryE_def split: prod.splits)
  from preservesD [OF workers_EngineIngest refl e] engine_grows [OF assms(1,2) e] show ?thesis by simp
qed

section \<open>The invariant\<close>

definition owed :: "Continuation \<Rightarrow> bool" where
  "owed c \<longleftrightarrow> c_State c = ContinuationPending \<or> c_State c = ContinuationRunning"

fun expects :: "phase \<Rightarrow> (Continuation \<times> ContinuationState) option" where
  \<comment> \<open>the row a worker is responsible for, and its state\<close>
  "expects (PClaim c) = Some (c, ContinuationPending)"
| "expects (PLookup c) = Some (c, ContinuationRunning)"
| "expects (PStart c sess ad) = Some (c, ContinuationRunning)"
| "expects (PRun c sess ad) = Some (c, ContinuationRunning)"
| "expects (PEnd c sess v) = Some (c, ContinuationRunning)"
| "expects (PFinish c v) = Some (c, ContinuationRunning)"
| "expects _ = None"

fun verdict_ok :: "phase \<Rightarrow> bool" where
  "verdict_ok (PEnd c sess v) = (v_state v \<in> {ContinuationCompleted, ContinuationFailed})"
| "verdict_ok (PFinish c v) = (v_state v \<in> {ContinuationCompleted, ContinuationFailed})"
| "verdict_ok _ = True"

definition responsible :: "Continuation list \<Rightarrow> string \<times> phase \<Rightarrow> bool" where
  "responsible cs g \<longleftrightarrow> verdict_ok (snd g) \<and> (\<forall>c st. expects (snd g) = Some (c, st) \<longrightarrow>
     c_SessionID c = fst g \<and> (\<exists>x\<in>set cs. c_ID x = c_ID c \<and> c_SessionID x = fst g \<and> c_State x = st))"

definition sys_inv :: "'z sys \<Rightarrow> bool" where
  "sys_inv s \<longleftrightarrow> wf_st (world s) \<and> wf_bus (bus (world s)) \<and> distinct (map fst (gs s)) \<and>
     fst ` set (gs s) = workers (world s) \<and> (\<forall>g\<in>set (gs s). responsible (conts (world s)) g)"

definition keeps :: "(Continuation \<Rightarrow> bool) \<Rightarrow> Continuation list \<Rightarrow> Continuation list \<Rightarrow> bool" where
  \<comment> \<open>the owed rows that satisfy \<open>P\<close> are untouched\<close>
  "keeps P cs cs' \<longleftrightarrow> (\<forall>c\<in>set cs. owed c \<and> P c \<longrightarrow> c \<in> set cs')"

lemma responsible_keeps:
  assumes "responsible cs g" and "keeps P cs cs'" and "\<And>x. c_SessionID x = fst g \<Longrightarrow> P x"
  shows "responsible cs' g"
proof -
  have "owed x" if "expects (snd g) = Some (c, c_State x)" for c x
    using that by (cases "snd g") (auto simp: owed_def)
  with assms show ?thesis unfolding responsible_def keeps_def by metis
qed

lemma keeps_append: "keeps P cs (cs @ new)" and keeps_refl: "keeps P cs cs"
  by (simp_all add: keeps_def)

lemma keeps_update:
  "(\<And>x. x \<in> set cs \<Longrightarrow> Q x \<Longrightarrow> \<not> P x) \<Longrightarrow> keeps P cs (update_where Q f cs)"
  by (force simp: keeps_def set_update_where)

lemma wf_row_unique:
  assumes "wf_st w" and "x \<in> set (conts w)" and "y \<in> set (conts w)" and "c_ID x = c_ID y"
  shows "x = y"
  using tco.uniq_determines [OF wf_db_uniqD(4) [OF assms(1)] assms(2,3)] assms(4)
  by (simp add: conf_cont_def)

text \<open>The life of a continuation: the legal transitions of its row.\<close>

definition same_job :: "Continuation \<Rightarrow> Continuation \<Rightarrow> bool" where
  "same_job c c' \<longleftrightarrow> c_ID c' = c_ID c \<and> c_RuleID c' = c_RuleID c \<and> c_EventID c' = c_EventID c \<and>
     c_SessionID c' = c_SessionID c \<and> c_Prompt c' = c_Prompt c \<and> c_Label c' = c_Label c"

definition legal :: "ContinuationState \<Rightarrow> ContinuationState \<Rightarrow> bool" where
  "legal st st' \<longleftrightarrow> st' = st \<or> st = ContinuationPending \<and> st' = ContinuationRunning \<or>
     st = ContinuationRunning \<and> st' \<in> {ContinuationCompleted, ContinuationFailed}"

definition evolves :: "Continuation list \<Rightarrow> Continuation list \<Rightarrow> bool" where
  \<comment> \<open>every row is kept along a legal transition, or it was terminal and is removed\<close>
  "evolves cs cs' \<longleftrightarrow> (\<forall>c\<in>set cs. (\<exists>c'\<in>set cs'. same_job c c' \<and> legal (c_State c) (c_State c')) \<or>
     \<not> owed c \<and> c_ID c \<notin> c_ID ` set cs')"

lemma evolves_append: "evolves cs (cs @ new)" and evolves_refl: "evolves cs cs"
  by (auto simp: evolves_def same_job_def legal_def)

lemma evolves_update:
  assumes "\<And>x. x \<in> set cs \<Longrightarrow> Q x \<Longrightarrow> same_job x (f x) \<and> legal (c_State x) (c_State (f x))"
  shows "evolves cs (update_where Q f cs)"
  unfolding evolves_def
proof
  fix c
  assume c: "c \<in> set cs"
  then have "(if Q c then f c else c) \<in> set (update_where Q f cs)" by (simp add: set_update_where)
  moreover have "same_job c c" "legal (c_State c) (c_State c)" by (simp_all add: same_job_def legal_def)
  ultimately show "(\<exists>c'\<in>set (update_where Q f cs). same_job c c' \<and> legal (c_State c) (c_State c')) \<or>
    \<not> owed c \<and> c_ID c \<notin> c_ID ` set (update_where Q f cs)"
    using assms [OF c] by (cases "Q c") (simp_all, blast+)
qed

section \<open>One segment of a worker\<close>

definition effect :: "string \<Rightarrow> 'z ds \<Rightarrow> 'z ds \<Rightarrow> phase option \<Rightarrow> bool" where
  "effect sid w w' q \<longleftrightarrow> wf_st w' \<and> wf_bus (bus w') \<and>
     keeps (\<lambda>c. c_SessionID c \<noteq> sid) (conts w) (conts w') \<and> evolves (conts w) (conts w') \<and>
     (case q of None \<Rightarrow> workers w' = workers w - {sid}
      | Some ph \<Rightarrow> workers w' = workers w \<and> responsible (conts w') (sid, ph))"

lemma quietD:
  assumes "preserves wf_st m" and "preserves (\<lambda>w. wf_bus (bus w)) m" and "\<And>C W. preserves (idle C W) m"
    and "m w = (r, w')" and "wf_st w" and "wf_bus (bus w)"
  shows "wf_st w' \<and> wf_bus (bus w') \<and> conts w' = conts w \<and> workers w' = workers w"
  using preservesD [OF assms(1,5,4)] preservesD [OF assms(2,6,4)] idleD [OF assms(3,4)] by blast

lemmas quiet_CtxErr = quietD [OF wfk.kept_CtxErr busk.kept_CtxErr idk.kept_CtxErr]
  and quiet_execLookup = quietD [OF wfk.kept_execLookup busk.kept_execLookup idk.kept_execLookup]
  and quiet_setState = quietD [OF wfk.kept_setState busk.kept_setState idk.kept_setState prod.collapse [symmetric]]
  and quiet_resume = quietD [OF wfk.kept_resume busk.kept_resume idk.kept_resume prod.collapse [symmetric]]
  and quiet_Query = quietD [OF wfk.kept_Query busk.kept_Query idk.kept_Query]

lemma effect_quiet:
  assumes "wf_st w' \<and> wf_bus (bus w') \<and> conts w' = conts w \<and> workers w' = workers w"
    and "responsible (conts w) (sid, ph)"
  shows "effect sid w w' (Some ph)"
  using assms by (simp add: effect_def keeps_refl evolves_refl)

lemma responsible_trivial [simp]:
  "responsible cs (sid, PLoop)" "responsible cs (sid, PExit)" "responsible cs (sid, PEmit c v)"
  by (simp_all add: responsible_def)

lemma responsible_next:
  "responsible cs (sid, ph) \<Longrightarrow> expects ph' = expects ph \<Longrightarrow> verdict_ok ph' \<Longrightarrow> responsible cs (sid, ph')"
  by (simp add: responsible_def)

lemma effect_PLoop:
  assumes "gstep te ads sid PLoop w = (q, w')" and "wf_st w" and "wf_bus (bus w)"
  shows "effect sid w w' q"
proof -
  obtain b w1 where b: "CtxErr w = (Inr b, w1)" by (simp add: CtxErr_def)
  note w1 = quiet_CtxErr [OF b assms(2,3)]
  obtain r w2 where r: "NextPendingForSession sid w1 = (r, w2)" by (cases "NextPendingForSession sid w1")
  have w2: "wf_st w2 \<and> wf_bus (bus w2) \<and> conts w2 = conts w1 \<and> workers w2 = workers w1"
    using quiet_Query [OF r [unfolded NextPendingForSession_def]] w1 by blast
  show ?thesis
  proof (cases "\<exists>c. \<not> b \<and> r = Inr (Some c)")
    case True
    then obtain c where c: "\<not> b" "r = Inr (Some c)" by blast
    with r have "c \<in> set (pendingOf sid (db w1))" using NextPending_Some by blast
    then have "responsible (conts w) (sid, PClaim c)" using w1 by (auto simp: responsible_def pendingOf_def)
    with assms(1) b c r w1 w2 show ?thesis by (auto intro: effect_quiet)
  next
    case False
    then have "q = Some PExit \<and> (w' = w1 \<or> w' = w2)"
      using assms(1) b r by (cases b; cases r) (auto split: option.splits)
    with w1 w2 show ?thesis by (auto intro: effect_quiet)
  qed
qed

lemma effect_PClaim:
  assumes "gstep te ads sid (PClaim c) w = (q, w')" and wf: "wf_st w" and "wf_bus (bus w)"
    and "responsible (conts w) (sid, PClaim c)"
  shows "effect sid w w' q"
proof -
  obtain r where r: "ClaimContinuation (c_ID c) w = (r, w')"
    and q: "q = Some (if r = Inr True then PLookup c else PLoop)"
    using assms(1) by (auto split: prod.splits)
  from assms(4) obtain x where x: "x \<in> set (conts w)" "c_ID x = c_ID c" "c_SessionID x = sid"
    "c_State x = ContinuationPending" and cs: "c_SessionID c = sid" by (auto simp: responsible_def)
  note st = claim_step [OF r]
  have ok: "wf_st w'" "wf_bus (bus w')" "workers w' = workers w"
    using preservesD [OF wf_ClaimContinuation wf r] st assms(3) by auto
  show ?thesis
  proof (cases "conts w' = conts w \<and> r \<noteq> Inr True")
    case True
    with ok q show ?thesis by (auto intro: effect_quiet)
  next
    case False
    with st obtain t where t: "conts w' = update_where (claimable (c_ID c))
        (\<lambda>c. c\<lparr>c_State := ContinuationRunning, c_UpdatedAt := t\<rparr>) (conts w)" by blast
    have own: "y = x" if "y \<in> set (conts w)" "claimable (c_ID c) y" for y
      using that x wf_row_unique [OF wf] by (simp add: claimable_def)
    have "keeps (\<lambda>c. c_SessionID c \<noteq> sid) (conts w) (conts w')"
      unfolding t using own x by (intro keeps_update) blast
    moreover have "evolves (conts w) (conts w')"
      unfolding t by (rule evolves_update) (simp add: same_job_def legal_def claimable_def)
    moreover have "x\<lparr>c_State := ContinuationRunning, c_UpdatedAt := t\<rparr> \<in> set (conts w')"
      using x unfolding t by (auto simp: set_update_where claimable_def image_iff intro!: bexI [of _ x])
    then have "responsible (conts w') (sid, PLookup c)"
      using x cs by (auto simp: responsible_def
          intro!: bexI [of _ "x\<lparr>c_State := ContinuationRunning, c_UpdatedAt := t\<rparr>"])
    ultimately show ?thesis using ok q by (auto simp: effect_def)
  qed
qed

lemma effect_PFinish:
  assumes "gstep te ads sid (PFinish c v) w = (q, w')" and wf: "wf_st w" and "wf_bus (bus w)"
    and resp: "responsible (conts w) (sid, PFinish c v)"
  shows "effect sid w w' q"
proof -
  obtain b w1 where b: "CtxErr w = (Inr b, w1)" by (simp add: CtxErr_def)
  note w1 = quiet_CtxErr [OF b assms(2,3)]
  show ?thesis
  proof (cases b)
    case True
    with assms(1) b w1 show ?thesis by (auto intro: effect_quiet)
  next
    case False
    then obtain r where r: "recordResult c v w1 = (r, w')" and q: "q = Some (PEmit c v)"
      using assms(1) b by (cases "recordResult c v w1") auto
    from resp have vt: "v_state v \<in> {ContinuationCompleted, ContinuationFailed}"
      by (simp add: responsible_def)
    from resp obtain x where x: "x \<in> set (conts w)" "c_ID x = c_ID c" "c_SessionID x = sid"
      "c_State x = ContinuationRunning" by (auto simp: responsible_def)
    have own: "y = x" if "y \<in> set (conts w)" "c_ID y = c_ID c" for y
      using that x wf_row_unique [OF wf] by simp
    have "keeps (\<lambda>c. c_SessionID c \<noteq> sid) (conts w) (update_where (\<lambda>x. c_ID x = c_ID c) f (conts w))" for f
      using own x by (intro keeps_update) blast
    moreover have "evolves (conts w) (update_where (\<lambda>x. c_ID x = c_ID c)
        (\<lambda>x. x\<lparr>c_State := v_state v, c_Command := cmd, c_ExitCode := ec, c_OutputSummary := out, c_UpdatedAt := t\<rparr>) (conts w))"
      for cmd ec out t
      by (rule evolves_update) (use own x vt in \<open>auto simp: same_job_def legal_def\<close>)
    moreover have "wf_st w'" "wf_bus (bus w')"
      using preservesD [OF wfk.kept_record [OF vt] _ r] preservesD [OF busk.kept_record [OF vt] _ r] w1 by auto
    ultimately show ?thesis
      using record_step [OF r] w1 q by (auto simp: effect_def keeps_refl evolves_refl)
  qed
qed

lemma gstep_effect:
  assumes "gstep te ads sid ph w = (q, w')" and "wf_st w" and "wf_bus (bus w)"
    and "responsible (conts w) (sid, ph)"
  shows "effect sid w w' q"
proof (cases ph)
  case PLoop
  with assms effect_PLoop show ?thesis by blast
next
  case (PClaim c)
  with assms effect_PClaim show ?thesis by blast
next
  case (PLookup c)
  obtain l w1 where l: "execLookup ads c w = (Inr l, w1)" using totalD [OF total_execLookup] by blast
  note w1 = quiet_execLookup [OF l assms(2,3)]
  show ?thesis
  proof (cases l)
    case (Inl v)
    with l execLookup_verdict have "v_state v = ContinuationFailed" by blast
    with responsible_next [OF assms(4), of "PFinish c v"] Inl l PLookup assms(1) w1 show ?thesis
      by (auto intro!: effect_quiet)
  next
    case (Inr sa)
    with l PLookup assms(1) w1 show ?thesis
      by (cases sa) (auto intro!: effect_quiet responsible_next [OF assms(4)])
  qed
next
  case (PStart c sess ad)
  with assms(1) quiet_setState [OF assms(2,3)] show ?thesis
    by (auto intro!: effect_quiet responsible_next [OF assms(4)])
next
  case (PRun c sess ad)
  have "verdict_ok (PEnd c sess (judge (ad_Resume ad sess (c_Prompt c))))" using v_state_judge by simp
  from responsible_next [OF assms(4) _ this] PRun assms(1) quiet_resume [OF assms(2,3)] show ?thesis
    by (auto intro!: effect_quiet)
next
  case (PEnd c sess v)
  with assms(4) have "v_state v \<in> {ContinuationCompleted, ContinuationFailed}" by (simp add: responsible_def)
  with responsible_next [OF assms(4), of "PFinish c v"] PEnd assms(1) quiet_setState [OF assms(2,3)]
  show ?thesis by (auto intro!: effect_quiet)
next
  case (PFinish c v)
  with assms effect_PFinish show ?thesis by blast
next
  case (PEmit c v)
  then obtain r where r: "emitResult te c v w = (r, w')" and q: "q = Some PLoop"
    using assms(1) by (cases "emitResult te c v w") auto
  from emit_step [OF assms(2,3) r] preservesD [OF wfk.kept_emitResult assms(2) r]
    preservesD [OF busk.kept_emitResult assms(3) r] q show ?thesis
    by (auto simp: effect_def keeps_append evolves_append)
next
  case PExit
  with assms show ?thesis by (auto simp: effect_def deregister_def keeps_refl evolves_refl)
qed

section \<open>Steps of the rest of the daemon\<close>

lemma frame_of:
  assumes "\<And>C W. preserves (idle C W) m" and "preserves wf_st m" and "preserves (\<lambda>w. wf_bus (bus w)) m"
    and "wf_st w" and "wf_bus (bus w)"
  shows "wf_st (snd (m w)) \<and> wf_bus (bus (snd (m w))) \<and> workers (snd (m w)) = workers w \<and>
    keeps P (conts w) (conts (snd (m w))) \<and> evolves (conts w) (conts (snd (m w)))"
  using quietD [OF assms(2,3,1) prod.collapse [symmetric] assms(4,5)]
  by (simp add: keeps_refl evolves_refl)

lemma side_Exec:
  assumes "\<And>d x d'. stmt d = (Inr x, d') \<Longrightarrow> continuations d' = continuations d"
  shows "preserves (idle C W) (Exec stmt)" "preserves (\<lambda>w :: 'z ds. wf_bus (bus w)) (Exec stmt)"
  using assms by (auto intro!: preserves_Exec simp: idle_def)

lemma side_rest:
  "preserves (idle C W) Now" "preserves (idle C W) (NewID p)"
  "preserves (\<lambda>w :: 'z ds. wf_bus (bus w)) Now" "preserves (\<lambda>w :: 'z ds. wf_bus (bus w)) (NewID p)"
  by (auto intro!: preserves_Now preserves_NewID simp: idle_def)

lemma sweep_step:
  fixes w :: "'z ds"
  assumes "wf_st w" and "Sweep now p w = (r, w')"
  shows "workers w' = workers w \<and> bus w' = bus w \<and> keeps P (conts w) (conts w') \<and> evolves (conts w) (conts w')"
proof -
  have "preserves (\<lambda>w :: 'z ds. workers w = W \<and> bus w = B) (Sweep now p)" for W B
    unfolding Sweep_def UpdateN_def by (intro preserves_rules) auto
  from preservesD [OF this _ assms(2), of "workers w" "bus w"]
  have fr: "workers w' = workers w" "bus w' = bus w" by auto
  show ?thesis
  proof (cases r)
    case (Inl e)
    with assms(2) have "db w' = db w" by (auto simp: Sweep_def dest: with_tx_error)
    with fr show ?thesis by (simp add: keeps_refl evolves_refl)
  next
    case (Inr res)
    with assms(2) have "db w' = swept now p (db w)" using Sweep_Inr by blast
    then have c: "conts w' = filter (\<lambda>c. c_State c \<notin> {ContinuationCompleted, ContinuationFailed} \<or>
        now - ContinuationAge p \<le> c_UpdatedAt c) (conts w)" by (simp add: swept_def)
    have "evolves (conts w) (conts w')"
      unfolding evolves_def
    proof
      fix x
      assume x: "x \<in> set (conts w)"
      show "(\<exists>c'\<in>set (conts w'). same_job x c' \<and> legal (c_State x) (c_State c')) \<or>
        \<not> owed x \<and> c_ID x \<notin> c_ID ` set (conts w')"
      proof (cases "x \<in> set (conts w')")
        case True
        then show ?thesis by (auto simp: same_job_def legal_def)
      next
        case False
        then have "c_ID x \<notin> c_ID ` set (conts w')"
          using x wf_row_unique [OF assms(1) x] by (auto simp: c)
        moreover have "\<not> owed x" using False x by (auto simp: c owed_def)
        ultimately show ?thesis by simp
      qed
    qed
    moreover have "keeps P (conts w) (conts w')" by (auto simp: keeps_def c owed_def)
    ultimately show ?thesis using fr by simp
  qed
qed

lemma manual_step:
  fixes w :: "'z ds"
  shows "workers (snd (InsertManualContinuation i p w)) = workers w \<and>
    bus (snd (InsertManualContinuation i p w)) = bus w \<and>
    (\<exists>new. conts (snd (InsertManualContinuation i p w)) = conts w @ new)"
  by (auto simp: InsertManualContinuation_def Now_def NewID_run bindE_def Let_def Exec_def insert_row_def
      split: option.splits sum.splits prod.splits)

lemma ext_effect:
  assumes "ext_call te w w'" and "wf_st w" and "wf_bus (bus w)"
  shows "wf_st w' \<and> wf_bus (bus w') \<and> workers w' = workers w \<and>
    keeps P (conts w) (conts w') \<and> evolves (conts w) (conts w')"
  using assms
proof (induction rule: ext_call.induct)
  case (ext_ingest w ev)
  obtain r w' where e: "EngineIngest te ev w = (r, w')" by (cases "EngineIngest te ev w")
  from engine_grows [OF ext_ingest e] preservesD [OF wf_EngineIngest ext_ingest(1) e]
    preservesD [OF bus_EngineIngest ext_ingest(2) e] preservesD [OF workers_EngineIngest refl e] e
  show ?case by (auto simp: keeps_append evolves_append)
next
  case (ext_AddRule w r)
  show ?case
    unfolding AddRule_def Let_def
    by (rule frame_of [OF _ wf_AddRule [unfolded AddRule_def Let_def] _ ext_AddRule])
      (intro preserves_bind preserves_if preserves_pure side_Exec side_rest;
       auto simp: insertRule_def split: sum.splits)+
next
  case (ext_RemoveRule w i)
  show ?case
    by (rule frame_of [OF _ wf_RemoveRule _ ext_RemoveRule])
      (auto simp: RemoveRule_def Update_def intro!: side_Exec)
next
  case (ext_RegisterSession w s)
  show ?case
    unfolding RegisterSession_def Let_def GetSession_def Update_def Query_def
    by (rule frame_of [OF _ wf_RegisterSession [unfolded RegisterSession_def Let_def GetSession_def Update_def Query_def] _ ext_RegisterSession])
      (intro preserves_bind preserves_pure side_Exec side_rest; auto simp: upsertSession_def)+
next
  case (ext_Manual w i prompt)
  with manual_step [of i prompt w] preservesD [OF wf_InsertManualContinuation ext_Manual(1) prod.collapse [symmetric]]
  show ?case by (auto simp: keeps_append evolves_append)
next
  case (ext_AddWatch w x)
  show ?case
    unfolding AddWatch_def Update_def Query_def
    by (rule frame_of [OF _ wf_AddWatch [unfolded AddWatch_def Update_def Query_def] _ ext_AddWatch])
      (intro preserves_bind preserves_if preserves_pure side_Exec side_rest; auto split: option.split)+
next
  case (ext_RemoveWatch w i)
  show ?case
    by (rule frame_of [OF _ wf_RemoveWatch _ ext_RemoveWatch])
      (auto simp: RemoveWatch_def Update_def intro!: side_Exec)
next
  case (ext_sweep w)
  let ?w = "w\<lparr>nclock := Suc (nclock w)\<rparr>"
  obtain r w' where s: "Sweep (clock w (nclock w)) daemonPolicy ?w = (r, w')" by fastforce
  have "wf_st ?w" using ext_sweep by simp
  from sweep_step [OF this s] preservesD [OF wf_Sweep this s] ext_sweep s show ?case
    by (simp add: sweepOnce_def Now_def bindE_def tryE_def)
qed

section \<open>The invariant holds\<close>

lemma scan_step:
  assumes "scan w = (Inr new, w')"
  shows "db w' = db w \<and> bus w' = bus w \<and> workers w' = workers w \<union> set new \<and> distinct new \<and>
    set new \<inter> workers w = {}"
proof -
  obtain r w1 where q: "PendingSessions w = (r, w1)" by (cases "PendingSessions w")
  have w1: "w1 = w\<lparr>nfault := Suc (nfault w)\<rparr>"
    using q by (cases r) (auto simp: PendingSessions_def dest: Query_Inl Query_Inr)
  show ?thesis
  proof (cases r)
    case (Inl e)
    with assms q w1 show ?thesis by (auto simp: scan_def tryE_def)
  next
    case (Inr ss)
    obtain n ws where sp: "spawnAll ss (workers w) = (n, ws)" by (cases "spawnAll ss (workers w)")
    from assms q Inr w1 sp have "new = n" "w' = w1\<lparr>workers := ws\<rparr>"
      by (auto simp: scan_def tryE_def gets_def modify_def bindE_def)
    with spawnAll_set [OF sp] w1 show ?thesis by auto
  qed
qed

lemma inv_worker:
  assumes inv: "sys_inv s" and g: "gs s = xs @ (sid, ph) # ys" and st: "gstep te ads sid ph (world s) = (q, w')"
  shows "sys_inv (s\<lparr>world := w', gs := xs @ (case q of None \<Rightarrow> [] | Some ph' \<Rightarrow> [(sid, ph')]) @ ys\<rparr>) \<and>
    evolves (conts (world s)) (conts w')"
proof -
  from inv g have wf: "wf_st (world s)" "wf_bus (bus (world s))" and dist: "distinct (map fst (xs @ ys))"
    and new: "sid \<notin> fst ` set (xs @ ys)" and ws: "workers (world s) = insert sid (fst ` set (xs @ ys))"
    and resp: "responsible (conts (world s)) (sid, ph)" "\<forall>g\<in>set (xs @ ys). responsible (conts (world s)) g"
    by (auto simp: sys_inv_def)
  have e: "effect sid (world s) w' q" by (rule gstep_effect [OF st wf resp(1)])
  have others: "\<forall>g\<in>set (xs @ ys). responsible (conts w') g"
  proof
    fix g
    assume g: "g \<in> set (xs @ ys)"
    then have other: "fst g \<noteq> sid" using new by (metis image_eqI)
    have k: "keeps (\<lambda>c. c_SessionID c \<noteq> sid) (conts (world s)) (conts w')"
      using e unfolding effect_def by blast
    have "responsible (conts (world s)) g" using g resp(2) by blast
    from responsible_keeps [OF this k] other show "responsible (conts w') g" by simp
  qed
  show ?thesis
  proof (cases q)
    case None
    with e have "workers w' = fst ` set (xs @ ys)" using ws new by (auto simp: effect_def)
    with None e dist others show ?thesis by (simp add: effect_def sys_inv_def)
  next
    case (Some ph')
    with e have "workers w' = workers (world s)" "responsible (conts w') (sid, ph')" by (simp_all add: effect_def)
    with Some e dist new ws others show ?thesis by (simp add: effect_def sys_inv_def image_Un)
  qed
qed

lemma inv_step:
  assumes "sys_step te ads s t" and "sys_inv s"
  shows "sys_inv t \<and> evolves (conts (world s)) (conts (world t))"
  using assms
proof (induction rule: sys_step.induct)
  case (sys_worker s xs sid ph ys q w')
  from inv_worker [OF sys_worker(3,1,2)] show ?case by simp
next
  case (sys_scan s new w')
  have "fst ` set (gs s @ map (\<lambda>i. (i, PLoop)) new) = fst ` set (gs s) \<union> set new"
    by (simp add: image_Un image_image)
  moreover have "distinct (map fst (gs s @ map (\<lambda>i. (i, PLoop)) new))"
    using scan_step [OF sys_scan(1)] sys_scan(2) by (auto simp: sys_inv_def comp_def)
  moreover have "\<forall>g\<in>set (gs s @ map (\<lambda>i. (i, PLoop)) new). responsible (conts w') g"
    using scan_step [OF sys_scan(1)] sys_scan(2) by (auto simp: sys_inv_def)
  ultimately show ?case
    using scan_step [OF sys_scan(1)] sys_scan(2) by (simp add: sys_inv_def evolves_refl)
next
  case (sys_ext s w')
  then have wf: "wf_st (world s)" "wf_bus (bus (world s))" by (auto simp: sys_inv_def)
  note e = ext_effect [OF sys_ext(1) wf, of "\<lambda>_. True"]
  with sys_ext(2) show ?case
    by (auto simp: sys_inv_def intro: responsible_keeps [where P = "\<lambda>_. True"])
qed

lemma inv_restart: "sys_inv s \<Longrightarrow> sys_inv (restart s)"
proof -
  assume inv: "sys_inv s"
  let ?w = "(world s)\<lparr>workers := {}\<rparr>"
  have "preserves (\<lambda>w :: 'z ds. wf_bus (bus w) \<and> workers w = {}) bootRecovery"
    unfolding bootRecovery_def ResetRunningContinuations_def UpdateN_def by (intro preserves_rules) auto
  then have "wf_bus (bus (snd (bootRecovery ?w))) \<and> workers (snd (bootRecovery ?w)) = {}"
    by (rule preservesD [OF _ _ prod.collapse [symmetric]]) (use inv in \<open>simp add: sys_inv_def\<close>)
  moreover have "preserves wf_st bootRecovery"
    unfolding bootRecovery_def by (intro preserves_rules wf_ResetRunningContinuations)
  then have "wf_st (snd (bootRecovery ?w))"
    by (rule preservesD [OF _ _ prod.collapse [symmetric]]) (use inv in \<open>simp add: sys_inv_def\<close>)
  ultimately show "sys_inv (restart s)" by (simp add: restart_def sys_inv_def)
qed

interpretation sysq: invariant_system sys_init "sys_any te ads" sys_inv for te ads
proof unfold_locales
  show "sys_inv s" if "sys_init s" for s
    using that wf_emptyDB wf_NewBus by (simp add: sys_init_def sys_inv_def)
  show "sys_inv t" if "sys_inv s" "sys_any te ads s t" for s t
    using that inv_step inv_restart by (auto simp: sys_any_def)
qed

section \<open>Properties\<close>

definition running_agent :: "string \<times> phase \<Rightarrow> Continuation option" where
  "running_agent g = (case snd g of PRun c sess ad \<Rightarrow> Some c | _ \<Rightarrow> None)"



text \<open>
  Boot recovery. When the reset statement does not fail, after a restart every row that
  was running is pending again with the same job, every other row is as it was, and
  nothing is running: an interrupted continuation is run again, never lost.
\<close>

theorem restart_recovers:
  assumes "healthy (world s)"
  shows "map (\<lambda>c. c\<lparr>c_UpdatedAt := 0\<rparr>) (continuations (db (world (restart s)))) =
      map (\<lambda>c. if c_State c = ContinuationRunning
        then c\<lparr>c_State := ContinuationPending, c_UpdatedAt := 0\<rparr> else c\<lparr>c_UpdatedAt := 0\<rparr>)
        (continuations (db (world s))) \<and>
    ContinuationRunning \<notin> c_State ` set (continuations (db (world (restart s)))) \<and>
    gs (restart s) = [] \<and> workers (world (restart s)) = {}"
  using assms
  by (auto simp: restart_def bootRecovery_def ResetRunningContinuations_def Now_def bindE_def tryE_def
      update_where_def)

section \<open>The segments compose to the worker's loop\<close>

definition gnext :: "'t template_engine \<Rightarrow> adapters \<Rightarrow> string \<Rightarrow> phase \<times> 'z ds \<Rightarrow> phase \<times> 'z ds \<Rightarrow> bool" where
  "gnext te ads sid p p' \<longleftrightarrow> gstep te ads sid (fst p) (snd p) = (Some (fst p'), snd p')"

lemma gnext_star:
  "gstep te ads sid ph w = (Some ph', w') \<Longrightarrow> (gnext te ads sid)\<^sup>*\<^sup>* (ph', w') p \<Longrightarrow>
     (gnext te ads sid)\<^sup>*\<^sup>* (ph, w) p"
  by (rule converse_rtranclp_into_rtranclp) (auto simp: gnext_def)

lemma total_setState [total_rules]: "total (setState i st)"
  unfolding setState_def by (intro total_rules)

lemma total_recordResult [total_rules]: "total (recordResult c v)"
  unfolding recordResult_def by (intro total_rules)

lemma segments_finish:
  assumes "finish te c v w = (Inr (), w')"
  shows "(gnext te ads sid)\<^sup>*\<^sup>* (PFinish c v, w) (PLoop, w')"
proof -
  obtain b w1 where b: "CtxErr w = (Inr b, w1)" by (simp add: CtxErr_def)
  show ?thesis
  proof (cases b)
    case True
    with b assms have "gstep te ads sid (PFinish c v) w = (Some PLoop, w')" by (simp add: finish_def)
    then show ?thesis by (rule gnext_star) simp
  next
    case False
    obtain w2 where r: "recordResult c v w1 = (Inr (), w2)" using totalD [OF total_recordResult] by force
    with b False assms have e: "emitResult te c v w2 = (Inr (), w')" by (simp add: finish_def)
    from b False r have "gstep te ads sid (PFinish c v) w = (Some (PEmit c v), w2)" by simp
    moreover from e have "gstep te ads sid (PEmit c v) w2 = (Some PLoop, w')" by simp
    ultimately show ?thesis by (blast intro: gnext_star rtranclp.rtrancl_refl)
  qed
qed

lemma segments_run:
  assumes "execRun c (sess, ad) w = (Inr v, w')"
  shows "(gnext te ads sid)\<^sup>*\<^sup>* (PStart c sess ad, w) (PFinish c v, w')"
proof -
  obtain w1 where w1: "setState (s_SessionID sess) SessionRunning w = (Inr (), w1)"
    using totalD [OF total_setState] by force
  obtain w2 where w2: "resume ad c sess w1 = (Inr (ad_Resume ad sess (c_Prompt c)), w2)"
    by (simp add: resume_def bindE_def modify_def)
  from assms w1 w2 have v: "v = judge (ad_Resume ad sess (c_Prompt c))"
    and w3: "setState (s_SessionID sess) SessionWaiting w2 = (Inr (), w')"
    by (auto simp: execRun_def bindE_Inr_iff)
  have "gstep te ads sid (PStart c sess ad) w = (Some (PRun c sess ad), w1)" using w1 by simp
  moreover have "gstep te ads sid (PRun c sess ad) w1 = (Some (PEnd c sess v), w2)" using w2 v by simp
  moreover have "gstep te ads sid (PEnd c sess v) w2 = (Some (PFinish c v), w')" using w3 by simp
  ultimately show ?thesis by (blast intro: gnext_star rtranclp.rtrancl_refl)
qed

lemma segments_execute:
  assumes "execute te ads c w = (Inr (), w')"
  shows "(gnext te ads sid)\<^sup>*\<^sup>* (PLookup c, w) (PLoop, w')"
proof -
  obtain l w1 where l: "execLookup ads c w = (Inr l, w1)" using totalD [OF total_execLookup] by blast
  show ?thesis
  proof (cases l)
    case (Inl v)
    with l assms have f: "finish te c v w1 = (Inr (), w')" by (simp add: execute_def)
    from Inl l have "gstep te ads sid (PLookup c) w = (Some (PFinish c v), w1)" by simp
    then show ?thesis using segments_finish [OF f] by (rule gnext_star)
  next
    case (Inr sa)
    obtain sess ad where sa: "sa = (sess, ad)" by (cases sa)
    obtain v w2 where v: "execRun c sa w1 = (Inr v, w2)" using totalD [OF total_execRun] by blast
    with l Inr assms have f: "finish te c v w2 = (Inr (), w')" by (simp add: execute_def)
    from l Inr sa have "gstep te ads sid (PLookup c) w = (Some (PStart c sess ad), w1)" by simp
    then show ?thesis
      using rtranclp_trans [OF segments_run [OF v [unfolded sa]] segments_finish [OF f]] by (rule gnext_star)
  qed
qed

lemma segments_round:
  "\<exists>r w'. workerIter te ads sid w = (Inr r, w') \<and>
     (gnext te ads sid)\<^sup>*\<^sup>* (PLoop, w) ((if r then PLoop else PExit), w')"
proof -
  obtain b w1 where b: "CtxErr w = (Inr b, w1)" by (simp add: CtxErr_def)
  obtain r w2 where r: "NextPendingForSession sid w1 = (r, w2)" by (cases "NextPendingForSession sid w1")
  show ?thesis
  proof (cases "\<exists>c. \<not> b \<and> r = Inr (Some c)")
    case True
    then obtain c where c: "\<not> b" "r = Inr (Some c)" by blast
    with b r have s1: "gstep te ads sid PLoop w = (Some (PClaim c), w2)" by simp
    obtain k w3 where k: "ClaimContinuation (c_ID c) w2 = (k, w3)" by (cases "ClaimContinuation (c_ID c) w2")
    show ?thesis
    proof (cases "k = Inr True")
      case True
      obtain w' where e: "execute te ads c w3 = (Inr (), w')" using totalD [OF total_execute] by force
      from k True have "gstep te ads sid (PClaim c) w2 = (Some (PLookup c), w3)" by simp
      with s1 segments_execute [OF e] have "(gnext te ads sid)\<^sup>*\<^sup>* (PLoop, w) (PLoop, w')"
        by (blast intro: gnext_star)
      moreover have "workerIter te ads sid w = (Inr True, w')"
        using b c r k True e by (simp add: workerIter_def)
      ultimately show ?thesis by auto
    next
      case False
      with k have "gstep te ads sid (PClaim c) w2 = (Some PLoop, w3)" by simp
      with s1 have "(gnext te ads sid)\<^sup>*\<^sup>* (PLoop, w) (PLoop, w3)"
        by (blast intro: gnext_star rtranclp.rtrancl_refl)
      moreover have "workerIter te ads sid w = (Inr True, w3)"
        using b c r k False by (auto simp: workerIter_def split: sum.split bool.split)
      ultimately show ?thesis by auto
    qed
  next
    case False
    then obtain w' where "gstep te ads sid PLoop w = (Some PExit, w')" and "workerIter te ads sid w = (Inr False, w')"
      using b r by (cases b; cases r) (auto simp: workerIter_def split: option.splits)
    then show ?thesis by (intro exI [of _ False] exI [of _ w']) (auto intro: gnext_star)
  qed
qed

text \<open>
  The interleaved model runs the code's loop. If nothing else is scheduled in
  between, the segments of a worker take it through exactly one round of its loop: from the head
  of the loop to the head again, or to its exit, with the state the sequential \<open>workerIter\<close>
  computes.
\<close>

theorem segments_are_worker_round:
  "\<exists>r w'. workerIter te ads sid w = (Inr r, w') \<and>
     (gnext te ads sid)\<^sup>*\<^sup>* (PLoop, w) ((if r then PLoop else PExit), w')"
  by (rule segments_round)

section \<open>A concrete run\<close>

text \<open>
  From the empty daemon: a manual continuation for an unregistered session is stored, the
  scan starts a worker, and the worker reads it. The state is used to instantiate the
  properties.
\<close>

definition exSys0 :: "unit sys" where
  "exSys0 = \<lparr>world = exD\<lparr>db := emptyDB, bus := NewBus, workers := {}\<rparr>, gs = []\<rparr>"

definition exSys1 :: "unit sys" where
  "exSys1 = exSys0\<lparr>world := snd (InsertManualContinuation ''s1'' ''go'' (world exSys0))\<rparr>"

lemma exSys0_init: "sys_init exSys0"
  by (simp add: sys_init_def exSys0_def)

lemma exSys1_step: "sys_step exEngine (\<lambda>_. []) exSys0 exSys1"
  unfolding exSys1_def by (intro sys_ext ext_Manual)

lemma exSys1_reach: "reach sys_init (sys_any exEngine (\<lambda>_. [])) exSys1"
proof (rule reach_step)
  show "reach sys_init (sys_any exEngine (\<lambda>_. [])) exSys0" using exSys0_init by (rule reach_init)
  show "sys_any exEngine (\<lambda>_. []) exSys0 exSys1" using exSys1_step by (simp add: sys_any_def)
qed

lemma exSys1_healthy: "healthy (world exSys1)"
  by (simp add: exSys1_def exSys0_def exD_def InsertManualContinuation_def Now_def NewID_run bindE_def
      Let_def Exec_def insert_row_def emptyDB_def healthy_def)


theorem restart_recovers_witness:
  "healthy (world exSys1) \<and> ContinuationRunning \<notin> c_State ` set (continuations (db (world (restart exSys1))))"
  using restart_recovers [OF exSys1_healthy] exSys1_healthy by blast


end
