(* ===== verification/Wakeups.thy ===== *)
theory Wakeups
  imports Workers
begin

text \<open>
  The dispatcher's main loop, \<^verbatim>\<open>Run\<close> and \<^verbatim>\<open>scan\<close> in
  \<^verbatim>\<open>src/internal/dispatch/dispatcher.go\<close>, between the goroutines of
  theory \<open>Workers\<close>, and why no wake-up is lost.

  The loop is not atomic here: it takes the signal (or the safety tick), queries the sessions with
  pending work, and starts workers for those that have none, and anything may happen between
  these steps. Whoever queues a continuation, a handler by hand or the engine for an event, commits it in one
  step and signals in a later one, also when a worker emits the result of its run: the model even lets that
  worker go on before its signal, which allows more interleavings than the code has. The signal is a
  channel of capacity one, that is, a flag.
\<close>

section \<open>The loop and its environment\<close>

datatype scanner =
    Waiting bool               \<comment> \<open>in the \<open>select\<close>; whether the last query failed\<close>
  | Scanning                   \<comment> \<open>about to query the pending sessions\<close>
  | Spawning "string list"     \<comment> \<open>about to take the mutex, with the sessions found\<close>

record 'z wsys =
  base :: "'z sys"
  scanner :: scanner
  waking :: nat
    \<comment> \<open>calls that have queued a continuation and have not signalled yet\<close>

definition setWorld :: "'z ds \<Rightarrow> 'z wsys \<Rightarrow> 'z wsys" where
  "setWorld w s = s\<lparr>base := (base s)\<lparr>world := w\<rparr>\<rparr>"

fun afterQuery :: "error + string list \<Rightarrow> scanner" where
  "afterQuery (Inl _) = Waiting True"
| "afterQuery (Inr ss) = Spawning ss"

definition spawn :: "string list \<Rightarrow> 'z sys \<Rightarrow> 'z sys" where
  \<comment> \<open>the part of \<open>scan\<close> under the mutex\<close>
  "spawn ss s = (case spawnAll ss (workers (world s)) of
     (new, ws) \<Rightarrow> s\<lparr>world := (world s)\<lparr>workers := ws\<rparr>, gs := gs s @ map (\<lambda>i. (i, PLoop)) new\<rparr>)"

fun signalDue :: "error + IngestResult \<Rightarrow> nat" where
  \<comment> \<open>\<open>Notify\<close> is called for an event that queued something\<close>
  "signalDue (Inl _) = 0"
| "signalDue (Inr res) = (if ir_Continuations res \<noteq> [] then 1 else 0)"

fun emitting :: "phase \<Rightarrow> bool" where
  "emitting (PEmit c v) = True"
| "emitting _ = False"

inductive quiet_ext :: "'z ds \<Rightarrow> 'z ds \<Rightarrow> bool" where
  \<comment> \<open>the calls of the rest of the daemon that queue nothing\<close>
  quiet_AddRule: "quiet_ext w (snd (AddRule r w))"
| quiet_RemoveRule: "quiet_ext w (snd (RemoveRule i w))"
| quiet_RegisterSession: "quiet_ext w (snd (RegisterSession s w))"
| quiet_AddWatch: "quiet_ext w (snd (AddWatch x w))"
| quiet_RemoveWatch: "quiet_ext w (snd (RemoveWatch i w))"
| quiet_sweep: "quiet_ext w (snd (sweepOnce w))"

inductive wstep :: "'t template_engine \<Rightarrow> adapters \<Rightarrow> 'z wsys \<Rightarrow> 'z wsys \<Rightarrow> bool"
  for te :: "'t template_engine" and ads :: adapters where
  ws_worker: "gs (base s) = xs @ (sid, ph) # ys \<Longrightarrow> \<not> emitting ph \<Longrightarrow> gstep te ads sid ph (world (base s)) = (q, w') \<Longrightarrow>
    wstep te ads s (s\<lparr>base := (base s)\<lparr>world := w', gs := xs @ (case q of None \<Rightarrow> [] | Some ph' \<Rightarrow> [(sid, ph')]) @ ys\<rparr>\<rparr>)"
| ws_emit: "gs (base s) = xs @ (sid, PEmit c v) # ys \<Longrightarrow>
    bindE (normalise (resultEvent c v)) (Ingest te) (world (base s)) = (r, w') \<Longrightarrow>
    wstep te ads s (s\<lparr>base := (base s)\<lparr>world := w', gs := xs @ (sid, PLoop) # ys\<rparr>, waking := waking s + signalDue r\<rparr>)"
| ws_ingest: "Ingest te ev (world (base s)) = (r, w') \<Longrightarrow>
    wstep te ads s ((setWorld w' s)\<lparr>waking := waking s + signalDue r\<rparr>)"
| ws_ext: "quiet_ext (world (base s)) w' \<Longrightarrow> wstep te ads s (setWorld w' s)"
| ws_manual: "InsertManualContinuation i prompt (world (base s)) = (r, w') \<Longrightarrow>
    wstep te ads s ((setWorld w' s)\<lparr>waking := (if isl r then waking s else Suc (waking s))\<rparr>)"
| ws_signal: "waking s = Suc n \<Longrightarrow>
    wstep te ads s ((setWorld ((world (base s))\<lparr>wake := True\<rparr>) s)\<lparr>waking := n\<rparr>)"
| ws_frame: "db w' = db (world (base s)) \<Longrightarrow> bus w' = bus (world (base s)) \<or> bus_step (bus (world (base s))) (bus w') \<Longrightarrow>
    workers w' = workers (world (base s)) \<Longrightarrow> (wake (world (base s)) \<longrightarrow> wake w') \<Longrightarrow>
    wstep te ads s (setWorld w' s)"
    \<comment> \<open>reads, publications, subscribers of the bus, the watch manager, any other signal\<close>
| ws_take: "scanner s = Waiting f \<Longrightarrow> wake (world (base s)) \<Longrightarrow>
    wstep te ads s ((setWorld ((world (base s))\<lparr>wake := False\<rparr>) s)\<lparr>scanner := Scanning\<rparr>)"
| ws_tick: "scanner s = Waiting f \<Longrightarrow> wstep te ads s (s\<lparr>scanner := Scanning\<rparr>)"
| ws_query: "scanner s = Scanning \<Longrightarrow> PendingSessions (world (base s)) = (r, w') \<Longrightarrow>
    wstep te ads s ((setWorld w' s)\<lparr>scanner := afterQuery r\<rparr>)"
| ws_spawn: "scanner s = Spawning ss \<Longrightarrow>
    wstep te ads s (s\<lparr>base := spawn ss (base s), scanner := Waiting False\<rparr>)"
| ws_restart: "wstep te ads s (let b = restart (base s) in
    s\<lparr>base := b\<lparr>world := (world b)\<lparr>wake := False\<rparr>\<rparr>, scanner := Scanning, waking := 0\<rparr>)"

definition winit :: "'z wsys \<Rightarrow> bool" where
  "winit s \<longleftrightarrow> sys_init (base s) \<and> scanner s = Scanning \<and> waking s = 0"

section \<open>What the steps do to pending work\<close>

definition pendingSids :: "'z ds \<Rightarrow> string set" where
  "pendingSids w = c_SessionID ` {c \<in> set (conts w). c_State c = ContinuationPending}"

definition signalled :: "'z ds \<Rightarrow> 'z ds \<Rightarrow> bool" where
  \<comment> \<open>no signal is lost, and new pending work comes with one\<close>
  "signalled w w' \<longleftrightarrow> (wake w \<longrightarrow> wake w') \<and> (pendingSids w' \<subseteq> pendingSids w \<or> wake w')"

definition still :: "Continuation list \<Rightarrow> bool \<Rightarrow> 'z ds \<Rightarrow> bool" where
  "still C X w \<longleftrightarrow> conts w = C \<and> wake w = X"

interpretation stk: segment_kept "still C X" for C X
  by unfold_locales (auto simp: still_def)

lemma signalled_still:
  assumes "\<And>C X. preserves (still C X) m" and "m w = (r, w')"
  shows "signalled w w'"
proof -
  have "still (conts w) (wake w) w" by (simp add: still_def)
  from preservesD [OF assms(1) this assms(2)] show ?thesis by (simp add: still_def signalled_def pendingSids_def)
qed

lemma signalled_trans: "signalled w w1 \<Longrightarrow> signalled w1 w2 \<Longrightarrow> signalled w w2"
  by (auto simp: signalled_def)

lemma signalled_same: "conts w' = conts w \<Longrightarrow> wake w' = wake w \<Longrightarrow> signalled w w'"
  by (simp add: signalled_def pendingSids_def)

lemma signalled_update:
  assumes "conts w' = update_where Q f (conts w)" and "wake w' = wake w"
    and "\<And>c. c \<in> set (conts w) \<Longrightarrow> Q c \<Longrightarrow> c_State (f c) \<noteq> ContinuationPending"
  shows "signalled w w'"
  using assms by (auto simp: signalled_def pendingSids_def set_update_where split: if_splits)

lemma ingest_effect:
  fixes w :: "'z ds"
  assumes wf: "wf_st w" and run: "Ingest te ev w = (r, w')"
  shows "wf_st w' \<and> bus w' = bus w \<and> workers w' = workers w \<and> wake w' = wake w \<and>
    (\<exists>new. conts w' = conts w @ new \<and> (signalDue r = 0 \<longrightarrow> new = []))"
proof -
  have "preserves (\<lambda>w :: 'z ds. bus w = B \<and> workers w = W \<and> wake w = X) (Ingest te ev)" for B W X
    by (rule preserves_Ingest_frame) auto
  from preservesD [OF this _ run, of "bus w" "workers w" "wake w"]
  have "bus w' = bus w \<and> workers w' = workers w \<and> wake w' = wake w" by simp
  moreover have "\<exists>new. conts w' = conts w @ new \<and> (signalDue r = 0 \<longrightarrow> new = [])"
  proof (cases r)
    case (Inl e)
    with run have "db w' = db w" by (auto simp: Ingest_def dest: with_tx_error)
    then show ?thesis by simp
  next
    case (Inr res)
    with run have "Ingest te ev w = (Inr res, w')" by simp
    from Ingest_Inr [OF this wf] have "conts w' = conts w @ ir_Continuations res" by simp
    with Inr show ?thesis by simp
  qed
  ultimately show ?thesis using preservesD [OF wf_Ingest wf run] by blast
qed

lemma emit_effect:
  fixes w :: "'z ds"
  assumes wf: "wf_st w" and run: "bindE (normalise ev) (Ingest te) w = (r, w')"
  shows "wf_st w' \<and> bus w' = bus w \<and> workers w' = workers w \<and> wake w' = wake w \<and>
    (\<exists>new. conts w' = conts w @ new \<and> (signalDue r = 0 \<longrightarrow> new = []))"
proof -
  obtain ev' w1 where n: "normalise ev w = (Inr ev', w1)" by (rule normalise_run)
  have "preserves (\<lambda>w :: 'z ds. db w = D \<and> bus w = B \<and> workers w = W \<and> wake w = X) (normalise ev)" for D B W X
    unfolding normalise_def by (intro preserves_bind preserves_if preserves_pure preserves_NewID preserves_Now) auto
  from preservesD [OF this _ n, of "db w" "bus w" "workers w" "wake w"]
  have w1: "db w1 = db w" "bus w1 = bus w" "workers w1 = workers w" "wake w1 = wake w" by simp_all
  have "Ingest te ev' w1 = (r, w')" using run n by (simp add: bindE_def)
  from ingest_effect [OF _ this] wf w1 show ?thesis by simp
qed

lemma side_still:
  "(\<And>d x d'. stmt d = (Inr x, d') \<Longrightarrow> continuations d' = continuations d) \<Longrightarrow> preserves (still C X) (Exec stmt)"
  "preserves (still C X) Now" "preserves (still C X) (NewID p)"
  by (auto intro!: preserves_Exec preserves_Now preserves_NewID simp: still_def)

lemma still_methods:
  "preserves (still C X) (AddRule r)" "preserves (still C X) (RemoveRule i)"
  "preserves (still C X) (RegisterSession s)" "preserves (still C X) (AddWatch x)" "preserves (still C X) (RemoveWatch i)"
  unfolding AddRule_def RemoveRule_def RegisterSession_def AddWatch_def RemoveWatch_def Let_def GetSession_def
    Update_def Query_def
  by ((intro preserves_bind preserves_if preserves_pure side_still; auto simp: insertRule_def upsertSession_def
      split: sum.splits option.splits intro!: side_still)+)

lemma signalled_sweep:
  fixes w :: "'z ds"
  shows "signalled w (snd (sweepOnce w))"
proof -
  let ?w = "w\<lparr>nclock := Suc (nclock w)\<rparr>"
  obtain r w' where s: "Sweep (clock w (nclock w)) daemonPolicy ?w = (r, w')" by fastforce
  have "preserves (\<lambda>w :: 'z ds. wake w = X) (Sweep now p)" for X now p
    unfolding Sweep_def UpdateN_def by (intro preserves_rules) auto
  from preservesD [OF this _ s] have wk: "wake w' = wake w" by simp
  have "set (conts w') \<subseteq> set (conts w)"
  proof (cases r)
    case (Inl e)
    with s have "db w' = db w" by (auto simp: Sweep_def dest: with_tx_error)
    then show ?thesis by simp
  next
    case (Inr res)
    with Sweep_Inr s have "db w' = swept (clock w (nclock w)) daemonPolicy (db w)" by fastforce
    then show ?thesis by (auto simp: swept_def)
  qed
  with wk have "signalled w w'" by (auto simp: signalled_def pendingSids_def)
  with s show ?thesis by (simp add: sweepOnce_def Now_def bindE_def tryE_def)
qed

lemma signalled_quiet:
  assumes "quiet_ext w w'"
  shows "signalled w w'"
  using assms
proof cases
  case quiet_sweep
  with signalled_sweep show ?thesis by simp
qed (auto intro: signalled_still [OF _ prod.collapse [symmetric]] still_methods)

inductive_cases quiet_extE: "quiet_ext w w'"

lemma quiet_ext_call: "quiet_ext w w' \<Longrightarrow> ext_call te w w'"
  by (auto elim!: quiet_extE intro: ext_call.intros)

section \<open>What a segment of a worker does to pending work\<close>

lemma still_NextPending: "preserves (still C X) (NextPendingForSession sid)"
  unfolding NextPendingForSession_def by (rule stk.kept_Query)

lemmas signalled_CtxErr = signalled_still [OF stk.kept_CtxErr]
  and signalled_NextPending = signalled_still [OF still_NextPending]
  and signalled_execLookup = signalled_still [OF stk.kept_execLookup]
  and signalled_setState = signalled_still [OF stk.kept_setState prod.collapse [symmetric]]
  and signalled_resume = signalled_still [OF stk.kept_resume prod.collapse [symmetric]]

lemma wake_claim: "preserves (\<lambda>w :: 'z ds. wake w = X) (ClaimContinuation i)"
  unfolding ClaimContinuation_def UpdateN_def by (intro preserves_rules) auto

lemma wake_record: "preserves (\<lambda>w :: 'z ds. wake w = X) (recordResult c v)"
  by (rule preserves_recordResult) auto

lemma signalled_PLoop:
  assumes "gstep te ads sid PLoop w = (q, w')"
  shows "signalled w w' \<and> q \<noteq> None"
proof -
  obtain b w1 where b: "CtxErr w = (Inr b, w1)" by (simp add: CtxErr_def)
  obtain r w2 where r: "NextPendingForSession sid w1 = (r, w2)" by (cases "NextPendingForSession sid w1")
  have "(w' = w1 \<or> w' = w2) \<and> q \<noteq> None"
    using assms b r by (cases b; cases r) (auto split: option.splits)
  with signalled_CtxErr [OF b] signalled_trans [OF signalled_CtxErr [OF b] signalled_NextPending [OF r]] show ?thesis by auto
qed

lemma signalled_PClaim:
  fixes w :: "'z ds"
  assumes "gstep te ads sid (PClaim c) w = (q, w')"
  shows "signalled w w' \<and> q \<noteq> None"
proof -
  obtain r where r: "ClaimContinuation (c_ID c) w = (r, w')" and q: "q \<noteq> None"
    using assms by (auto split: prod.splits)
  have wk: "wake w' = wake w" using preservesD [OF wake_claim refl r] .
  from claim_step [OF r] have "conts w' = conts w \<or>
      (\<exists>t. conts w' = update_where (claimable (c_ID c)) (\<lambda>c. c\<lparr>c_State := ContinuationRunning, c_UpdatedAt := t\<rparr>) (conts w))"
    by blast
  then have "signalled w w'"
  proof
    assume "conts w' = conts w"
    with wk show ?thesis by (intro signalled_same)
  next
    assume "\<exists>t. conts w' = update_where (claimable (c_ID c)) (\<lambda>c. c\<lparr>c_State := ContinuationRunning, c_UpdatedAt := t\<rparr>) (conts w)"
    with wk show ?thesis by (auto intro!: signalled_update)
  qed
  with q show ?thesis by simp
qed

lemma signalled_PFinish:
  fixes w :: "'z ds"
  assumes "gstep te ads sid (PFinish c v) w = (q, w')" and "verdict_ok (PFinish c v)"
  shows "signalled w w' \<and> q \<noteq> None"
proof -
  obtain b w1 where b: "CtxErr w = (Inr b, w1)" by (simp add: CtxErr_def)
  note s1 = signalled_CtxErr [OF b]
  show ?thesis
  proof (cases b)
    case False
    then obtain r where r: "recordResult c v w1 = (r, w')" and q: "q \<noteq> None"
      using assms(1) b by (cases "recordResult c v w1") auto
    have wk: "wake w' = wake w1" using preservesD [OF wake_record refl r] .
    have "v_state v \<noteq> ContinuationPending" using assms(2) by auto
    then have "signalled w1 w'"
      using record_step [OF r] by (elim conjE disjE) (auto intro: signalled_same [OF _ wk] signalled_update [OF _ wk])
    with signalled_trans [OF s1] q show ?thesis by blast
  qed (use assms(1) b s1 in auto)
qed

lemma gstep_signalled:
  fixes w :: "'z ds"
  assumes "gstep te ads sid ph w = (q, w')" and "verdict_ok ph" and "\<not> emitting ph"
  shows "signalled w w' \<and> (q = None \<longrightarrow> wake w')"
proof (cases ph)
  case PLoop
  with assms(1) signalled_PLoop show ?thesis by blast
next
  case (PClaim c)
  with assms(1) signalled_PClaim show ?thesis by blast
next
  case (PLookup c)
  obtain r w1 where l: "execLookup ads c w = (r, w1)" by (cases "execLookup ads c w")
  then have "w' = w1" "q \<noteq> None" using assms(1) PLookup by (auto split: sum.splits prod.splits)
  with signalled_execLookup [OF l] show ?thesis by blast
next
  case (PFinish c v)
  with assms(1,2) signalled_PFinish show ?thesis by blast
next
  case PExit
  with assms(1) show ?thesis by (auto simp: deregister_def signalled_def)
qed (use assms(1,3) signalled_setState signalled_resume in auto)

section \<open>The invariant\<close>

definition attended :: "'z wsys \<Rightarrow> bool" where
  \<comment> \<open>every session with pending work has a worker, or will be looked at\<close>
  "attended s \<longleftrightarrow> (\<forall>sid\<in>pendingSids (world (base s)). sid \<in> workers (world (base s)) \<or> wake (world (base s)) \<or>
     0 < waking s \<or> (case scanner s of Waiting failed \<Rightarrow> failed | Scanning \<Rightarrow> True | Spawning ss \<Rightarrow> sid \<in> set ss))"

definition winv :: "'z wsys \<Rightarrow> bool" where
  "winv s \<longleftrightarrow> sys_inv (base s) \<and> attended s"

lemma sys_inv_upd:
  assumes "sys_inv s" and "db w' = db (world s)" and "bus w' = bus (world s) \<or> bus_step (bus (world s)) (bus w')"
    and "workers w' = workers (world s)"
  shows "sys_inv (s\<lparr>world := w'\<rparr>)"
  using assms wf_bus_step [of "bus (world s)" "bus w'"] by (auto simp: sys_inv_def)

lemma sys_inv_ext:
  assumes "sys_inv s" and "ext_call te (world s) w'"
  shows "sys_inv (s\<lparr>world := w'\<rparr>)"
  using inv_step [OF sys_ext [OF assms(2)] assms(1)] by blast

lemma attended_world:
  assumes "attended s" and "signalled (world (base s)) w'" and "workers w' = workers (world (base s))"
    and "waking s \<le> waking t" and "scanner t = scanner s" and "world (base t) = w'"
  shows "attended t"
  using assms by (fastforce simp: attended_def signalled_def)

lemma attended_owed:
  assumes "attended s" and "conts w' = conts (world (base s)) @ new" and "n = 0 \<longrightarrow> new = []"
    and "wake w' = wake (world (base s))" and "workers w' = workers (world (base s))"
    and "waking t = waking s + n" and "scanner t = scanner s" and "world (base t) = w'"
  shows "attended t"
  using assms by (cases n) (auto simp: attended_def pendingSids_def)

lemma sys_inv_appended:
  assumes inv: "sys_inv s" and "wf_st w'" and "bus w' = bus (world s)" and "workers w' = workers (world s)"
    and c: "conts w' = conts (world s) @ new" and G: "map fst G = map fst (gs s)"
    and g: "\<And>x. x \<in> set G \<Longrightarrow> x \<in> set (gs s) \<or> snd x = PLoop"
  shows "sys_inv (s\<lparr>world := w', gs := G\<rparr>)"
proof -
  have "responsible (conts w') x" if "x \<in> set G" for x
  proof (cases "snd x = PLoop")
    case False
    with g [OF that] have "x \<in> set (gs s)" by blast
    with inv have "responsible (conts (world s)) x" by (simp add: sys_inv_def)
    moreover have "keeps (\<lambda>_. True) (conts (world s)) (conts w')" by (simp add: c keeps_append)
    ultimately show ?thesis by (auto intro: responsible_keeps)
  qed (cases x, simp)
  moreover have "fst ` set G = fst ` set (gs s)" using arg_cong [OF G, of set] by simp
  ultimately show ?thesis using assms by (simp add: sys_inv_def)
qed

lemma inv_spawn:
  assumes "sys_inv s"
  shows "sys_inv (spawn ss s) \<and> workers (world (spawn ss s)) = workers (world s) \<union> set ss \<and>
    pendingSids (world (spawn ss s)) = pendingSids (world s)"
proof -
  obtain new ws where sp: "spawnAll ss (workers (world s)) = (new, ws)" by (cases "spawnAll ss (workers (world s))")
  note S = spawnAll_set [OF sp]
  have "fst ` set (gs s @ map (\<lambda>i. (i, PLoop)) new) = fst ` set (gs s) \<union> set new"
    by (simp add: image_Un image_image)
  moreover have "distinct (map fst (gs s @ map (\<lambda>i. (i, PLoop)) new))"
    using S assms by (auto simp: sys_inv_def comp_def)
  moreover have "\<forall>g\<in>set (gs s @ map (\<lambda>i. (i, PLoop)) new). responsible (conts (world s)) g"
    using assms by (auto simp: sys_inv_def)
  ultimately show ?thesis using S sp assms by (auto simp: spawn_def sys_inv_def pendingSids_def)
qed

lemma winv_worker:
  assumes "winv s" and g: "gs (base s) = xs @ (sid, ph) # ys" and ne: "\<not> emitting ph" and st: "gstep te ads sid ph (world (base s)) = (q, w')"
  shows "winv (s\<lparr>base := (base s)\<lparr>world := w', gs := xs @ (case q of None \<Rightarrow> [] | Some ph' \<Rightarrow> [(sid, ph')]) @ ys\<rparr>\<rparr>)"
proof -
  from assms(1) have inv: "sys_inv (base s)" and at: "attended s" by (auto simp: winv_def)
  from inv g have wf: "wf_st (world (base s))" "wf_bus (bus (world (base s)))"
    and resp: "responsible (conts (world (base s))) (sid, ph)" by (auto simp: sys_inv_def)
  then have "verdict_ok ph" by (simp add: responsible_def)
  note sg = gstep_signalled [OF st this ne]
  have e: "effect sid (world (base s)) w' q" by (rule gstep_effect [OF st wf resp])
  have "attended (s\<lparr>base := (base s)\<lparr>world := w', gs := xs @ (case q of None \<Rightarrow> [] | Some ph' \<Rightarrow> [(sid, ph')]) @ ys\<rparr>\<rparr>)"
  proof (cases q)
    case None
    with sg show ?thesis by (simp add: attended_def)
  next
    case (Some ph')
    with e have "workers w' = workers (world (base s))" by (simp add: effect_def)
    with sg show ?thesis by (intro attended_world [OF at]) auto
  qed
  with inv_worker [OF inv g st] show ?thesis by (simp add: winv_def)
qed

lemma winv_step:
  assumes "wstep te ads s t" and "winv s"
  shows "winv t"
  using assms
proof (induction rule: wstep.induct)
  case (ws_worker s xs sid ph ys q w')
  from winv_worker [OF ws_worker(4,1-3)] show ?case .
next
  case (ws_emit s xs sid c v ys r w')
  then have inv: "sys_inv (base s)" and at: "attended s" by (auto simp: winv_def)
  then have "wf_st (world (base s))" by (simp add: sys_inv_def)
  from emit_effect [OF this ws_emit(2)] obtain new where e: "wf_st w'" "bus w' = bus (world (base s))"
    "workers w' = workers (world (base s))" "wake w' = wake (world (base s))" "conts w' = conts (world (base s)) @ new"
    "signalDue r = 0 \<longrightarrow> new = []" by (elim conjE exE)
  have "sys_inv ((base s)\<lparr>world := w', gs := xs @ (sid, PLoop) # ys\<rparr>)"
    by (rule sys_inv_appended [OF inv e(1-3,5)]) (auto simp: ws_emit(1))
  then show ?case using attended_owed [OF at e(5,6,4,3)] by (simp add: winv_def)
next
  case (ws_ingest ev s r w')
  then have inv: "sys_inv (base s)" and at: "attended s" by (auto simp: winv_def)
  then have "wf_st (world (base s))" by (simp add: sys_inv_def)
  from ingest_effect [OF this ws_ingest(1)] obtain new where e: "wf_st w'" "bus w' = bus (world (base s))"
    "workers w' = workers (world (base s))" "wake w' = wake (world (base s))" "conts w' = conts (world (base s)) @ new"
    "signalDue r = 0 \<longrightarrow> new = []" by (elim conjE exE)
  have "sys_inv ((base s)\<lparr>world := w', gs := gs (base s)\<rparr>)"
    by (rule sys_inv_appended [OF inv e(1-3,5)]) auto
  then show ?case using attended_owed [OF at e(5,6,4,3)] by (simp add: winv_def setWorld_def)
next
  case (ws_ext s w')
  then have inv: "sys_inv (base s)" and at: "attended s" by (auto simp: winv_def)
  then have wf: "wf_st (world (base s))" "wf_bus (bus (world (base s)))" by (auto simp: sys_inv_def)
  note e = quiet_ext_call [OF ws_ext(1)]
  have "attended (setWorld w' s)"
    using signalled_quiet [OF ws_ext(1)] ext_effect [OF e wf, of "\<lambda>_. True"] by (intro attended_world [OF at]) (auto simp: setWorld_def)
  with sys_inv_ext [OF inv e] show ?case by (simp add: winv_def setWorld_def)
next
  case (ws_manual i prompt s r w')
  then have inv: "sys_inv (base s)" and at: "attended s" by (auto simp: winv_def)
  have "ext_call te (world (base s)) w'" using ext_Manual [of te "world (base s)" i prompt] ws_manual(1) by simp
  note si = sys_inv_ext [OF inv this]
  have "attended ((setWorld w' s)\<lparr>waking := (if isl r then waking s else Suc (waking s))\<rparr>)"
  proof (cases r)
    case (Inl e)
    have "db w' = db (world (base s))" "wake w' = wake (world (base s))" "workers w' = workers (world (base s))"
      using ws_manual(1) Inl by (auto simp: InsertManualContinuation_def Let_def bindE_Inl_iff NewID_run Now_def Exec_def insert_row_def
          split: if_splits option.splits)
    then show ?thesis using Inl by (intro attended_world [OF at signalled_same]) (auto simp: setWorld_def)
  qed (simp add: attended_def setWorld_def)
  with si show ?case by (simp add: winv_def setWorld_def)
next
  case (ws_signal s n)
  then show ?case by (auto simp: winv_def attended_def setWorld_def intro!: sys_inv_upd)
next
  case (ws_frame w' s)
  from ws_frame(5) have inv: "sys_inv (base s)" and at: "attended s" by (auto simp: winv_def)
  have "signalled (world (base s)) w'" using ws_frame(1,4) by (auto simp: signalled_def pendingSids_def)
  then have "attended (setWorld w' s)"
    by (rule attended_world [OF at]) (simp_all add: setWorld_def ws_frame(3))
  moreover have "sys_inv ((base s)\<lparr>world := w'\<rparr>)" by (rule sys_inv_upd [OF inv ws_frame(1-3)])
  ultimately show ?case by (simp add: winv_def setWorld_def)
next
  case (ws_take s f)
  then show ?case by (auto simp: winv_def attended_def setWorld_def intro!: sys_inv_upd)
next
  case (ws_tick s f)
  then show ?case by (auto simp: winv_def attended_def)
next
  case (ws_query s r w')
  have "w' = (world (base s))\<lparr>nfault := Suc (nfault (world (base s)))\<rparr>"
    using ws_query(2) by (cases r) (auto simp: PendingSessions_def dest: Query_Inl Query_Inr)
  moreover have "attended ((setWorld w' s)\<lparr>scanner := afterQuery r\<rparr>)"
  proof (cases r)
    case (Inr ss)
    with ws_query(2) PendingSessions_Inr [of "world (base s)" ss w']
    have "set ss = {sid. pendingOf sid (db (world (base s))) \<noteq> []}" "db w' = db (world (base s))" by auto
    then have "pendingSids w' \<subseteq> set ss" by (auto simp: pendingSids_def pendingOf_def filter_empty_conv)
    with Inr show ?thesis by (auto simp: attended_def setWorld_def)
  qed (simp add: attended_def)
  ultimately show ?case using ws_query(3) by (auto simp: winv_def setWorld_def intro!: sys_inv_upd)
next
  case (ws_spawn s ss)
  then have inv: "sys_inv (base s)" and at: "attended s" by (auto simp: winv_def)
  have "wake (world (spawn ss (base s))) = wake (world (base s))" by (simp add: spawn_def split: prod.splits)
  with at ws_spawn(1) inv_spawn [OF inv, of ss] show ?case by (auto simp: winv_def attended_def)
next
  case (ws_restart s)
  then show ?case by (auto simp: winv_def attended_def Let_def intro!: sys_inv_upd inv_restart)
qed

interpretation wsysq: invariant_system winit "wstep te ads" winv for te ads
proof unfold_locales
  show "winv s" if "winit s" for s
    using that sysq.inv_init [of "base s"] by (simp add: winit_def winv_def attended_def)
  show "winv t" if "winv s" "wstep te ads s t" for s t
    using that winv_step by blast
qed

section \<open>Properties\<close>


section \<open>A concrete run\<close>

definition exWake0 :: "unit wsys" where
  "exWake0 = \<lparr>base = exSys0, scanner = Scanning, waking = 0\<rparr>"

definition exWake1 :: "unit wsys" where
  \<comment> \<open>a continuation is queued by hand before the first query\<close>
  "exWake1 = \<lparr>base = exSys1, scanner = Scanning, waking = 1\<rparr>"

definition exWake2 :: "unit wsys" where
  \<comment> \<open>the query finds it and a worker is started\<close>
  "exWake2 = exWake1\<lparr>base := spawn [''s1''] ((base exWake1)\<lparr>world := snd (PendingSessions (world exSys1))\<rparr>), scanner := Waiting False\<rparr>"

lemma exWake2_reach: "reach winit (wstep exEngine (\<lambda>_. [])) exWake2"
proof -
  have i: "reach winit (wstep exEngine (\<lambda>_. [])) exWake0"
    by (rule reach_init) (simp add: winit_def exWake0_def exSys0_init)
  obtain r w where m: "InsertManualContinuation ''s1'' ''go'' (world (base exWake0)) = (r, w)" "\<not> isl r" "w = world exSys1"
    by (simp add: exWake0_def exSys1_def exSys0_def exD_def InsertManualContinuation_def Now_def NewID_run bindE_def Let_def
        Exec_def insert_row_def emptyDB_def)
  have "exWake1 = (setWorld w exWake0)\<lparr>waking := Suc (waking exWake0)\<rparr>"
    using m(3) by (simp add: exWake1_def exWake0_def setWorld_def exSys1_def exSys0_def)
  with ws_manual [OF m(1), of exEngine "\<lambda>_. []"] m(2) have "wstep exEngine (\<lambda>_. []) exWake0 exWake1" by simp
  from reach_step [OF i this] have r1: "reach winit (wstep exEngine (\<lambda>_. [])) exWake1" .
  have q: "PendingSessions (world (base exWake1)) = (Inr [''s1''], snd (PendingSessions (world exSys1)))"
    by (simp add: exWake1_def exSys1_def exSys0_def exD_def InsertManualContinuation_def Now_def NewID_run bindE_def Let_def
        Exec_def insert_row_def emptyDB_def PendingSessions_def Query_def)
  have "scanner exWake1 = Scanning" by (simp add: exWake1_def)
  let ?s = "(setWorld (snd (PendingSessions (world exSys1))) exWake1)\<lparr>scanner := Spawning [''s1'']\<rparr>"
  have "wstep exEngine (\<lambda>_. []) exWake1 ?s"
    using ws_query [OF \<open>scanner exWake1 = Scanning\<close> q, of exEngine "\<lambda>_. []"] by simp
  with r1 have r2: "reach winit (wstep exEngine (\<lambda>_. [])) ?s" by (rule reach_step)
  have "exWake2 = ?s\<lparr>base := spawn [''s1''] (base ?s), scanner := Waiting False\<rparr>"
    by (simp add: exWake2_def exWake1_def setWorld_def)
  moreover have "scanner ?s = Spawning [''s1'']" by simp
  from ws_spawn [OF this, of exEngine "\<lambda>_. []"]
  have "wstep exEngine (\<lambda>_. []) ?s (?s\<lparr>base := spawn [''s1''] (base ?s), scanner := Waiting False\<rparr>)" .
  ultimately have "wstep exEngine (\<lambda>_. []) ?s exWake2" by simp
  with r2 show ?thesis by (rule reach_step)
qed


end
