(* ===== verification/Watchers.thy ===== *)
theory Watchers
  imports Watch GoStrings
begin

text \<open>
  The watchers of \<^verbatim>\<open>src/internal/watch\<close>: the polling loop and its probers, the
  docker, file and git watchers.

  A watcher blocks until its context is cancelled and reacts to what it observes in
  between, so its model is a step function from an observation to at most one emission,
  fed with a finite sequence of observations (\<open>feed\<close>): the run up to any moment. What
  the operating system answers (probe results and clock readings, file system
  notifications, the outputs of the docker CLI) is the input.

  The contract shared by the watchers with state is edge semantics, the locale
  \<open>edge_stream\<close>: the same state is never reported twice in a row.
\<close>

section \<open>Emissions and their contract\<close>

type_synonym emission = "string \<times> string \<times> (string \<rightharpoonup> string)"
  \<comment> \<open>the arguments of an \<open>Emitter\<close>: event type, source, payload\<close>

fun feed :: "('s \<Rightarrow> 'i \<Rightarrow> 's \<times> 'o option) \<Rightarrow> 's \<Rightarrow> 'i list \<Rightarrow> 's \<times> 'o list" where
  "feed step s [] = (s, [])"
| "feed step s (i # xs) = (case step s i of (s1, out) \<Rightarrow>
     (case feed step s1 xs of (s2, os) \<Rightarrow>
       (s2, (case out of None \<Rightarrow> os | Some x \<Rightarrow> x # os))))"

lemma feed_append:
  "feed step s (xs @ ys) = (case feed step s xs of (s1, o1) \<Rightarrow>
     (case feed step s1 ys of (s2, o2) \<Rightarrow> (s2, o1 @ o2)))"
  by (induction xs arbitrary: s) (auto split: prod.splits option.splits)

lemma feed_all:
  assumes "\<And>s i s' x. step s i = (s', Some x) \<Longrightarrow> P x"
  shows "list_all P (snd (feed step s xs))"
proof (induction xs arbitrary: s)
  case (Cons i xs)
  obtain s1 out where st: "step s i = (s1, out)" by (cases "step s i")
  with Cons [of s1] assms [of s i s1] show ?case by (cases out) (auto split: prod.splits)
qed simp

locale edge_stream =
  fixes step :: "'s \<Rightarrow> 'i \<Rightarrow> 's \<times> 'o option" and key :: "'o \<Rightarrow> 'k" and shown :: "'s \<Rightarrow> 'k option"
  assumes emits_edge: "step s i = (s', Some x) \<Longrightarrow> shown s' = Some (key x) \<and> shown s \<noteq> Some (key x)"
    and quiet_keeps: "step s i = (s', None) \<Longrightarrow> shown s' = shown s"
begin

lemma edges_alternate:
  assumes "feed step s xs = (s', os)"
  shows "successively (\<noteq>) ((case shown s of None \<Rightarrow> [] | Some k \<Rightarrow> [k]) @ map key os) \<and>
    shown s' = (if os = [] then shown s else Some (key (last os)))"
  using assms
proof (induction xs arbitrary: s os)
  case Nil
  then show ?case by (cases "shown s") auto
next
  case (Cons i xs)
  obtain s1 out where st: "step s i = (s1, out)" by (cases "step s i")
  obtain os1 where f: "feed step s1 xs = (s', os1)"
    and os: "os = (case out of None \<Rightarrow> os1 | Some x \<Rightarrow> x # os1)"
    using Cons.prems st by (auto split: prod.splits)
  note IH = Cons.IH [OF f]
  show ?case
  proof (cases out)
    case None
    with st quiet_keeps IH os show ?thesis by fastforce
  next
    case (Some x)
    with st emits_edge [of s i s1 x] IH os show ?thesis
      by (cases "shown s") auto
  qed
qed

end

section \<open>The poller\<close>

record poller =
  p_current :: bool
  p_pending :: "(bool \<times> time) option"

definition pollTick :: "Config \<Rightarrow> poller \<Rightarrow> bool \<times> time \<Rightarrow> poller \<times> bool option" where
  \<comment> \<open>one tick of the loop: the probe's result and the clock\<close>
  "pollTick cfg p i = (case i of (got, now) \<Rightarrow>
     if got = p_current p then (p\<lparr>p_pending := None\<rparr>, None)
     else
       let pend = (case p_pending p of
           None \<Rightarrow> (got, now)
         | Some (v, since) \<Rightarrow> if v \<noteq> got then (got, now) else (v, since)) in
       if now - snd pend \<ge> StabilityThreshold cfg
       then (p\<lparr>p_current := got, p_pending := None\<rparr>, Some got)
       else (p\<lparr>p_pending := Some pend\<rparr>, None))"

definition pollStart :: "bool \<Rightarrow> poller" where
  "pollStart up = \<lparr>p_current = up, p_pending = None\<rparr>"

definition RunPoller :: "Config \<Rightarrow> string \<Rightarrow> string \<Rightarrow> string \<Rightarrow> bool \<Rightarrow> (bool \<times> time) list \<Rightarrow> emission list" where
  "RunPoller cfg posType negType source first ticks =
     map (\<lambda>up. (if up then posType else negType, source, Map.empty))
       (first # snd (feed (pollTick (WithDefaults cfg)) (pollStart first) ticks))"

interpretation poll: edge_stream "pollTick cfg" id "\<lambda>p. Some (p_current p)" for cfg
  by unfold_locales (auto simp: pollTick_def Let_def split: if_splits)

text \<open>
  (C28) Edge semantics of the poller. The current state is reported at once, and from then on
  the reports alternate between the two event types: a state is never reported twice in a
  row.
\<close>

theorem poller_edges:
  assumes "posType \<noteq> negType"
  shows "hd (RunPoller cfg posType negType source first ticks) = (if first then posType else negType, source, Map.empty) \<and>
    successively (\<noteq>) (map fst (RunPoller cfg posType negType source first ticks))"
proof -
  obtain p os where f: "feed (pollTick (WithDefaults cfg)) (pollStart first) ticks = (p, os)"
    by (cases "feed (pollTick (WithDefaults cfg)) (pollStart first) ticks")
  from poll.edges_alternate [OF f] have "successively (\<noteq>) (first # os)"
    by (simp add: pollStart_def)
  then have "successively (\<noteq>) (map (\<lambda>up. if up then posType else negType) (first # os))"
    unfolding successively_map by (rule successively_mono) (use assms in auto)
  with f show ?thesis by (simp add: RunPoller_def comp_def)
qed

subsection \<open>Flap suppression\<close>

definition steady :: "poller \<Rightarrow> (bool \<times> time) list \<Rightarrow> bool" where
  \<comment> \<open>a pending change is backed by the most recent ticks\<close>
  "steady p ticks \<longleftrightarrow> (case p_pending p of None \<Rightarrow> True | Some (v, since) \<Rightarrow>
     (\<exists>pre suf. ticks = pre @ suf \<and> suf \<noteq> [] \<and> (\<forall>x\<in>set suf. fst x = v) \<and> snd (hd suf) = since))"

lemma steady_tick:
  assumes "steady p ticks" and "pollTick cfg p (b, t) = (p', out)"
  shows "steady p' (ticks @ [(b, t)]) \<and> (\<forall>x. out = Some x \<longrightarrow> x = b \<and>
    (\<exists>pre suf. ticks @ [(b, t)] = pre @ suf \<and> suf \<noteq> [] \<and> (\<forall>x\<in>set suf. fst x = b) \<and>
       StabilityThreshold cfg \<le> t - snd (hd suf)))"
proof (cases "b = p_current p")
  case True
  with assms show ?thesis by (auto simp: pollTick_def steady_def)
next
  case False
  define pend where "pend = (case p_pending p of None \<Rightarrow> (b, t)
     | Some (v, since) \<Rightarrow> if v \<noteq> b then (b, t) else (v, since))"
  have ex: "fst pend = b \<and> (\<exists>pre suf. ticks @ [(b, t)] = pre @ suf \<and> suf \<noteq> [] \<and>
      (\<forall>x\<in>set suf. fst x = b) \<and> snd (hd suf) = snd pend)"
  proof (cases "\<exists>since. p_pending p = Some (b, since)")
    case True
    then obtain since where s: "p_pending p = Some (b, since)" by blast
    with assms(1) obtain pre suf where "ticks = pre @ suf" "suf \<noteq> []" "\<forall>x\<in>set suf. fst x = b" "snd (hd suf) = since"
      by (auto simp: steady_def)
    then have "ticks @ [(b, t)] = pre @ (suf @ [(b, t)]) \<and> suf @ [(b, t)] \<noteq> [] \<and>
        (\<forall>x\<in>set (suf @ [(b, t)]). fst x = b) \<and> snd (hd (suf @ [(b, t)])) = since" by auto
    moreover have "pend = (b, since)" using s by (simp add: pend_def)
    ultimately show ?thesis by (metis fst_conv snd_conv)
  next
    case False
    then have "pend = (b, t)" by (auto simp: pend_def split: option.splits)
    moreover have "ticks @ [(b, t)] = ticks @ [(b, t)] \<and> [(b, t)] \<noteq> [] \<and>
        (\<forall>x\<in>set [(b, t)]. fst x = b) \<and> snd (hd [(b, t)]) = t" by simp
    ultimately show ?thesis by (metis fst_conv snd_conv)
  qed
  have tick: "pollTick cfg p (b, t) = (if t - snd pend \<ge> StabilityThreshold cfg
      then (p\<lparr>p_current := b, p_pending := None\<rparr>, Some b) else (p\<lparr>p_pending := Some pend\<rparr>, None))"
    using False by (auto simp: pollTick_def pend_def Let_def)
  show ?thesis
  proof (cases "t - snd pend \<ge> StabilityThreshold cfg")
    case True
    from ex obtain pre suf where e: "ticks @ [(b, t)] = pre @ suf" "suf \<noteq> []" "\<forall>x\<in>set suf. fst x = b"
      "snd (hd suf) = snd pend" by blast
    have "\<exists>pre suf. ticks @ [(b, t)] = pre @ suf \<and> suf \<noteq> [] \<and> (\<forall>x\<in>set suf. fst x = b) \<and>
       StabilityThreshold cfg \<le> t - snd (hd suf)"
      by (rule exI [of _ pre], rule exI [of _ suf]) (use e True in simp)
    with True tick assms(2) show ?thesis by (simp add: steady_def)
  next
    case False
    with tick assms(2) ex show ?thesis by (cases pend) (auto simp: steady_def)
  qed
qed

lemma steady_feed:
  assumes "steady p done0" and "feed (pollTick cfg) p ticks = (p', os)"
  shows "steady p' (done0 @ ticks)"
  using assms
proof (induction ticks arbitrary: p done0 os)
  case (Cons i ticks)
  obtain b t where i: "i = (b, t)" by (cases i)
  obtain p1 out where st: "pollTick cfg p (b, t) = (p1, out)" by (cases "pollTick cfg p (b, t)")
  obtain os1 where f: "feed (pollTick cfg) p1 ticks = (p', os1)"
    using Cons.prems(2) st i by (auto split: prod.splits)
  from Cons.IH [OF _ f, of "done0 @ [(b, t)]"] steady_tick [OF Cons.prems(1) st] i show ?case by simp
qed simp

text \<open>
  (C29) Flap suppression. When the poller reports a change after its start, then the probes
  have returned the reported state, without interruption, for at least the stability threshold.
\<close>

theorem poller_reports_stable:
  assumes "feed (pollTick cfg) (pollStart first) ticks = (p, os)" and "pollTick cfg p (b, t) = (p', Some out)"
  shows "out = b \<and> (\<exists>pre suf. ticks @ [(b, t)] = pre @ suf \<and> suf \<noteq> [] \<and> (\<forall>x\<in>set suf. fst x = b) \<and>
    StabilityThreshold cfg \<le> t - snd (hd suf))"
proof -
  have "steady (pollStart first) []" by (simp add: steady_def pollStart_def)
  from steady_feed [OF this assms(1)] have "steady p ticks" by simp
  from steady_tick [OF this assms(2)] show ?thesis by simp
qed

definition sinceOf :: "bool \<Rightarrow> time \<Rightarrow> poller \<Rightarrow> time" where
  \<comment> \<open>since when a change to \<open>b\<close> observed at time \<open>t\<close> is pending\<close>
  "sinceOf b t p = (case p_pending p of Some (v, since) \<Rightarrow> if v = b then since else t | None \<Rightarrow> t)"

lemma poll_holding:
  assumes "\<forall>x\<in>set ticks. fst x = b" and "ticks \<noteq> []" and "feed (pollTick cfg) p ticks = (p', os)"
  shows "p_current p' = b \<or> p_current p \<noteq> b \<and> p_pending p' = Some (b, sinceOf b (snd (hd ticks)) p) \<and>
    snd (last ticks) - sinceOf b (snd (hd ticks)) p < StabilityThreshold cfg"
  using assms
proof (induction ticks arbitrary: p os)
  case (Cons i ticks)
  obtain t where i: "i = (b, t)" using Cons.prems(1) by (cases i) auto
  obtain p1 out where st: "pollTick cfg p (b, t) = (p1, out)" by (cases "pollTick cfg p (b, t)")
  obtain os1 where f: "feed (pollTick cfg) p1 ticks = (p', os1)"
    using Cons.prems(3) st i by (auto split: prod.splits)
  have tick: "p_current p1 = b \<or> p_current p1 \<noteq> b \<and> p_current p \<noteq> b \<and> p_pending p1 = Some (b, sinceOf b t p) \<and>
      t - sinceOf b t p < StabilityThreshold cfg"
    using st by (auto simp: pollTick_def sinceOf_def Let_def split: if_splits option.splits)
  show ?case
  proof (cases "ticks = []")
    case True
    with f tick i show ?thesis by auto
  next
    case False
    from Cons.IH [OF _ False f] Cons.prems(1)
    have "p_current p' = b \<or> p_current p1 \<noteq> b \<and> p_pending p' = Some (b, sinceOf b (snd (hd ticks)) p1) \<and>
      snd (last ticks) - sinceOf b (snd (hd ticks)) p1 < StabilityThreshold cfg" by simp
    moreover have "p_current p1 \<noteq> b \<Longrightarrow> sinceOf b (snd (hd ticks)) p1 = sinceOf b t p"
      using tick by (auto simp: sinceOf_def [of b _ p1])
    ultimately show ?thesis using tick i False by auto
  qed
qed simp

text \<open>
  (C30) Convergence. When the probes keep returning the same state for the stability
  threshold, the poller believes it, and has reported it last: a lasting change is never missed.
\<close>

theorem poller_converges:
  assumes "feed (pollTick cfg) (pollStart first) (ticks @ hold) = (p, os)" and "hold \<noteq> []"
    and "\<forall>x\<in>set hold. fst x = b" and "StabilityThreshold cfg \<le> snd (last hold) - snd (hd hold)"
    and mono: "sorted (map snd (ticks @ hold))"
  shows "p_current p = b \<and> last (first # os) = b"
proof -
  obtain p1 o1 o2 where f1: "feed (pollTick cfg) (pollStart first) ticks = (p1, o1)"
    and f2: "feed (pollTick cfg) p1 hold = (p, o2)"
    using assms(1) by (auto simp: feed_append split: prod.splits)
  have "steady (pollStart first) []" by (simp add: steady_def pollStart_def)
  from steady_feed [OF this f1] have st: "steady p1 ticks" by simp
  have "sinceOf b (snd (hd hold)) p1 \<le> snd (hd hold)"
  proof (cases "\<exists>since. p_pending p1 = Some (b, since)")
    case True
    then obtain since where s: "p_pending p1 = Some (b, since)" by blast
    with st obtain pre suf where "ticks = pre @ suf" "suf \<noteq> []" "snd (hd suf) = since"
      by (auto simp: steady_def)
    then have "since \<in> set (map snd ticks)" by force
    moreover have "snd (hd hold) \<in> set (map snd hold)" using assms(2) by simp
    ultimately have "since \<le> snd (hd hold)" using mono by (fastforce simp: sorted_append)
    with s show ?thesis by (simp add: sinceOf_def)
  next
    case False
    then show ?thesis by (auto simp: sinceOf_def split: option.splits)
  qed
  with poll_holding [OF assms(3,2) f2] assms(4) have "p_current p = b" by force
  moreover have "p_current p = last (first # os)"
    using poll.edges_alternate [OF assms(1)] by (auto simp: pollStart_def split: if_splits)
  ultimately show ?thesis by simp
qed

section \<open>Probers\<close>

text \<open>
  What a probe asks the system is a parameter: the response status of the request to the
  target itself, the outcome of a dial, the process table.
\<close>

definition HTTPProber :: "(string \<Rightarrow> error + int) \<Rightarrow> string \<Rightarrow> bool" where
  \<comment> \<open>\<open>get\<close>: the status of a GET request that follows no redirect\<close>
  "HTTPProber get url = (case get url of Inl _ \<Rightarrow> False | Inr code \<Rightarrow> 200 \<le> code \<and> code < 400)"

definition TCPProber :: "(string \<Rightarrow> error option) \<Rightarrow> string \<Rightarrow> bool" where
  "TCPProber dial addr = (case dial addr of Some _ \<Rightarrow> False | None \<Rightarrow> True)"

fun scanProcs :: "int \<Rightarrow> string \<Rightarrow> (int \<times> (error + string)) list \<Rightarrow> bool" where
  "scanProcs self pattern [] = False"
| "scanProcs self pattern ((pid, cmdline) # ps) =
     (if pid = self then scanProcs self pattern ps
      else (case cmdline of
         Inl _ \<Rightarrow> scanProcs self pattern ps
       | Inr c \<Rightarrow> if c = [] then scanProcs self pattern ps
           else if Contains c pattern then True else scanProcs self pattern ps))"

definition ProcessProber :: "int \<Rightarrow> (error + (int \<times> (error + string)) list) \<Rightarrow> string \<Rightarrow> bool" where
  "ProcessProber self procs pattern =
     (case procs of Inl _ \<Rightarrow> False | Inr ps \<Rightarrow> scanProcs self pattern ps)"

lemma scanProcs_iff:
  "scanProcs self pattern ps \<longleftrightarrow>
     (\<exists>pid c. (pid, Inr c) \<in> set ps \<and> pid \<noteq> self \<and> c \<noteq> [] \<and> Contains c pattern)"
  by (induction self pattern ps rule: scanProcs.induct) (auto split: sum.splits)

text \<open>
  The process probe. It holds exactly when the process table could be read and some
  process other than the daemon has a readable, non-empty command line that contains the
  pattern as a substring.
\<close>

theorem process_probe_iff:
  "ProcessProber self procs pattern \<longleftrightarrow>
     (\<exists>ps pid pre post. procs = Inr ps \<and> (pid, Inr (pre @ pattern @ post)) \<in> set ps \<and> pid \<noteq> self \<and>
        pre @ pattern @ post \<noteq> [])"
  unfolding ProcessProber_def by (auto simp: scanProcs_iff Contains_iff split: sum.splits)

section \<open>The docker watcher\<close>

record DockerEvent =
  de_Type :: string
  de_Action :: string
  de_Attributes :: "string \<rightharpoonup> string"

definition attr :: "(string \<rightharpoonup> string) \<Rightarrow> string \<Rightarrow> string" where
  \<comment> \<open>a Go map lookup: the zero value when the key is absent\<close>
  "attr m k = (case m k of None \<Rightarrow> [] | Some v \<Rightarrow> v)"

definition MapDockerEvent :: "(string \<Rightarrow> DockerEvent option) \<Rightarrow> string \<Rightarrow> string \<times> (string \<rightharpoonup> string)" where
  \<comment> \<open>\<open>dec\<close> decodes a line of \<open>docker events --format '{{json .}}'\<close>\<close>
  "MapDockerEvent dec line = (case dec line of
     None \<Rightarrow> ([], Map.empty)
   | Some ev \<Rightarrow>
       if de_Type ev \<noteq> ''container'' then ([], Map.empty)
       else
         let payload = [''container'' \<mapsto> attr (de_Attributes ev) ''name'']; a = de_Action ev in
         if a = ''start'' then (''docker.started'', payload)
         else if a = ''die'' \<or> a = ''stop'' \<or> a = ''kill'' then (''docker.stopped'', payload)
         else if a = ''health_status: healthy'' then (''docker.healthy'', payload)
         else if a = ''health_status: unhealthy'' then (''docker.unhealthy'', payload)
         else ([], Map.empty))"

definition MapDockerInspect :: "string \<Rightarrow> string" where
  "MapDockerInspect out =
     (let fields = Fields (TrimSpace out) in
      case fields of
        [] \<Rightarrow> []
      | status # rest \<Rightarrow>
          let health = (case rest of [] \<Rightarrow> [] | h # _ \<Rightarrow> h) in
          if status = ''running'' \<and> health = ''healthy'' then ''docker.healthy''
          else if status = ''running'' \<and> health = ''unhealthy'' then ''docker.unhealthy''
          else if status = ''running'' then ''docker.started''
          else ''docker.stopped'')"

datatype docker_in = Inspect "string option" | EventLine string
  \<comment> \<open>the output of \<open>docker inspect\<close> (\<open>None\<close>: it failed), a line of the event stream\<close>

definition emitOnce :: "string \<Rightarrow> string \<Rightarrow> string \<Rightarrow> (string \<rightharpoonup> string) \<Rightarrow> string \<times> emission option" where
  "emitOnce container lastType evType payload =
     (if evType = [] \<or> evType = lastType then (lastType, None)
      else (evType, Some (evType, container, payload)))"

definition dockerStep :: "(string \<Rightarrow> DockerEvent option) \<Rightarrow> string \<Rightarrow> string \<Rightarrow> docker_in \<Rightarrow> string \<times> emission option" where
  "dockerStep dec container lastType i = (case i of
     Inspect None \<Rightarrow> (lastType, None)
   | Inspect (Some out) \<Rightarrow> emitOnce container lastType (MapDockerInspect out) [''container'' \<mapsto> container]
   | EventLine l \<Rightarrow> (case MapDockerEvent dec l of (evType, payload) \<Rightarrow>
       emitOnce container lastType evType payload))"

definition RunDockerWatch ::
  "(string \<Rightarrow> DockerEvent option) \<Rightarrow> string \<Rightarrow> (string option \<times> string list) list \<Rightarrow> emission list" where
  \<comment> \<open>each round of the loop: one inspect, then the lines of the stream until it ends\<close>
  "RunDockerWatch dec container rounds = snd (feed (dockerStep dec container) []
     (concat (map (\<lambda>(o1, ls). Inspect o1 # map EventLine ls) rounds)))"

interpretation dock: edge_stream "dockerStep dec container" fst
    "\<lambda>lastType. if lastType = [] then None else Some lastType" for dec container
  by unfold_locales (auto simp: dockerStep_def emitOnce_def
      split: docker_in.splits option.splits prod.splits if_splits)

definition dockerState :: "(string \<Rightarrow> DockerEvent option) \<Rightarrow> docker_in \<Rightarrow> string" where
  \<comment> \<open>the state an observation shows; empty when it shows none\<close>
  "dockerState dec i = (case i of Inspect None \<Rightarrow> [] | Inspect (Some out) \<Rightarrow> MapDockerInspect out
     | EventLine l \<Rightarrow> fst (MapDockerEvent dec l))"

lemma dockerStep_state:
  assumes "dockerStep dec c lt i = (lt', out)"
  shows "if dockerState dec i = [] \<or> dockerState dec i = lt then lt' = lt \<and> out = None
    else lt' = dockerState dec i \<and> (\<exists>pl. out = Some (dockerState dec i, c, pl))"
  using assms by (auto simp: dockerStep_def dockerState_def emitOnce_def
      split: docker_in.splits option.splits prod.splits if_splits)

lemma docker_feed:
  "map fst (snd (feed (dockerStep dec c) lt ins)) =
     tl (remdups_adj (lt # filter (\<lambda>t. t \<noteq> []) (map (dockerState dec) ins)))"
proof (induction ins arbitrary: lt)
  case (Cons i ins)
  obtain lt' out where st: "dockerStep dec c lt i = (lt', out)" by (cases "dockerStep dec c lt i")
  obtain s os where f: "feed (dockerStep dec c) lt' ins = (s, os)" by (cases "feed (dockerStep dec c) lt' ins")
  have os: "map fst os = tl (remdups_adj (lt' # filter (\<lambda>t. t \<noteq> []) (map (dockerState dec) ins)))"
    using Cons.IH [of lt'] f by simp
  show ?case
  proof (cases "dockerState dec i = [] \<or> dockerState dec i = lt")
    case True
    with dockerStep_state [OF st] st f os show ?thesis by (cases "dockerState dec i = []") auto
  next
    case False
    with dockerStep_state [OF st] obtain pl where "lt' = dockerState dec i" "out = Some (dockerState dec i, c, pl)" by auto
    with False st f os show ?thesis by auto
  qed
qed simp

text \<open>
  (C31) The docker watcher reports exactly the changes of state. Over any number of inspects
  and restarts of the event stream, the reported types are the states shown by the
  observations, in order, with the uninformative ones left out and immediate repetitions
  removed; each is reported for the watched container.
\<close>

theorem docker_reports_changes:
  "map fst (RunDockerWatch dec container rounds) =
     remdups_adj (filter (\<lambda>t. t \<noteq> []) (map (dockerState dec)
       (concat (map (\<lambda>(o1, ls). Inspect o1 # map EventLine ls) rounds))))"
proof -
  have "tl (remdups_adj ([] # filter (\<lambda>t. t \<noteq> []) xs)) = remdups_adj (filter (\<lambda>t. t \<noteq> []) xs)" for xs :: "string list"
  proof (cases "filter (\<lambda>t. t \<noteq> []) xs")
    case (Cons y ys)
    then have "y \<in> set (filter (\<lambda>t. t \<noteq> []) xs)" by simp
    then have "y \<noteq> []" by simp
    with Cons show ?thesis by simp
  qed simp
  then show ?thesis by (simp add: RunDockerWatch_def docker_feed)
qed

section \<open>The file watcher\<close>

datatype fs_op = Create | Write | Remove | Rename | Chmod

datatype file_in =
    AddParent bool bool
      \<comment> \<open>an attempt to watch the parent: whether it succeeded, and whether the file exists\<close>
  | FsEvent string "fs_op list"
  | Timer bool
      \<comment> \<open>the debounce timer, and whether the file exists now\<close>
  | FsError

datatype file_mode = Arming | Watching | Rearming

record file_watch =
  fw_mode :: file_mode
  fw_exists :: bool
  fw_armed :: bool
    \<comment> \<open>a burst is pending: the timer channel is not nil\<close>

definition fileStart :: file_watch where
  "fileStart = \<lparr>fw_mode = Arming, fw_exists = False, fw_armed = False\<rparr>"

definition fileSettle :: "string \<Rightarrow> bool \<Rightarrow> bool \<Rightarrow> emission option" where
  \<comment> \<open>the report at the end of a burst\<close>
  "fileSettle path nowExists exists =
     (if nowExists \<and> \<not> exists then Some (''file.created'', path, Map.empty)
      else if nowExists \<and> exists then Some (''file.changed'', path, Map.empty)
      else if \<not> nowExists \<and> exists then Some (''file.removed'', path, Map.empty)
      else None)"

definition fileStep :: "string \<Rightarrow> string \<Rightarrow> string \<Rightarrow> file_watch \<Rightarrow> file_in \<Rightarrow> file_watch \<times> emission option" where
  "fileStep path absp parent f i = (case fw_mode f of
     Arming \<Rightarrow> (case i of
       AddParent True e \<Rightarrow> (f\<lparr>fw_mode := Watching, fw_exists := e\<rparr>,
         if e then Some (''file.created'', path, Map.empty) else None)
     | _ \<Rightarrow> (f, None))
   | Rearming \<Rightarrow> (case i of
       AddParent True e \<Rightarrow> (f\<lparr>fw_mode := Watching, fw_exists := e\<rparr>,
         if e then Some (''file.created'', path, Map.empty) else None)
     | _ \<Rightarrow> (f, None))
   | Watching \<Rightarrow> (case i of
       FsEvent name ops \<Rightarrow>
         if name = parent \<and> (Remove \<in> set ops \<or> Rename \<in> set ops)
         then (f\<lparr>fw_mode := Rearming, fw_exists := False\<rparr>,
           if fw_exists f then Some (''file.removed'', path, Map.empty) else None)
         else if name \<noteq> absp \<or> \<not> (Create \<in> set ops \<or> Write \<in> set ops \<or> Remove \<in> set ops \<or> Rename \<in> set ops)
         then (f, None)
         else (f\<lparr>fw_armed := True\<rparr>, None)
     | Timer nowExists \<Rightarrow>
         if fw_armed f then (f\<lparr>fw_armed := False, fw_exists := nowExists\<rparr>, fileSettle path nowExists (fw_exists f))
         else (f, None)
     | _ \<Rightarrow> (f, None)))"

definition RunFileWatch :: "string \<Rightarrow> string \<Rightarrow> string \<Rightarrow> file_in list \<Rightarrow> emission list" where
  "RunFileWatch path absp parent ins = snd (feed (fileStep path absp parent) fileStart ins)"

fun fileGrammar :: "bool \<Rightarrow> string list \<Rightarrow> bool" where
  \<comment> \<open>the reports allowed when the file is known to exist or not\<close>
  "fileGrammar e [] = True"
| "fileGrammar e (t # ts) =
     (if t = ''file.created'' then \<not> e \<and> fileGrammar True ts
      else if t = ''file.changed'' then e \<and> fileGrammar True ts
      else if t = ''file.removed'' then e \<and> fileGrammar False ts
      else False)"

lemma fileStep_reports:
  assumes "fileStep path absp parent f i = (f', out)"
  shows "case out of
      None \<Rightarrow> fw_exists f' = fw_exists f \<or> \<not> fw_exists f' \<and> fw_mode f = Rearming \<or> \<not> fw_exists f' \<and> fw_mode f = Arming
    | Some (t, src, pl) \<Rightarrow> src = path \<and> pl = Map.empty \<and>
        (t = ''file.created'' \<and> fw_exists f' \<and> (\<not> fw_exists f \<or> fw_mode f \<noteq> Watching) \<or>
         t = ''file.changed'' \<and> fw_exists f' \<and> fw_exists f \<or>
         t = ''file.removed'' \<and> \<not> fw_exists f' \<and> fw_exists f)"
  using assms
  by (auto simp: fileStep_def fileSettle_def split: file_mode.splits file_in.splits bool.splits if_splits)

definition wf_file :: "file_watch \<Rightarrow> bool" where
  "wf_file f \<longleftrightarrow> (fw_mode f \<noteq> Watching \<longrightarrow> \<not> fw_exists f)"

lemma wf_fileStep:
  assumes "wf_file f" and "fileStep path absp parent f i = (f', out)"
  shows "wf_file f'"
  using assms
  by (auto simp: wf_file_def fileStep_def split: file_mode.splits file_in.splits bool.splits if_splits)

lemma file_feed:
  assumes "wf_file f" and "feed (fileStep path absp parent) f ins = (f', os)"
  shows "fileGrammar (fw_exists f) (map fst os) \<and>
    fw_exists f' = (if os = [] then fw_exists f else fst (last os) \<noteq> ''file.removed'')"
  using assms
proof (induction ins arbitrary: f os)
  case (Cons i ins)
  obtain f1 out where st: "fileStep path absp parent f i = (f1, out)" by (cases "fileStep path absp parent f i")
  obtain os1 where f: "feed (fileStep path absp parent) f1 ins = (f', os1)"
    and os: "os = (case out of None \<Rightarrow> os1 | Some x \<Rightarrow> x # os1)"
    using Cons.prems(2) st by (auto split: prod.splits)
  from Cons.IH [OF wf_fileStep [OF Cons.prems(1) st] f] fileStep_reports [OF st] Cons.prems(1) os
  show ?case by (cases out) (auto simp: wf_file_def split: if_splits)
qed simp

text \<open>
  The file watcher tells the truth. Whatever notifications arrive, and however often the parent
  directory vanishes, the reports form a history that makes sense (created only when the file was
  not there, changed and removed only when it was), all for the watched path, and the last
  report agrees with the existence the watcher has seen last.
\<close>

theorem file_reports_truth:
  "fileGrammar False (map fst (RunFileWatch path absp parent ins)) \<and>
   (RunFileWatch path absp parent ins \<noteq> [] \<longrightarrow>
      fw_exists (fst (feed (fileStep path absp parent) fileStart ins)) =
        (fst (last (RunFileWatch path absp parent ins)) \<noteq> ''file.removed''))"
proof -
  have wf: "wf_file fileStart" by (simp add: wf_file_def fileStart_def)
  show ?thesis
    using file_feed [OF wf surjective_pairing [of "feed (fileStep path absp parent) fileStart ins"]]
    by (auto simp: RunFileWatch_def fileStart_def)
qed

text \<open>
  Trailing-edge debounce. A burst of notifications for the file, of any length and kind (a
  removal followed by a new creation included), reports nothing until it goes quiet, and then
  exactly one event, determined by whether the file was known to exist before and exists now.
\<close>

theorem file_burst_settles:
  assumes "fw_mode f = Watching" and "\<not> fw_armed f" and "burst \<noteq> []" and "absp \<noteq> parent"
    and "\<forall>ops\<in>set burst. Create \<in> set ops \<or> Write \<in> set ops \<or> Remove \<in> set ops \<or> Rename \<in> set ops"
  shows "snd (feed (fileStep path absp parent) f (map (FsEvent absp) burst @ [Timer nowExists])) =
    (case fileSettle path nowExists (fw_exists f) of None \<Rightarrow> [] | Some e \<Rightarrow> [e])"
proof -
  have "feed (fileStep path absp parent) f (map (FsEvent absp) burst) =
      ((if burst = [] then f else f\<lparr>fw_armed := True\<rparr>), [])"
    if "fw_mode f = Watching" "\<forall>ops\<in>set burst. Create \<in> set ops \<or> Write \<in> set ops \<or> Remove \<in> set ops \<or> Rename \<in> set ops"
    for f :: file_watch and burst
    using that
  proof (induction burst arbitrary: f)
    case (Cons ops burst)
    have "fileStep path absp parent f (FsEvent absp ops) = (f\<lparr>fw_armed := True\<rparr>, None)"
      using Cons.prems assms(4) by (auto simp: fileStep_def)
    with Cons show ?case by simp
  qed simp
  from this [OF assms(1,5)] assms(1,3) show ?thesis
    by (simp add: feed_append fileStep_def split: option.split)
qed

section \<open>The git watcher\<close>

definition pathBase :: "string \<Rightarrow> string" where
  \<comment> \<open>\<open>filepath.Base\<close> of a clean path without a trailing separator\<close>
  "pathBase p = last (splitOn CHR ''/'' p)"

definition pathDir :: "string \<Rightarrow> string" where
  \<comment> \<open>\<open>filepath.Dir\<close> of a clean path with at least two elements\<close>
  "pathDir p = Join (butlast (splitOn CHR ''/'' p)) ''/''"

definition currentBranch :: "string option \<Rightarrow> string" where
  \<comment> \<open>the content of \<open>HEAD\<close>, if it can be read\<close>
  "currentBranch head = (case head of None \<Rightarrow> []
     | Some b \<Rightarrow> TrimSpace (TrimPrefix (TrimSpace b) ''ref: refs/heads/''))"

definition gitClassify :: "string \<Rightarrow> string \<Rightarrow> string option \<Rightarrow> (string \<times> (string \<rightharpoonup> string)) option" where
  "gitClassify gitDir name head =
     (if pathBase name = ''HEAD'' \<and> pathDir name = gitDir
      then Some (''git.branch.changed'', [''branch'' \<mapsto> currentBranch head])
      else if pathBase name = ''packed-refs'' \<or> Contains name ''refs/heads''
      then Some (''git.ref.changed'', [''ref'' \<mapsto> pathBase name])
      else None)"

definition gitDebounce :: duration where
  "gitDebounce = 300 * millisecond"

record git_watch =
  gw_lastType :: string
  gw_lastAt :: time

definition gitStep :: "Config \<Rightarrow> string \<Rightarrow> string \<Rightarrow> git_watch \<Rightarrow> string \<times> string option \<times> time \<Rightarrow>
    git_watch \<times> emission option" where
  "gitStep cfg repo gitDir g i = (case i of (name, head, now) \<Rightarrow>
     let debounce = (if StabilityThreshold cfg \<le> 0 then gitDebounce else StabilityThreshold cfg) in
     case gitClassify gitDir name head of
       None \<Rightarrow> (g, None)
     | Some (evType, payload) \<Rightarrow>
         if evType = gw_lastType g \<and> now - gw_lastAt g < debounce then (g, None)
         else (\<lparr>gw_lastType = evType, gw_lastAt = now\<rparr>, Some (evType, repo, payload)))"

definition RunGitWatch :: "Config \<Rightarrow> string \<Rightarrow> string \<Rightarrow> (string \<times> string option \<times> time) list \<Rightarrow> emission list" where
  "RunGitWatch cfg repo gitDir ins =
     snd (feed (gitStep cfg repo gitDir) \<lparr>gw_lastType = [], gw_lastAt = 0\<rparr> ins)"

record git_env =
  ge_isDir :: "string \<Rightarrow> bool"             \<comment> \<open>the path exists and is a directory\<close>
  ge_newWatcher :: "error option"
  ge_add :: "string \<Rightarrow> error option"

definition openGitWatch :: "git_env \<Rightarrow> string \<Rightarrow> error + string" where
  \<comment> \<open>the checks before the loop, for a clean path; the second directory may be missing, and its error is ignored\<close>
  "openGitWatch ge repo = (let gitDir = repo @ ''/.git'' in
     if \<not> ge_isDir ge gitDir then Inl (GoError (''git watch: '' @ repo @ '' is not a git repository''))
     else (case ge_newWatcher ge of
       Some e \<Rightarrow> Inl e
     | None \<Rightarrow> (case ge_add ge gitDir of Some e \<Rightarrow> Inl e | None \<Rightarrow> Inr gitDir)))"

definition GitWatch :: "git_env \<Rightarrow> Config \<Rightarrow> string \<Rightarrow> (string \<times> string option \<times> time) list \<Rightarrow> error option \<times> emission list" where
  \<comment> \<open>the whole watcher: an error ends it, and the manager logs it\<close>
  "GitWatch ge cfg repo ins = (case openGitWatch ge repo of
     Inl e \<Rightarrow> (Some e, [])
   | Inr gitDir \<Rightarrow> (None, RunGitWatch cfg repo gitDir ins))"

definition debounceOf :: "Config \<Rightarrow> duration" where
  "debounceOf cfg = (if StabilityThreshold cfg \<le> 0 then gitDebounce else StabilityThreshold cfg)"

definition gitSeen :: "string \<Rightarrow> git_watch \<Rightarrow> (string \<times> string option \<times> time) list \<Rightarrow> emission list \<Rightarrow> bool" where
  \<comment> \<open>the remembered report is one that was made for a notification at that time\<close>
  "gitSeen gitDir g ins os \<longleftrightarrow> gw_lastType g = [] \<or>
     (\<exists>(name, head, t)\<in>set ins. t = gw_lastAt g \<and> map_option fst (gitClassify gitDir name head) = Some (gw_lastType g)) \<and>
     gw_lastType g \<in> fst ` set os"

text \<open>
  The git watcher, unlike the file watcher, does not wait for its target: when the repository is missing at the start
  it ends at once and reports nothing, whatever happens to the path later. \<open>watch.add\<close> refuses such a target, so
  this concerns the watches that are started again with the daemon.
\<close>

theorem git_missing_repository:
  assumes "\<not> ge_isDir ge (repo @ ''/.git'')"
  shows "snd (GitWatch ge cfg repo ins) = [] \<and> fst (GitWatch ge cfg repo ins) \<noteq> None"
  using assms by (simp add: GitWatch_def openGitWatch_def)

lemma gitSeen_step:
  assumes "gitSeen gitDir g ins os" and "gitStep cfg repo gitDir g i = (g', out)"
  shows "gitSeen gitDir g' (ins @ [i]) (os @ (case out of None \<Rightarrow> [] | Some e \<Rightarrow> [e]))"
proof -
  obtain name head now where i: "i = (name, head, now)" by (cases i)
  show ?thesis
  proof (cases out)
    case None
    then have "g' = g" using assms(2) i
      by (auto simp: gitStep_def Let_def split: option.splits prod.splits if_splits)
    with assms(1) None show ?thesis unfolding gitSeen_def by (simp only: set_append bex_Un option.case append_Nil2) blast
  next
    case (Some e)
    then obtain ty pl where "gitClassify gitDir name head = Some (ty, pl)"
      "g' = \<lparr>gw_lastType = ty, gw_lastAt = now\<rparr>" "e = (ty, repo, pl)"
      using assms(2) i by (auto simp: gitStep_def Let_def split: option.splits prod.splits if_splits)
    with Some i show ?thesis by (auto simp: gitSeen_def)
  qed
qed

lemma gitSeen_feed:
  assumes "gitSeen gitDir g ins os" and "feed (gitStep cfg repo gitDir) g rest = (g', os')"
  shows "gitSeen gitDir g' (ins @ rest) (os @ os')"
  using assms
proof (induction rest arbitrary: g ins os os')
  case (Cons i rest)
  obtain g1 out where st: "gitStep cfg repo gitDir g i = (g1, out)" by (cases "gitStep cfg repo gitDir g i")
  obtain os1 where f: "feed (gitStep cfg repo gitDir) g1 rest = (g', os1)"
    and os': "os' = (case out of None \<Rightarrow> [] | Some x \<Rightarrow> [x]) @ os1"
    using Cons.prems(2) st by (auto split: prod.splits option.splits)
  from Cons.IH [OF gitSeen_step [OF Cons.prems(1) st] f] os' show ?case by simp
qed simp

text \<open>
  The git watcher loses no kind of change. After any run, a relevant notification that is not
  reported was preceded, less than the debounce window earlier, by a notification of the same kind, and that
  kind has been reported: a branch switch is reported even in a burst of reference updates.
\<close>

theorem git_suppresses_only_recent:
  assumes "feed (gitStep cfg repo gitDir) \<lparr>gw_lastType = [], gw_lastAt = 0\<rparr> ins = (g, os)"
    and "gitClassify gitDir name head = Some (evType, payload)"
    and "gitStep cfg repo gitDir g (name, head, now) = (g', None)"
  shows "(\<exists>(name', head', t)\<in>set ins. map_option fst (gitClassify gitDir name' head') = Some evType \<and>
      now - t < debounceOf cfg) \<and> evType \<in> fst ` set os"
proof -
  have "gitSeen gitDir \<lparr>gw_lastType = [], gw_lastAt = 0\<rparr> [] []" by (simp add: gitSeen_def)
  from gitSeen_feed [OF this assms(1)] have seen: "gitSeen gitDir g ins os" by simp
  have "evType \<noteq> []" using assms(2) by (auto simp: gitClassify_def split: if_splits)
  moreover have "evType = gw_lastType g" "now - gw_lastAt g < debounceOf cfg"
    using assms(2,3) by (auto simp: gitStep_def debounceOf_def Let_def split: if_splits)
  ultimately show ?thesis using seen by (fastforce simp: gitSeen_def)
qed

section \<open>Concrete runs\<close>

abbreviation exCfg :: Config where
  "exCfg \<equiv> \<lparr>Interval = 0, StabilityThreshold = 3\<rparr>"

theorem poller_edges_witness:
  "successively (\<noteq>) (map fst (RunPoller exCfg ''tcp.available'' ''tcp.unavailable'' ''db:5432'' False
     [(True, 10), (True, 12), (True, 14), (False, 15)]))"
  using poller_edges [of "''tcp.available''" "''tcp.unavailable''" exCfg "''db:5432''" False
     "[(True, 10), (True, 12), (True, 14), (False, 15)]"] by simp

theorem poller_reports_stable_witness:
  "\<exists>pre suf. [(True, 10 :: int), (True, 12)] @ [(True, 14)] = pre @ suf \<and> suf \<noteq> [] \<and> (\<forall>x\<in>set suf. fst x = True) \<and> 3 \<le> 14 - snd (hd suf)"
proof -
  obtain p os where f: "feed (pollTick exCfg) (pollStart False) [(True, 10), (True, 12)] = (p, os)" by fastforce
  then have p: "p = \<lparr>p_current = False, p_pending = Some (True, 10)\<rparr>"
    by (simp add: pollTick_def pollStart_def Let_def)
  have "pollTick exCfg p (True, 14) = (\<lparr>p_current = True, p_pending = None\<rparr>, Some True)"
    by (simp add: p pollTick_def)
  from poller_reports_stable [OF f this] show ?thesis by (simp only: Config.select_convs)
qed

theorem poller_converges_witness:
  "last (False # snd (feed (pollTick exCfg) (pollStart False) ([(False, 1)] @ [(True, 10), (True, 14)])))"
proof -
  obtain p os where f: "feed (pollTick exCfg) (pollStart False) ([(False, 1)] @ [(True, 10), (True, 14)]) = (p, os)"
    by fastforce
  have "last (False # os)" using poller_converges [OF f, of True] by (auto split: if_splits)
  then show ?thesis by (simp only: f snd_conv)
qed

theorem file_burst_settles_witness:
  "snd (feed (fileStep ''a'' ''/d/a'' ''/d'') \<lparr>fw_mode = Watching, fw_exists = True, fw_armed = False\<rparr>
     (map (FsEvent ''/d/a'') [[Remove], [Create], [Write]] @ [Timer True])) = [(''file.changed'', ''a'', Map.empty)]"
  using file_burst_settles [of "\<lparr>fw_mode = Watching, fw_exists = True, fw_armed = False\<rparr>"
      "[[Remove], [Create], [Write]]" "''/d/a''" "''/d''" "''a''" True]
  by (simp add: fileSettle_def)

theorem file_reports_truth_witness:
  "map fst (RunFileWatch ''a'' ''/d/a'' ''/d'' [AddParent False False, AddParent True True, FsEvent ''/d'' [Remove]]) =
     [''file.created'', ''file.removed''] \<and>
   \<not> fw_exists (fst (feed (fileStep ''a'' ''/d/a'' ''/d'') fileStart
      [AddParent False False, AddParent True True, FsEvent ''/d'' [Remove]]))"
proof -
  let ?ins = "[AddParent False False, AddParent True True, FsEvent ''/d'' [Remove]]"
  have r: "RunFileWatch ''a'' ''/d/a'' ''/d'' ?ins =
      [(''file.created'', ''a'', Map.empty), (''file.removed'', ''a'', Map.empty)]"
    by (simp add: RunFileWatch_def fileStart_def fileStep_def)
  with file_reports_truth [of "''a''" "''/d/a''" "''/d''" ?ins] show ?thesis by simp
qed

theorem git_suppresses_only_recent_witness:
  "''git.branch.changed'' \<in> fst ` set (snd (feed (gitStep \<lparr>Interval = 0, StabilityThreshold = 0\<rparr> ''/r'' ''/r/.git'')
     \<lparr>gw_lastType = [], gw_lastAt = 0\<rparr> [(''/r/.git/HEAD'', None, 50)]))"
proof -
  let ?cfg = "\<lparr>Interval = 0, StabilityThreshold = 0\<rparr>" and ?ins = "[(''/r/.git/HEAD'', None, 50)]"
  have c: "gitClassify ''/r/.git'' ''/r/.git/HEAD'' None = Some (''git.branch.changed'', [''branch'' \<mapsto> []])"
    by (simp add: gitClassify_def pathBase_def pathDir_def currentBranch_def)
  obtain g os where f: "feed (gitStep ?cfg ''/r'' ''/r/.git'') \<lparr>gw_lastType = [], gw_lastAt = 0\<rparr> ?ins = (g, os)"
    by fastforce
  then have "g = \<lparr>gw_lastType = ''git.branch.changed'', gw_lastAt = 50\<rparr>" by (simp add: gitStep_def c)
  then have "gitStep ?cfg ''/r'' ''/r/.git'' g (''/r/.git/HEAD'', None, 60) = (g, None)"
    by (simp add: gitStep_def c gitDebounce_def millisecond_def)
  from git_suppresses_only_recent [OF f c this] f show ?thesis by simp
qed

end
