(* ===== verification/Manager.thy ===== *)
theory Manager
  imports Watchers
begin

text \<open>
  The watch manager of \<^verbatim>\<open>src/internal/watch/manager.go\<close>: one goroutine per active
  watch. A goroutine is identified by its handle, a token made when it is started; the
  model keeps the map \<open>running\<close> from watch identifiers to handles, the goroutines that
  have not ended yet, and the handles whose context was cancelled. A goroutine may end by
  itself (its watcher died) or after its cancellation, at any later time, and then runs
  its deferred cleanup: the transition system \<open>mgr_step\<close> lets it happen whenever it can.
\<close>

section \<open>The manager\<close>

record Manager =
  m_ctx :: bool
    \<comment> \<open>the lifetime context has been recorded by \<open>Run\<close>\<close>
  running :: "string \<rightharpoonup> nat"
  live :: "(nat \<times> Watch) list"
  cancelled :: "nat set"
  nextHandle :: nat

definition NewManager :: Manager where
  "NewManager = \<lparr>m_ctx = False, running = Map.empty, live = [], cancelled = {}, nextHandle = 0\<rparr>"

definition StartWatch :: "Watch \<Rightarrow> Manager \<Rightarrow> error option \<times> Manager" where
  "StartWatch w m = (case ValidateType (w_Type w) of
     Some e \<Rightarrow> (Some e, m)
   | None \<Rightarrow>
       if \<not> m_ctx m then (Some (GoError ''manager not running''), m)
       else (case running m (w_ID w) of
         Some _ \<Rightarrow> (None, m)
       | None \<Rightarrow> (None, m\<lparr>running := (running m)(w_ID w \<mapsto> nextHandle m),
           live := live m @ [(nextHandle m, w)], nextHandle := Suc (nextHandle m)\<rparr>)))"

definition StopWatch :: "string \<Rightarrow> Manager \<Rightarrow> Manager" where
  "StopWatch i m = (case running m i of
     None \<Rightarrow> m
   | Some h \<Rightarrow> m\<lparr>running := (running m)(i := None), cancelled := insert h (cancelled m)\<rparr>)"

definition RunManager :: "Watch list \<Rightarrow> Manager \<Rightarrow> Manager" where
  \<comment> \<open>record the context, then start the persisted watches; their errors are ignored\<close>
  "RunManager persisted m = foldl (\<lambda>m w. snd (StartWatch w m)) (m\<lparr>m_ctx := True\<rparr>) persisted"

definition endGoroutine :: "nat \<Rightarrow> Manager \<Rightarrow> Manager" where
  \<comment> \<open>the deferred cleanup: the entry goes only if it still holds this goroutine's handle\<close>
  "endGoroutine h m = (case find (\<lambda>g. fst g = h) (live m) of
     None \<Rightarrow> m
   | Some (_, w) \<Rightarrow> m\<lparr>
       running := (if running m (w_ID w) = Some h then (running m)(w_ID w := None) else running m),
       live := filter (\<lambda>g. fst g \<noteq> h) (live m)\<rparr>)"

definition wrappedEmit :: "nat \<Rightarrow> emission \<Rightarrow> Manager \<Rightarrow> emission option" where
  \<comment> \<open>an observation of a cancelled watcher is dropped\<close>
  "wrappedEmit h e m = (if h \<in> cancelled m then None else Some e)"

definition RunningIDs :: "Manager \<Rightarrow> string list" where
  "RunningIDs m = sorted_list_of_set (dom (running m))"

section \<open>The watcher of a watch\<close>

record observations =
  \<comment> \<open>what the watchers of the six types observe: the first answer and the answers at the ticks for the pollers\<close>
  ob_http :: "(string \<Rightarrow> error + int) \<times> ((string \<Rightarrow> error + int) \<times> time) list"
  ob_tcp :: "(string \<Rightarrow> error option) \<times> ((string \<Rightarrow> error option) \<times> time) list"
  ob_self :: int
  ob_procs :: "(error + (int \<times> (error + string)) list) \<times> ((error + (int \<times> (error + string)) list) \<times> time) list"
  ob_abs :: string
  ob_parent :: string
  ob_file :: "file_in list"
  ob_gitDir :: string
  ob_gitOk :: bool
    \<comment> \<open>the directory is a repository and can be watched\<close>
  ob_git :: "(string \<times> string option \<times> time) list"
  ob_dockerDecode :: "string \<Rightarrow> DockerEvent option"
  ob_docker :: "(string option \<times> string list) list"

definition poll :: "Watch \<Rightarrow> string \<Rightarrow> string \<Rightarrow> ('o \<Rightarrow> string \<Rightarrow> bool) \<Rightarrow> 'o \<times> ('o \<times> time) list \<Rightarrow> emission list" where
  "poll w posType negType prober obs = RunPoller (w_Config w) posType negType (w_Target w)
     (prober (fst obs) (w_Target w)) (map (\<lambda>(o1, t). (prober o1 (w_Target w), t)) (snd obs))"

definition watchRun :: "observations \<Rightarrow> Watch \<Rightarrow> emission list" where
  "watchRun ob w =
     (if w_Type w = ''http'' then poll w ''http.available'' ''http.unavailable'' HTTPProber (ob_http ob)
      else if w_Type w = ''tcp'' then poll w ''tcp.available'' ''tcp.unavailable'' TCPProber (ob_tcp ob)
      else if w_Type w = ''process'' then poll w ''process.started'' ''process.exited'' (ProcessProber (ob_self ob)) (ob_procs ob)
      else if w_Type w = ''file'' then RunFileWatch (w_Target w) (ob_abs ob) (ob_parent ob) (ob_file ob)
      else if w_Type w = ''git'' then (if ob_gitOk ob then RunGitWatch (w_Config w) (w_Target w) (ob_gitDir ob) (ob_git ob) else [])
      else if w_Type w = ''docker'' then RunDockerWatch (ob_dockerDecode ob) (w_Target w) (ob_docker ob)
      else [])"

definition eventTypes :: "string \<Rightarrow> string list" where
  \<comment> \<open>the documented event types of each watch type\<close>
  "eventTypes t =
     (if t = ''http'' then [''http.available'', ''http.unavailable'']
      else if t = ''tcp'' then [''tcp.available'', ''tcp.unavailable'']
      else if t = ''process'' then [''process.started'', ''process.exited'']
      else if t = ''file'' then [''file.created'', ''file.changed'', ''file.removed'']
      else if t = ''git'' then [''git.branch.changed'', ''git.ref.changed'']
      else if t = ''docker'' then [''docker.healthy'', ''docker.started'', ''docker.unhealthy'', ''docker.stopped'']
      else [])"

lemma poll_typed: "list_all (\<lambda>e. fst e \<in> {posType, negType} \<and> fst (snd e) = w_Target w) (poll w posType negType prober obs)"
  by (auto simp: poll_def RunPoller_def list_all_iff)

lemma file_typed:
  "list_all (\<lambda>e. fst e \<in> {''file.created'', ''file.changed'', ''file.removed''} \<and> fst (snd e) = path) (RunFileWatch path absp parent ins)"
  unfolding RunFileWatch_def
  by (rule feed_all) (auto simp: fileStep_def fileSettle_def split: file_mode.splits file_in.splits bool.splits if_splits)

lemma git_typed:
  "list_all (\<lambda>e. fst e \<in> {''git.branch.changed'', ''git.ref.changed''} \<and> fst (snd e) = repo) (RunGitWatch cfg repo gitDir ins)"
  unfolding RunGitWatch_def
  by (rule feed_all) (auto simp: gitStep_def gitClassify_def Let_def split: option.splits prod.splits if_splits)

lemma dockerState_types: "dockerState dec i \<in> {[], ''docker.healthy'', ''docker.started'', ''docker.unhealthy'', ''docker.stopped''}"
  by (auto simp: dockerState_def MapDockerEvent_def MapDockerInspect_def Let_def split: docker_in.splits option.splits list.splits if_splits)

lemma docker_typed:
  "list_all (\<lambda>e. fst e \<in> {''docker.healthy'', ''docker.started'', ''docker.unhealthy'', ''docker.stopped''} \<and> fst (snd e) = c)
     (RunDockerWatch dec c rounds)"
  unfolding RunDockerWatch_def
proof (rule feed_all)
  fix lt i lt' x
  assume "dockerStep dec c lt i = (lt', Some x)"
  from dockerStep_state [OF this] obtain pl where "x = (dockerState dec i, c, pl)" "dockerState dec i \<noteq> []"
    by (auto split: if_splits)
  then show "fst x \<in> {''docker.healthy'', ''docker.started'', ''docker.unhealthy'', ''docker.stopped''} \<and> fst (snd x) = c"
    using dockerState_types [of dec i] by simp
qed

text \<open>
  (C32) Watchers are typed. Whatever a watcher observes, everything it emits has one of the event types documented for
  the type of its watch, and the watch's target as its source.
\<close>

theorem watch_emissions_typed:
  "list_all (\<lambda>e. fst e \<in> set (eventTypes (w_Type w)) \<and> fst (snd e) = w_Target w) (watchRun ob w)"
  using poll_typed [of "''http.available''" "''http.unavailable''" w HTTPProber "ob_http ob"]
    poll_typed [of "''tcp.available''" "''tcp.unavailable''" w TCPProber "ob_tcp ob"]
    poll_typed [of "''process.started''" "''process.exited''" w "ProcessProber (ob_self ob)" "ob_procs ob"]
    file_typed [of "w_Target w" "ob_abs ob" "ob_parent ob" "ob_file ob"]
    git_typed [of "w_Target w" "w_Config w" "ob_gitDir ob" "ob_git ob"]
    docker_typed [of "w_Target w" "ob_dockerDecode ob" "ob_docker ob"]
  unfolding watchRun_def eventTypes_def
  by (simp split: if_split)

section \<open>Invariant\<close>

definition serves :: "Manager \<Rightarrow> nat \<Rightarrow> string \<Rightarrow> bool" where
  \<comment> \<open>a goroutine with this handle exists for this watch identifier\<close>
  "serves m h i \<longleftrightarrow> (\<exists>w. (h, w) \<in> set (live m) \<and> w_ID w = i)"

definition wf_mgr :: "Manager \<Rightarrow> bool" where
  "wf_mgr m \<longleftrightarrow> distinct (map fst (live m)) \<and>
     (\<forall>g\<in>set (live m). fst g < nextHandle m) \<and> (\<forall>h\<in>cancelled m. h < nextHandle m) \<and>
     (\<forall>i h. running m i = Some h \<longleftrightarrow> h \<notin> cancelled m \<and> serves m h i)"

inductive mgr_step :: "Manager \<Rightarrow> Manager \<Rightarrow> bool" where
  mgr_Run: "mgr_step m (RunManager ws m)"
| mgr_Start: "mgr_step m (snd (StartWatch w m))"
| mgr_Stop: "mgr_step m (StopWatch i m)"
| mgr_End: "mgr_step m (endGoroutine h m)"

inductive_cases mgr_stepE: "mgr_step m m'"

lemma wf_mgr_running: "wf_mgr m \<Longrightarrow> running m i = Some h \<longleftrightarrow> h \<notin> cancelled m \<and> serves m h i"
  by (simp add: wf_mgr_def)

lemma live_unique:
  assumes "wf_mgr m" and "(h, w) \<in> set (live m)" and "(h, w') \<in> set (live m)"
  shows "w = w'"
  using assms by (auto simp: wf_mgr_def dest: eq_key_imp_eq_value)

lemma serves_unique: "wf_mgr m \<Longrightarrow> serves m h i \<Longrightarrow> serves m h j \<Longrightarrow> i = j"
  unfolding serves_def using live_unique by blast

lemma serves_bound: "wf_mgr m \<Longrightarrow> serves m h i \<Longrightarrow> h < nextHandle m"
  by (auto simp: wf_mgr_def serves_def)

lemma wf_mgr_fresh: "wf_mgr m \<Longrightarrow> nextHandle m \<notin> fst ` set (live m) \<and> nextHandle m \<notin> cancelled m"
  by (auto simp: wf_mgr_def)

lemma wf_NewManager: "wf_mgr NewManager"
  by (simp add: wf_mgr_def serves_def NewManager_def)

lemma wf_StartWatch:
  assumes "wf_mgr m"
  shows "wf_mgr (snd (StartWatch w m))"
proof (cases "ValidateType (w_Type w) = None \<and> m_ctx m \<and> running m (w_ID w) = None")
  case True
  let ?m = "m\<lparr>running := (running m)(w_ID w \<mapsto> nextHandle m),
      live := live m @ [(nextHandle m, w)], nextHandle := Suc (nextHandle m)\<rparr>"
  from True have s: "snd (StartWatch w m) = ?m" by (simp add: StartWatch_def)
  have sv: "serves ?m h i \<longleftrightarrow> serves m h i \<or> h = nextHandle m \<and> i = w_ID w" for h i
    by (auto simp: serves_def)
  have "running ?m i = Some h \<longleftrightarrow> h \<notin> cancelled ?m \<and> serves ?m h i" for i h
    unfolding sv using wf_mgr_running [OF assms, of i h] wf_mgr_fresh [OF assms] serves_bound [OF assms, of h i] True
    by (cases "i = w_ID w") auto
  moreover have "distinct (map fst (live ?m))" "\<forall>g\<in>set (live ?m). fst g < nextHandle ?m"
    "\<forall>h\<in>cancelled ?m. h < nextHandle ?m"
    using assms wf_mgr_fresh [OF assms] by (auto simp: wf_mgr_def less_Suc_eq)
  ultimately show ?thesis unfolding s wf_mgr_def by blast
next
  case False
  then have "snd (StartWatch w m) = m" by (auto simp: StartWatch_def split: option.splits)
  with assms show ?thesis by simp
qed

lemma wf_RunManager: "wf_mgr m \<Longrightarrow> wf_mgr (RunManager ws m)"
proof -
  have "wf_mgr (foldl (\<lambda>m w. snd (StartWatch w m)) m ws)" if "wf_mgr m" for m
    using that by (induction ws arbitrary: m) (auto intro: wf_StartWatch)
  moreover assume "wf_mgr m"
  then have "wf_mgr (m\<lparr>m_ctx := True\<rparr>)" by (simp add: wf_mgr_def serves_def)
  ultimately show ?thesis by (simp add: RunManager_def)
qed

lemma wf_StopWatch:
  assumes "wf_mgr m"
  shows "wf_mgr (StopWatch i m)"
proof (cases "running m i")
  case (Some h)
  let ?m = "m\<lparr>running := (running m)(i := None), cancelled := insert h (cancelled m)\<rparr>"
  have s: "StopWatch i m = ?m" using Some by (simp add: StopWatch_def)
  have h: "serves m h i" "h < nextHandle m"
    using Some wf_mgr_running [OF assms] serves_bound [OF assms] by blast+
  have sv: "serves ?m = serves m" by (simp add: serves_def fun_eq_iff)
  have "running ?m j = Some k \<longleftrightarrow> k \<notin> cancelled ?m \<and> serves ?m k j" for j k
  proof (cases "j = i")
    case True
    have "k = h" if "k \<notin> cancelled m" "serves m k i"
      using that wf_mgr_running [OF assms, of i k] Some by simp
    with True show ?thesis unfolding sv by auto
  next
    case False
    then have "\<not> serves m h j" using serves_unique [OF assms h(1)] by blast
    with False wf_mgr_running [OF assms, of j k] show ?thesis unfolding sv by auto
  qed
  moreover have "distinct (map fst (live ?m))" "\<forall>g\<in>set (live ?m). fst g < nextHandle ?m"
    "\<forall>h\<in>cancelled ?m. h < nextHandle ?m"
    using assms h(2) by (auto simp: wf_mgr_def)
  ultimately show ?thesis unfolding s wf_mgr_def by blast
qed (use assms in \<open>simp add: StopWatch_def\<close>)

lemma wf_endGoroutine:
  assumes "wf_mgr m"
  shows "wf_mgr (endGoroutine h m)"
proof (cases "find (\<lambda>g. fst g = h) (live m)")
  case (Some g)
  then have "g \<in> set (live m)" "fst g = h" by (auto simp: find_Some_iff)
  then obtain w where g: "g = (h, w)" and w: "(h, w) \<in> set (live m)" by (metis prod.collapse)
  let ?m = "m\<lparr>running := (if running m (w_ID w) = Some h then (running m)(w_ID w := None) else running m),
      live := filter (\<lambda>g. fst g \<noteq> h) (live m)\<rparr>"
  have s: "endGoroutine h m = ?m" using Some g by (simp add: endGoroutine_def)
  have sv: "serves ?m k j \<longleftrightarrow> serves m k j \<and> k \<noteq> h" for k j by (auto simp: serves_def)
  have h: "serves m h (w_ID w)" using w by (auto simp: serves_def)
  have "running ?m j = Some k \<longleftrightarrow> k \<notin> cancelled ?m \<and> serves ?m k j" for j k
  proof (cases "running ?m j = running m j")
    case True
    have "k \<noteq> h" if "running m j = Some k"
    proof
      assume "k = h"
      with that have "serves m h j" using wf_mgr_running [OF assms] by blast
      then have "j = w_ID w" using serves_unique [OF assms h] by blast
      with True that \<open>k = h\<close> show False by simp
    qed
    with wf_mgr_running [OF assms, of j k] show ?thesis unfolding True sv by auto
  next
    case False
    then have j: "j = w_ID w" and r: "running m j = Some h" by (auto split: if_splits)
    have "k = h" if "k \<notin> cancelled m" "serves m k j"
      using that wf_mgr_running [OF assms, of j k] r by simp
    with j r show ?thesis unfolding sv by auto
  qed
  moreover have "distinct (map fst (live ?m))" "\<forall>g\<in>set (live ?m). fst g < nextHandle ?m"
    "\<forall>h\<in>cancelled ?m. h < nextHandle ?m"
    using assms by (auto simp: wf_mgr_def distinct_map_filter)
  ultimately show ?thesis unfolding s wf_mgr_def by blast
qed (use assms in \<open>simp add: endGoroutine_def\<close>)

interpretation mgrq: invariant_system "\<lambda>m. m = NewManager" mgr_step wf_mgr
  by unfold_locales (auto elim!: mgr_stepE
      intro: wf_NewManager wf_RunManager wf_StartWatch wf_StopWatch wf_endGoroutine)

section \<open>Properties\<close>

text \<open>
  No watcher is orphaned or doubled. In every state the manager can reach, however starts,
  stops and ends of goroutines interleave (a stop and a new start of the same identifier before the old
  goroutine has ended included): the goroutines that may still emit are exactly the registered ones,
  and there is at most one of them per watch.
\<close>

theorem manager_one_watcher_per_id:
  assumes "reach (\<lambda>m. m = NewManager) mgr_step m"
  shows "{(w_ID w, h) |h w. (h, w) \<in> set (live m) \<and> h \<notin> cancelled m} = {(i, h). running m i = Some h} \<and>
    (\<forall>h w h' w'. (h, w) \<in> set (live m) \<and> (h', w') \<in> set (live m) \<and> w_ID w = w_ID w' \<and>
       wrappedEmit h e m \<noteq> None \<and> wrappedEmit h' e' m \<noteq> None \<longrightarrow> h = h' \<and> w = w')"
proof -
  have wf: "wf_mgr m" using assms by (rule mgrq.reach_inv)
  note run = wf_mgr_running [OF wf]
  have "h = h' \<and> w = w'" if "(h, w) \<in> set (live m)" "(h', w') \<in> set (live m)" "w_ID w = w_ID w'"
    "h \<notin> cancelled m" "h' \<notin> cancelled m" for h w h' w'
  proof -
    have "running m (w_ID w) = Some h" "running m (w_ID w) = Some h'" using that run by (auto simp: serves_def)
    then show ?thesis using that live_unique [OF wf] by auto
  qed
  moreover have "{(w_ID w, h) |h w. (h, w) \<in> set (live m) \<and> h \<notin> cancelled m} = {(i, h). running m i = Some h}"
    using run by (auto simp: serves_def)
  ultimately show ?thesis by (auto simp: wrappedEmit_def split: if_splits)
qed

text \<open>
  Stop and start. After a stop the identifier is not running, the old goroutine can emit
  nothing any more, and a new start of a valid watch under a recorded context registers a new
  watcher; the later cleanup of the old goroutine leaves the new one in place.
\<close>

theorem manager_restart_survives_cleanup:
  assumes "wf_mgr m" and "m_ctx m" and "ValidateType (w_Type w) = None" and "running m (w_ID w) = Some old"
  shows "\<exists>new m'. StartWatch w (StopWatch (w_ID w) m) = (None, m') \<and> new \<noteq> old \<and>
    running m' (w_ID w) = Some new \<and> wrappedEmit old e m' = None \<and>
    running (endGoroutine old m') (w_ID w) = Some new \<and> wrappedEmit new e (endGoroutine old m') = Some e"
proof -
  let ?m = "StopWatch (w_ID w) m" and ?new = "nextHandle m"
  have s: "?m = m\<lparr>running := (running m)(w_ID w := None), cancelled := insert old (cancelled m)\<rparr>"
    using assms(4) by (simp add: StopWatch_def)
  have old: "old < ?new" "?new \<notin> cancelled m"
    using assms(4) wf_mgr_running [OF assms(1)] serves_bound [OF assms(1)] wf_mgr_fresh [OF assms(1)] by blast+
  define m' where "m' = ?m\<lparr>running := (running ?m)(w_ID w \<mapsto> ?new), live := live ?m @ [(?new, w)], nextHandle := Suc ?new\<rparr>"
  have "StartWatch w ?m = (None, m')"
    using assms(2,3) by (simp add: StartWatch_def s m'_def)
  moreover have "running (endGoroutine old m') (w_ID w) = Some ?new" "cancelled (endGoroutine old m') = cancelled m'"
    using old by (auto simp: endGoroutine_def m'_def s split: option.splits)
  ultimately show ?thesis using old
    by (intro exI [of _ ?new] exI [of _ m']) (simp add: m'_def s wrappedEmit_def)
qed

section \<open>A concrete manager\<close>

definition exWatch :: Watch where
  "exWatch = \<lparr>w_ID = ''watch-1'', w_Type = ''tcp'', w_Target = ''db:5432'',
     w_Config = \<lparr>Interval = 0, StabilityThreshold = 0\<rparr>, w_CreatedAt = 1\<rparr>"

definition exMgr :: Manager where
  "exMgr = RunManager [exWatch] NewManager"

lemma exMgr_reach: "reach (\<lambda>m. m = NewManager) mgr_step exMgr"
  unfolding exMgr_def by (rule reach_step [where s = NewManager]) (auto intro: reach_init mgr_Run)

lemma exMgr_facts: "m_ctx exMgr" "running exMgr ''watch-1'' = Some 0"
  by (simp_all add: exMgr_def RunManager_def StartWatch_def exWatch_def NewManager_def ValidateType_def validTypes_def)

theorem manager_one_watcher_per_id_witness:
  "{(w_ID w, h) |h w. (h, w) \<in> set (live exMgr) \<and> h \<notin> cancelled exMgr} = {(i, h). running exMgr i = Some h}"
  using manager_one_watcher_per_id [OF exMgr_reach] by blast

theorem manager_restart_survives_cleanup_witness:
  "\<exists>new m'. StartWatch exWatch (StopWatch ''watch-1'' exMgr) = (None, m') \<and> new \<noteq> 0 \<and>
     running (endGoroutine 0 m') ''watch-1'' = Some new"
proof -
  have "wf_mgr exMgr" using exMgr_reach by (rule mgrq.reach_inv)
  moreover have "ValidateType (w_Type exWatch) = None"
    by (simp add: exWatch_def ValidateType_def validTypes_def)
  moreover have i: "w_ID exWatch = ''watch-1''" by (simp add: exWatch_def)
  ultimately show ?thesis
    using manager_restart_survives_cleanup [of exMgr exWatch 0] exMgr_facts unfolding i by blast
qed

end
