(* ===== verification/Streams.thy ===== *)
theory Streams
  imports Bus "HOL-Library.Sublist"
begin

text \<open>
  The consumers of the event bus. The daemon has two of them with the same loop, the handler of
  \<open>events.follow\<close> (\<^verbatim>\<open>src/internal/daemon/rpc.go\<close>) and the one of the web socket
  (\<^verbatim>\<open>src/internal/wsserver/wsserver.go\<close>): a \<open>select\<close> over the subscription's channel and the
  end of the client, with one write for every event and a deferred cancel.

  The loop runs over a list of turns, what happens while the client is connected in the order it happens; the list is
  arbitrary, so a theorem about it holds for every schedule of publications, reads and failures.
\<close>

section \<open>The loop\<close>

datatype stream_turn =
    BusPublishes Event    \<comment> \<open>the engine publishes while the client is connected\<close>
  | StreamTurn bool       \<comment> \<open>the loop takes an event, if there is one; the write succeeds or not\<close>
  | ClientGone            \<comment> \<open>the client hangs up, or the server ends\<close>

definition leaveStream :: "nat \<Rightarrow> Bus \<Rightarrow> (Event list \<times> Bus) option" where
  \<comment> \<open>the deferred cancel\<close>
  "leaveStream i b = map_option (\<lambda>b1. ([], b1)) (Cancel i b)"

fun streamLoop :: "stream_turn list \<Rightarrow> nat \<Rightarrow> Bus \<Rightarrow> (Event list \<times> Bus) option" where
  \<comment> \<open>the events written to the client, and the bus; \<open>None\<close> is a panic\<close>
  "streamLoop [] i b = Some ([], b)"
| "streamLoop (BusPublishes ev # ts) i b = (case Publish ev b of None \<Rightarrow> None | Some b1 \<Rightarrow> streamLoop ts i b1)"
| "streamLoop (StreamTurn ok # ts) i b = (case Receive i b of
     (Received ev, b1) \<Rightarrow>
       if ok then map_option (\<lambda>(es, b2). (ev # es, b2)) (streamLoop ts i b1) else leaveStream i b1
   | (Closed, b1) \<Rightarrow> leaveStream i b1
   | (WouldBlock, b1) \<Rightarrow> streamLoop ts i b1)"
| "streamLoop (ClientGone # ts) i b = leaveStream i b"

section \<open>What it writes\<close>

fun published :: "stream_turn list \<Rightarrow> Event list" where
  "published [] = []"
| "published (BusPublishes ev # ts) = ev # published ts"
| "published (_ # ts) = published ts"

lemma Publish_bufOf:
  assumes "wf_bus b" and "Publish ev b = Some b1"
  shows "bufOf i b1 = bufOf i b \<or> bufOf i b1 = bufOf i b @ [ev]"
proof -
  have p: "b1 = b\<lparr>chans := publishOne ev b\<rparr>" and s: "i \<in> subs b \<Longrightarrow> publishOne ev b i \<noteq> None"
    using assms(2) by (auto simp: Publish_def split: if_splits)
  show ?thesis
  proof (cases "chans b i")
    case (Some c)
    with s p show ?thesis by (auto simp: publishOne_def bufOf_def trySend_def split: if_splits)
  qed (simp add: p publishOne_def bufOf_def)
qed

lemma Publish_subs: "Publish ev b = Some b1 \<Longrightarrow> subs b1 = subs b"
  by (auto simp: Publish_def split: if_splits)

lemma Receive_Received:
  assumes "Receive i b = (Received ev, b1)"
  shows "bufOf i b = ev # bufOf i b1"
  using assms by (auto simp: Receive_def receive_def bufOf_def split: option.splits list.splits if_splits)

lemma Receive_other:
  assumes "Receive i b = (r, b1)" and "r = Closed \<or> r = WouldBlock"
  shows "bufOf i b1 = bufOf i b"
  using assms by (auto simp: Receive_def receive_def bufOf_def split: option.splits list.splits if_splits)

lemma Receive_subs: "Receive i b = (r, b1) \<Longrightarrow> subs b1 = subs b"
  by (auto simp: Receive_def split: option.splits prod.splits)

lemma leaveStream_ok:
  assumes "wf_bus b"
  shows "\<exists>b1. leaveStream i b = Some ([], b1) \<and> wf_bus b1 \<and> subs b1 = subs b - {i}"
proof -
  obtain b1 where b1: "Cancel i b = Some b1" "wf_bus b1" by (rule Cancel_defined [OF assms])
  then have "subs b1 = subs b - {i}" by (auto simp: Cancel_def split: if_splits option.splits)
  with b1 show ?thesis by (simp add: leaveStream_def)
qed

text \<open>From any state of the bus: no panic, an ordered subsequence of what waited and was published, and a clean end.\<close>

lemma streamLoop_run:
  "wf_bus b \<Longrightarrow> \<exists>es b1. streamLoop ts i b = Some (es, b1) \<and> wf_bus b1 \<and> subseq es (bufOf i b @ published ts) \<and>
     subs b1 \<subseteq> subs b \<and> (ClientGone \<in> set ts \<longrightarrow> subs b1 = subs b - {i})"
proof (induction ts arbitrary: b)
  case (Cons t ts)
  show ?case
  proof (cases t)
    case (BusPublishes ev)
    obtain b1 where b1: "Publish ev b = Some b1" "wf_bus b1" by (rule Publish_defined [OF Cons.prems])
    from Cons.IH [OF b1(2)] obtain es b2 where r: "streamLoop ts i b1 = Some (es, b2)" "wf_bus b2"
      "subseq es (bufOf i b1 @ published ts)" "subs b2 \<subseteq> subs b1" "ClientGone \<in> set ts \<longrightarrow> subs b2 = subs b1 - {i}" by blast
    have "subseq (bufOf i b1 @ published ts) (bufOf i b @ ev # published ts)"
      using Publish_bufOf [OF Cons.prems b1(1), of i] by (auto intro: subseq_order.order_refl list_emb_append_mono)
    with r b1 Publish_subs [OF b1(1)] BusPublishes show ?thesis by (auto intro: subseq_order.order_trans)
  next
    case (StreamTurn ok)
    obtain r b1 where rc: "Receive i b = (r, b1)" by (cases "Receive i b")
    have wf: "wf_bus b1" using wf_bus_step [OF bus_Receive [of b i]] rc Cons.prems by simp
    note rest = Cons.IH [OF wf] and leave = leaveStream_ok [OF wf, of i] and s = Receive_subs [OF rc]
    show ?thesis
    proof (cases r)
      case (Received ev)
      with rest leave s rc StreamTurn Receive_Received [of i b ev b1] show ?thesis by (cases ok) auto
    next
      case Closed
      with leave s rc StreamTurn show ?thesis by auto
    next
      case WouldBlock
      with rest s rc StreamTurn Receive_other [OF rc] show ?thesis by auto
    qed
  qed (use leaveStream_ok [OF Cons.prems, of i] in auto)
qed simp

lemma Subscribe_new:
  assumes "wf_bus b" and "Subscribe n b = (i, b0)"
  shows "wf_bus b0" "bufOf i b0 = []" "capOf i b0 = nat (if n < 1 then 1 else n)" "i \<in> subs b0" "subs b0 - {i} = subs b"
proof -
  show "wf_bus b0" using wf_Subscribe [OF assms(1), of n] assms(2) by simp
  have "next_id b \<notin> subs b" using assms(1) by (force simp: wf_bus_def)
  then show "bufOf i b0 = []" "capOf i b0 = nat (if n < 1 then 1 else n)" "i \<in> subs b0" "subs b0 - {i} = subs b"
    using assms(2) by (auto simp: Subscribe_def Let_def bufOf_def capOf_def makeChan_def)
qed

text \<open>A client whose events fit in its buffer misses none: they are published, and then read one after the other.\<close>

lemma streamLoop_publish:
  assumes "wf_bus b" and "i \<in> subs b" and "length (bufOf i b) + length evs \<le> capOf i b"
  shows "\<exists>b1. streamLoop (map BusPublishes evs @ ts) i b = streamLoop ts i b1 \<and> bufOf i b1 = bufOf i b @ evs"
  using assms
proof (induction evs arbitrary: b)
  case (Cons ev evs)
  obtain b1 where b1: "Publish ev b = Some b1" "wf_bus b1" by (rule Publish_defined [OF Cons.prems(1)])
  have e: "subs b1 = subs b" "capOf i b1 = capOf i b" "bufOf i b1 = bufOf i b @ [ev]"
    using publish_effect [OF b1(1), of i] Cons.prems(2,3) by auto
  with Cons.IH [OF b1(2)] Cons.prems b1(1) show ?case by simp
qed auto

lemma streamLoop_drain:
  "bufOf i b = evs \<Longrightarrow> map_option fst (streamLoop (replicate (length evs) (StreamTurn True)) i b) = Some evs"
proof (induction evs arbitrary: b)
  case (Cons ev evs)
  obtain r b1 where rc: "Receive i b = (r, b1)" by (cases "Receive i b")
  have r: "r = Received ev" using rc Cons.prems by (auto simp: Receive_def receive_def bufOf_def split: option.splits)
  with rc Cons.prems have "bufOf i b1 = evs" using Receive_Received [of i b ev b1] by simp
  from Cons.IH [OF this] rc r show ?case
    by (cases "streamLoop (replicate (length evs) (StreamTurn True)) i b1") auto
qed simp

end
