(* ===== verification/Rpc.thy ===== *)
theory Rpc
  imports Dispatch Manager Streams
begin

text \<open>
  The daemon's RPC interface, \<^verbatim>\<open>src/internal/daemon/rpc.go\<close>: one definition
  per method, the method switch, the request loop of a connection and the event stream.

  The state of the daemon extends the dispatcher's by the watch manager. JSON is a
  parameter: a \<open>codec\<close> decodes the raw parameters of each method into its parameter
  struct (a record here), or fails; an absent parameter object is the zero value, as
  \<open>unmarshalParams\<close> makes it. The other answers of the system (the docker lookup, the
  check for a repository, the parsers of durations and times, the build's version) are the
  record \<open>rpc_env\<close>. Nothing is assumed of either.
\<close>

section \<open>State, parameters and results\<close>

record daemon = drt +
  mgr :: Manager

type_synonym 'z dm = "'z daemon_scheme"

record rpc_env =
  dockerAvailable :: "error option"
  isGitRepo :: "string \<Rightarrow> bool"
  parseDuration :: "string \<Rightarrow> error + duration"
  parseTime :: "string \<Rightarrow> error + time"
  formatTime :: "time \<Rightarrow> string"
  versionString :: string

record InjectParams =
  in_Type :: string
  in_Source :: string
  in_Payload :: "string \<rightharpoonup> string"

record RuleParams =
  ru_Type :: string
  ru_Source :: string
  ru_SessionID :: string
  ru_Agent :: string
  ru_RepoPath :: string
  ru_Prompt :: string
  ru_Label :: string
  ru_OneShot :: bool
  ru_ExpiresAt :: string

record WatchParams =
  wa_Type :: string
  wa_Target :: string
  wa_Interval :: string
  wa_Stability :: string

record codec =
  dec_inject :: "string \<Rightarrow> error + InjectParams"
  dec_events :: "string \<Rightarrow> error + string \<times> int"
  dec_rule :: "string \<Rightarrow> error + RuleParams"
  dec_all :: "string \<Rightarrow> error + bool"
  dec_id :: "string \<Rightarrow> error + string"
  dec_session :: "string \<Rightarrow> error + Session"
  dec_state :: "string \<Rightarrow> error + string"
  dec_run :: "string \<Rightarrow> error + string \<times> string"
  dec_watch :: "string \<Rightarrow> error + WatchParams"

definition unmarshalParams :: "'p \<Rightarrow> (string \<Rightarrow> error + 'p) \<Rightarrow> string \<Rightarrow> ('s, 'p) io" where
  "unmarshalParams zero dec raw = fromSum (if raw = [] then Inr zero else dec raw)"

record Status =
  st_Version :: string
  st_Rules :: nat
  st_Sessions :: nat
  st_Pending :: nat
  st_Running :: nat
  st_Watches :: nat
  st_LastEvent :: string

datatype rpc_result =
    RStatus Status
  | RIngest IngestResult
  | REvents "Event list"
  | RRule Rule
  | RRules "Rule list"
  | ROk
  | RSession Session
  | RSessions "Session list"
  | RContinuation Continuation
  | RContinuations "Continuation list"
  | RWatch Watch
  | RWatches "Watch list"

section \<open>The methods\<close>

definition statusRpc :: "rpc_env \<Rightarrow> ('z dm, rpc_result) io" where
  "statusRpc env =
     bindE (ListEvents [] 1) (\<lambda>events.
     bindE (ListRules False) (\<lambda>rules.
     bindE ListSessions (\<lambda>sessions.
     bindE (ListContinuations ''pending'') (\<lambda>pending.
     bindE (ListContinuations ''running'') (\<lambda>running.
     bindE ListWatches (\<lambda>watches.
     returnE (RStatus \<lparr>st_Version = versionString env, st_Rules = length rules,
       st_Sessions = length sessions, st_Pending = length pending, st_Running = length running,
       st_Watches = length watches,
       st_LastEvent = (case events of [] \<Rightarrow> []
         | e # _ \<Rightarrow> ev_Type e @ '' @ '' @ formatTime env (ev_Timestamp e))\<rparr>)))))))"

definition eventInject :: "'t template_engine \<Rightarrow> codec \<Rightarrow> string \<Rightarrow> ('z dm, rpc_result) io" where
  "eventInject te cd raw =
     bindE (unmarshalParams \<lparr>in_Type = [], in_Source = [], in_Payload = Map.empty\<rparr> (dec_inject cd) raw) (\<lambda>p.
     if in_Type p = [] then throwE (GoError ''event.inject: type is required'')
     else bindE (EngineIngest te \<lparr>ev_ID = [], ev_Type = in_Type p, ev_Source = in_Source p,
         ev_Payload = in_Payload p, ev_Timestamp = 0\<rparr>) (\<lambda>res. returnE (RIngest res)))"

definition ruleValidate :: "'t template_engine \<Rightarrow> rpc_env \<Rightarrow> RuleParams \<Rightarrow> error + time option" where
  \<comment> \<open>the checks of \<open>ruleAdd\<close> before any side effect; the result is the parsed expiry\<close>
  "ruleValidate te env p =
     (if ru_Type p = [] \<or> ru_SessionID p = [] \<or> ru_Prompt p = []
      then Inl (GoError ''rule.add: type, sessionId and prompt are required'')
      else (case ValidatePromptTemplate te (ru_Prompt p) of
        Some e \<Rightarrow> Inl (GoError (''rule.add: bad prompt template: '' @ Error e))
      | None \<Rightarrow>
          if ru_ExpiresAt p = [] then Inr None
          else (case parseTime env (ru_ExpiresAt p) of
            Inl e \<Rightarrow> Inl (GoError (''rule.add: bad expiresAt: '' @ Error e))
          | Inr t \<Rightarrow> Inr (Some t))))"

definition ruleSession :: "RuleParams \<Rightarrow> ('z dm, unit) io" where
  \<comment> \<open>self-registration, or the check that the session exists\<close>
  "ruleSession p =
     (if ru_Agent p \<noteq> [] \<and> ru_RepoPath p \<noteq> []
      then bindE (RegisterSession (zeroSession\<lparr>s_SessionID := ru_SessionID p, s_Agent := ru_Agent p,
          s_RepoPath := ru_RepoPath p\<rparr>)) (\<lambda>_. returnE ())
      else bindE (GetSession (ru_SessionID p)) (\<lambda>s. case s of
          Some _ \<Rightarrow> returnE ()
        | None \<Rightarrow> throwE (GoError (''rule.add: unknown session '' @ goQuote (ru_SessionID p) @
            '' (register it or pass agent+repoPath)''))))"

definition ruleOf :: "RuleParams \<Rightarrow> time option \<Rightarrow> Rule" where
  "ruleOf p expiresAt = \<lparr>r_ID = [], r_Selector = \<lparr>sel_Type = ru_Type p, sel_Source = ru_Source p\<rparr>,
     r_ActionKind = ActionContinueSession, r_SessionID = ru_SessionID p,
     r_PromptTemplate = ru_Prompt p, r_Label = ru_Label p, r_OneShot = ru_OneShot p,
     r_Consumed = False, r_ExpiresAt = expiresAt, r_CreatedAt = 0\<rparr>"

definition ruleAddP :: "'t template_engine \<Rightarrow> rpc_env \<Rightarrow> RuleParams \<Rightarrow> ('z dm, Rule) io" where
  "ruleAddP te env p =
     bindE (fromSum (ruleValidate te env p)) (\<lambda>expiresAt.
     bindE (ruleSession p) (\<lambda>_.
     AddRule (ruleOf p expiresAt)))"

definition zeroRuleParams :: RuleParams where
  "zeroRuleParams = \<lparr>ru_Type = [], ru_Source = [], ru_SessionID = [], ru_Agent = [], ru_RepoPath = [],
     ru_Prompt = [], ru_Label = [], ru_OneShot = False, ru_ExpiresAt = []\<rparr>"

definition ruleAdd :: "'t template_engine \<Rightarrow> rpc_env \<Rightarrow> codec \<Rightarrow> string \<Rightarrow> ('z dm, rpc_result) io" where
  "ruleAdd te env cd raw =
     bindE (unmarshalParams zeroRuleParams (dec_rule cd) raw) (\<lambda>p.
     bindE (ruleAddP te env p) (\<lambda>r. returnE (RRule r)))"

definition sessionRegister :: "codec \<Rightarrow> string \<Rightarrow> ('z dm, rpc_result) io" where
  "sessionRegister cd raw =
     bindE (unmarshalParams zeroSession (dec_session cd) raw) (\<lambda>p.
     if s_SessionID p = [] \<or> s_Agent p = []
     then throwE (GoError ''session.register: sessionId and agent are required'')
     else bindE (RegisterSession p) (\<lambda>s. returnE (RSession s)))"

definition continuationRunP :: "string \<Rightarrow> string \<Rightarrow> ('z dm, Continuation) io" where
  "continuationRunP sid prompt =
     (if sid = [] \<or> prompt = []
      then throwE (GoError ''continuation.run: sessionId and prompt are required'')
      else bindE (GetSession sid) (\<lambda>s. case s of
          None \<Rightarrow> throwE (GoError (''continuation.run: unknown session '' @ goQuote sid))
        | Some _ \<Rightarrow>
            bindE (InsertManualContinuation sid prompt) (\<lambda>c.
            bindE Wake (\<lambda>_. returnE c))))"

definition continuationRun :: "codec \<Rightarrow> string \<Rightarrow> ('z dm, rpc_result) io" where
  "continuationRun cd raw =
     bindE (unmarshalParams ([], []) (dec_run cd) raw) (\<lambda>(sid, prompt).
     bindE (continuationRunP sid prompt) (\<lambda>c. returnE (RContinuation c)))"

definition watchConfig :: "rpc_env \<Rightarrow> WatchParams \<Rightarrow> error + Config" where
  "watchConfig env p =
     (case (if wa_Interval p = [] then Inr 0 else parseDuration env (wa_Interval p)) of
        Inl e \<Rightarrow> Inl (GoError (''watch.add: bad interval: '' @ Error e))
      | Inr i \<Rightarrow> (case (if wa_Stability p = [] then Inr 0 else parseDuration env (wa_Stability p)) of
          Inl e \<Rightarrow> Inl (GoError (''watch.add: bad stability: '' @ Error e))
        | Inr s \<Rightarrow> Inr \<lparr>Interval = i, StabilityThreshold = s\<rparr>))"

definition watchValidate :: "rpc_env \<Rightarrow> WatchParams \<Rightarrow> error + Config" where
  \<comment> \<open>the checks of \<open>watch.add\<close> before any side effect\<close>
  "watchValidate env p =
     (case ValidateType (wa_Type p) of
        Some e \<Rightarrow> Inl e
      | None \<Rightarrow>
          if wa_Target p = [] then Inl (GoError ''watch.add: target is required'')
          else if wa_Type p = ''docker'' \<and> dockerAvailable env \<noteq> None
          then Inl (GoError (''watch.add: docker CLI not found: '' @ Error (the (dockerAvailable env))))
          else if wa_Type p = ''git'' \<and> \<not> isGitRepo env (wa_Target p)
          then Inl (GoError (''watch.add: '' @ wa_Target p @ '' is not a git repository''))
          else watchConfig env p)"

definition startWatch :: "Watch \<Rightarrow> ('z dm, unit) io" where
  "startWatch w = (\<lambda>s. case StartWatch w (mgr s) of
     (Some e, m) \<Rightarrow> (Inl e, s\<lparr>mgr := m\<rparr>)
   | (None, m) \<Rightarrow> (Inr (), s\<lparr>mgr := m\<rparr>))"

definition watchAddP :: "rpc_env \<Rightarrow> WatchParams \<Rightarrow> ('z dm, Watch) io" where
  "watchAddP env p =
     bindE (fromSum (watchValidate env p)) (\<lambda>cfg.
     bindE (AddWatch \<lparr>w_ID = [], w_Type = wa_Type p, w_Target = wa_Target p, w_Config = cfg, w_CreatedAt = 0\<rparr>) (\<lambda>w.
     bindE (startWatch w) (\<lambda>_.
     returnE w)))"

definition watchAdd :: "rpc_env \<Rightarrow> codec \<Rightarrow> string \<Rightarrow> ('z dm, rpc_result) io" where
  "watchAdd env cd raw =
     bindE (unmarshalParams \<lparr>wa_Type = [], wa_Target = [], wa_Interval = [], wa_Stability = []\<rparr> (dec_watch cd) raw) (\<lambda>p.
     bindE (watchAddP env p) (\<lambda>w. returnE (RWatch w)))"

definition watchRemove :: "codec \<Rightarrow> string \<Rightarrow> ('z dm, rpc_result) io" where
  "watchRemove cd raw =
     bindE (unmarshalParams [] (dec_id cd) raw) (\<lambda>i.
     bindE (modify (\<lambda>s. s\<lparr>mgr := StopWatch i (mgr s)\<rparr>)) (\<lambda>_.
     bindE (RemoveWatch i) (\<lambda>_. returnE ROk)))"

definition rpcDispatch ::
  "'t template_engine \<Rightarrow> rpc_env \<Rightarrow> codec \<Rightarrow> string \<Rightarrow> string \<Rightarrow> ('z dm, rpc_result) io" where
  "rpcDispatch te env cd method raw =
     (if method = ''status'' then statusRpc env
      else if method = ''event.inject'' then eventInject te cd raw
      else if method = ''events.list'' then
        bindE (unmarshalParams ([], 0) (dec_events cd) raw) (\<lambda>(ty, limit).
        bindE (ListEvents ty limit) (\<lambda>es. returnE (REvents es)))
      else if method = ''rule.add'' then ruleAdd te env cd raw
      else if method = ''rule.list'' then
        bindE (unmarshalParams False (dec_all cd) raw) (\<lambda>a.
        bindE (ListRules a) (\<lambda>rs. returnE (RRules rs)))
      else if method = ''rule.remove'' then
        bindE (unmarshalParams [] (dec_id cd) raw) (\<lambda>i.
        bindE (RemoveRule i) (\<lambda>_. returnE ROk))
      else if method = ''session.register'' then sessionRegister cd raw
      else if method = ''session.list'' then bindE ListSessions (\<lambda>ss. returnE (RSessions ss))
      else if method = ''continuation.list'' then
        bindE (unmarshalParams [] (dec_state cd) raw) (\<lambda>st.
        bindE (ListContinuations st) (\<lambda>cs. returnE (RContinuations cs)))
      else if method = ''continuation.run'' then continuationRun cd raw
      else if method = ''watch.add'' then watchAdd env cd raw
      else if method = ''watch.list'' then bindE ListWatches (\<lambda>ws. returnE (RWatches ws))
      else if method = ''watch.remove'' then watchRemove cd raw
      else throwE (GoError (''unknown method '' @ goQuote method)))"

section \<open>Connections\<close>

record request =
  rq_ID :: int
  rq_Method :: string
  rq_Params :: string

record response =
  rs_ID :: int
  rs_Result :: "rpc_result option"
  rs_Error :: string

fun handleConn :: "'t template_engine \<Rightarrow> rpc_env \<Rightarrow> codec \<Rightarrow> (request \<times> bool) list \<Rightarrow> 'z dm \<Rightarrow>
    response list \<times> request option \<times> 'z dm" where
  \<comment> \<open>the requests decoded from the connection until it is closed, each with the fate of the write of its response, and the
     responses written; the request that turns the connection into an event stream, if any, ends the loop, as does a failed write\<close>
  "handleConn te env cd [] w = ([], None, w)"
| "handleConn te env cd ((rq, written) # rqs) w =
     (if rq_Method rq = ''events.follow'' then ([], Some rq, w)
      else (case rpcDispatch te env cd (rq_Method rq) (rq_Params rq) w of
        (r, w1) \<Rightarrow> if \<not> written then ([], None, w1) else (case handleConn te env cd rqs w1 of
          (rs, f, w2) \<Rightarrow>
            ((case r of
                Inl e \<Rightarrow> \<lparr>rs_ID = rq_ID rq, rs_Result = None, rs_Error = Error e\<rparr>
              | Inr x \<Rightarrow> \<lparr>rs_ID = rq_ID rq, rs_Result = Some x, rs_Error = []\<rparr>) # rs, f, w2))))"

definition followBuffer :: int where
  "followBuffer = 64"

datatype frame =
    Reply response
  | Notification string Event  \<comment> \<open>its method and its parameters\<close>

definition follow :: "bool \<Rightarrow> stream_turn list \<Rightarrow> request \<Rightarrow> Bus \<Rightarrow> (frame list \<times> Bus) option" where
  \<comment> \<open>what is written to the connection; \<open>replied\<close> is whether the reply can be written\<close>
  "follow replied ts rq b = (case Subscribe followBuffer b of (i, b1) \<Rightarrow>
     if \<not> replied then map_option (\<lambda>(_, b2). ([], b2)) (leaveStream i b1)
     else map_option (\<lambda>(es, b2). (Reply \<lparr>rs_ID = rq_ID rq, rs_Result = Some ROk, rs_Error = []\<rparr> #
       map (Notification ''event'') es, b2)) (streamLoop ts i b1))"

section \<open>Store calls leave the rest of the daemon alone\<close>

definition store_only :: "('z st, 'a) io \<Rightarrow> bool" where
  "store_only m \<longleftrightarrow> (\<forall>I. (\<forall>w d. I (w\<lparr>db := d\<rparr>) = I w) \<and> (\<forall>w n. I (w\<lparr>nfault := n\<rparr>) = I w) \<and>
     (\<forall>w n. I (w\<lparr>nclock := n\<rparr>) = I w) \<and> (\<forall>w n. I (w\<lparr>nrand := n\<rparr>) = I w) \<longrightarrow> preserves I m)"

lemma store_only_calls [intro!]:
  "store_only (Exec stmt)" "store_only Now" "store_only (NewID p)" "store_only (returnE x)"
  "store_only (throwE e)" "store_only (fromSum r)"
  unfolding store_only_def by (auto intro!: preserves_Exec preserves_Now preserves_NewID)

lemma store_only_bind [intro!]: "store_only m \<Longrightarrow> (\<And>x. store_only (f x)) \<Longrightarrow> store_only (bindE m f)"
  unfolding store_only_def by (blast intro: preserves_bind)

lemma store_only_if [intro!]: "store_only m \<Longrightarrow> store_only n \<Longrightarrow> store_only (if b then m else n)"
  by simp

lemmas stmt_defs = Update_def UpdateN_def Query_def

lemma store_only_methods [intro!]:
  "store_only (ListEvents ty n)" "store_only (ListRules b)" "store_only (RemoveRule i)"
  "store_only ListSessions" "store_only (ListContinuations st)" "store_only ListWatches"
  "store_only (RemoveWatch i)" "store_only (GetSession i)" "store_only (AddRule r)"
  "store_only (RegisterSession s)" "store_only (InsertManualContinuation i p)"
  unfolding ListEvents_def ListRules_def RemoveRule_def ListSessions_def ListContinuations_def
    ListWatches_def RemoveWatch_def GetSession_def AddRule_def RegisterSession_def
    InsertManualContinuation_def Let_def stmt_defs
  by auto

lemma store_only_AddWatch [intro!]: "store_only (AddWatch w)"
  unfolding AddWatch_def stmt_defs by (auto split: option.split)

section \<open>The daemon's invariant\<close>

definition rest_ok :: "'z dm \<Rightarrow> bool" where
  "rest_ok w \<longleftrightarrow> wf_bus (bus w) \<and> wf_mgr (mgr w)"

lemma rest_ok_upd [simp]:
  "rest_ok (w\<lparr>db := d\<rparr>) = rest_ok w" "rest_ok (w\<lparr>nfault := n\<rparr>) = rest_ok w"
  "rest_ok (w\<lparr>nclock := n\<rparr>) = rest_ok w" "rest_ok (w\<lparr>nrand := n\<rparr>) = rest_ok w"
  "rest_ok (w\<lparr>wake := b\<rparr>) = rest_ok w"
  by (simp_all add: rest_ok_def)

lemma rest_ok_store: "store_only m \<Longrightarrow> preserves rest_ok m"
  unfolding store_only_def by (metis rest_ok_upd(1-4))

lemma rest_ok_EngineIngest: "preserves rest_ok (EngineIngest te ev)"
  by (rule preserves_EngineIngest)
    (auto intro: preserves_Ingest_frame wf_bus_step [OF bus_Publish] simp: rest_ok_def)

definition daemon_ok :: "'z dm \<Rightarrow> bool" where
  "daemon_ok w \<longleftrightarrow> wf_st w \<and> wf_bus (bus w) \<and> wf_mgr (mgr w)"

lemma daemon_ok_pair:
  assumes "preserves wf_st m" and "preserves rest_ok m"
  shows "preserves daemon_ok m"
  using preserves_conj [OF assms] by (simp add: preserves_def daemon_ok_def rest_ok_def)

lemma ok_store: "preserves wf_st m \<Longrightarrow> store_only m \<Longrightarrow> preserves daemon_ok m"
  by (intro daemon_ok_pair rest_ok_store)

lemma ok_methods:
  "preserves daemon_ok (ListEvents ty n)" "preserves daemon_ok (ListRules b)"
  "preserves daemon_ok (RemoveRule i)" "preserves daemon_ok ListSessions"
  "preserves daemon_ok (ListContinuations st)" "preserves daemon_ok ListWatches"
  "preserves daemon_ok (RemoveWatch i)" "preserves daemon_ok (GetSession i)"
  "preserves daemon_ok (AddRule r)" "preserves daemon_ok (RegisterSession s)"
  "preserves daemon_ok (InsertManualContinuation i p)" "preserves daemon_ok (AddWatch x)"
  by (intro ok_store store_only_methods store_only_AddWatch wf_rules)+

lemma ok_EngineIngest: "preserves daemon_ok (EngineIngest te ev)"
  by (intro daemon_ok_pair wf_EngineIngest rest_ok_EngineIngest)

lemma ok_Wake: "preserves daemon_ok Wake"
  unfolding Wake_def by (rule preserves_modify) (simp add: daemon_ok_def)

lemma ok_unmarshal: "preserves daemon_ok (unmarshalParams z d raw)"
  unfolding unmarshalParams_def by auto

lemma ok_startWatch: "preserves daemon_ok (startWatch x)"
proof (rule preservesI)
  fix w :: "'a dm"
  assume "daemon_ok w"
  moreover obtain e m where s: "StartWatch x (mgr w) = (e, m)" by (cases "StartWatch x (mgr w)")
  ultimately show "daemon_ok (snd (startWatch x w))"
    using wf_StartWatch [of "mgr w" x] by (cases e) (auto simp: startWatch_def daemon_ok_def)
qed

lemma ok_stopWatch: "preserves daemon_ok (modify (\<lambda>s. s\<lparr>mgr := StopWatch i (mgr s)\<rparr>))"
  by (rule preserves_modify) (auto simp: daemon_ok_def intro: wf_StopWatch)

lemmas ok_rules = preserves_bind preserves_if preserves_pure ok_methods ok_EngineIngest ok_Wake
  ok_unmarshal ok_startWatch ok_stopWatch

lemma ok_ruleAdd: "preserves daemon_ok (ruleAdd te env cd raw)"
  unfolding ruleAdd_def ruleAddP_def ruleSession_def
  by (intro ok_rules) (auto split: option.split)

lemma ok_continuationRun: "preserves daemon_ok (continuationRun cd raw)"
  unfolding continuationRun_def continuationRunP_def
  by (auto split: option.split intro!: ok_rules)

lemma ok_rpcDispatch: "preserves daemon_ok (rpcDispatch te env cd method raw)"
  unfolding rpcDispatch_def statusRpc_def eventInject_def sessionRegister_def watchAdd_def watchAddP_def watchRemove_def
  by (intro ok_rules ok_ruleAdd ok_continuationRun; (auto intro!: ok_rules)?)

text \<open>
  No request can break the daemon's state. Whatever the method and its raw parameters, valid or
  not, and whichever statements fail, a request keeps the schema invariant of the store, the invariant of the
  bus and the invariant of the watch manager.
\<close>

theorem rpc_keeps_invariants:
  fixes w :: "'z dm"
  assumes "wf_st w" and "wf_bus (bus w)" and "wf_mgr (mgr w)"
  shows "wf_st (snd (rpcDispatch te env cd method raw w)) \<and>
    wf_bus (bus (snd (rpcDispatch te env cd method raw w))) \<and>
    wf_mgr (mgr (snd (rpcDispatch te env cd method raw w)))"
proof -
  obtain r w' where run: "rpcDispatch te env cd method raw w = (r, w')" by (cases "rpcDispatch te env cd method raw w")
  have "daemon_ok w" using assms by (simp add: daemon_ok_def)
  from preservesD [OF ok_rpcDispatch this run] run show ?thesis by (simp add: daemon_ok_def)
qed

section \<open>Registering sessions and adding rules\<close>

lemma find_SomeD: "find P xs = Some x \<Longrightarrow> x \<in> set xs \<and> P x"
  by (auto simp: find_Some_iff)

lemma GetSession_Inr:
  "GetSession i w = (Inr r, w') \<Longrightarrow> r = find (\<lambda>s. s_SessionID s = i) (sessions (db w)) \<and> db w' = db w"
  unfolding GetSession_def by (drule Query_Inr) simp

lemma AddRule_Inr:
  assumes "AddRule r w = (Inr r', w')"
  shows "db w' = (db w)\<lparr>rules := rules (db w) @ [r']\<rparr> \<and> r_ID r' \<notin> r_ID ` set (rules (db w)) \<and>
    r_Selector r' = r_Selector r \<and> r_SessionID r' = r_SessionID r \<and> r_PromptTemplate r' = r_PromptTemplate r \<and>
    r_Label r' = r_Label r \<and> r_OneShot r' = r_OneShot r \<and> \<not> r_Consumed r' \<and> r_ExpiresAt r' = r_ExpiresAt r"
  using assms
  by (auto simp: AddRule_def Let_def bindE_Inr_iff NewID_run Now_def Exec_def insertRule_def insert_row_def
      list_ex_iff conf_rule_def split: if_splits option.splits)

lemma AddRule_healthy:
  assumes "healthy w" and "r_ID r = []" and "idAt ''rule'' (rand w) (nrand w) \<notin> r_ID ` set (rules (db w))"
  shows "\<exists>r' w'. AddRule r w = (Inr r', w') \<and> healthy w' \<and> rand w' = rand w \<and> nrand w' = nrand w + 6 \<and>
    r_ID r' = idAt ''rule'' (rand w) (nrand w)"
  using assms
  by (force simp: AddRule_def Let_def bindE_def NewID_run Now_def Exec_def healthy_def insertRule_def insert_row_def
      list_ex_iff conf_rule_def)

lemma RegisterSession_healthy:
  "healthy w \<Longrightarrow> \<exists>s w'. RegisterSession x w = (Inr s, w') \<and> healthy w' \<and> rand w' = rand w \<and> nrand w' = nrand w"
  by (simp add: RegisterSession_def GetSession_def Now_def bindE_def Let_def)

lemma AddRule_Inl:
  assumes "AddRule r w = (Inl e, w')"
  shows "db w' = db w"
  using assms
  by (auto simp: AddRule_def Let_def bindE_Inl_iff NewID_run Now_def Exec_def insertRule_def insert_row_def
      split: if_splits option.splits)

lemma RegisterSession_db:
  assumes "RegisterSession s w = (r, w')"
  shows "db w' = db w \<or> (\<exists>st t. db w' = upsertSession (s\<lparr>s_State := st, s_CreatedAt := t, s_UpdatedAt := t\<rparr>) (db w) \<and>
    (s_State s \<noteq> [] \<longrightarrow> st = s_State s) \<and> (s_State s = [] \<longrightarrow> st = SessionWaiting))"
  using assms
  by (auto simp: RegisterSession_def Let_def GetSession_def Now_def Update_def Query_def Exec_def bindE_def
      split: option.splits sum.splits prod.splits if_splits)

lemma RegisterSession_Inr:
  assumes "RegisterSession s w = (Inr stored, w')"
  shows "\<exists>st t. db w' = upsertSession (s\<lparr>s_State := st, s_CreatedAt := t, s_UpdatedAt := t\<rparr>) (db w) \<and>
    st = (if s_State s = [] then SessionWaiting else s_State s) \<and>
    stored = (case find (\<lambda>x. s_SessionID x = s_SessionID s) (sessions (db w')) of None \<Rightarrow> zeroSession | Some x \<Rightarrow> x)"
  using assms
  by (auto simp: RegisterSession_def Let_def GetSession_def bindE_Inr_iff Now_def dest!: Update_Inr Query_Inr)

lemma upsertSession_find:
  assumes "uniq conf_session (sessions d)"
  shows "find (\<lambda>x. s_SessionID x = s_SessionID s) (sessions (upsertSession s d)) =
    Some (case find (\<lambda>x. s_SessionID x = s_SessionID s) (sessions d) of
      None \<Rightarrow> s
    | Some old \<Rightarrow> old\<lparr>s_Agent := s_Agent s, s_RepoPath := s_RepoPath s, s_UpdatedAt := s_UpdatedAt s\<rparr>)"
proof -
  have "find P (update_where P f xs) = map_option f (find P xs)" if "\<And>x. P (f x) = P x" for P f and xs :: "Session list"
    using that by (induction xs) (auto simp: update_where_def)
  moreover have "find P (xs @ [s]) = Some s" if "\<not> list_ex P xs" "P s" for P and xs :: "Session list"
    using that by (induction xs) auto
  moreover have "list_ex P xs \<longleftrightarrow> find P xs \<noteq> None" for P and xs :: "Session list"
    by (induction xs) auto
  ultimately show ?thesis
    by (auto simp: upsertSession_def upsert_def conf_session_def split: option.split)
qed

text \<open>
  Registering a session. The stored session is returned. A new one starts in the given state, or
  waiting when none is given; registering an existing one replaces agent and repository and
  keeps its state and its creation time, and no other session is touched.
\<close>

theorem register_session_upserts:
  assumes "RegisterSession s w = (Inr stored, w')" and "wf_st w"
  shows "find (\<lambda>x. s_SessionID x = s_SessionID s) (sessions (db w')) = Some stored \<and>
    s_Agent stored = s_Agent s \<and> s_RepoPath stored = s_RepoPath s \<and>
    (case find (\<lambda>x. s_SessionID x = s_SessionID s) (sessions (db w)) of
       None \<Rightarrow> s_State stored = (if s_State s = [] then SessionWaiting else s_State s)
     | Some old \<Rightarrow> s_State stored = s_State old \<and> s_CreatedAt stored = s_CreatedAt old) \<and>
    filter (\<lambda>x. s_SessionID x \<noteq> s_SessionID s) (sessions (db w')) =
      filter (\<lambda>x. s_SessionID x \<noteq> s_SessionID s) (sessions (db w))"
proof -
  from RegisterSession_Inr [OF assms(1)] obtain st t where
    d: "db w' = upsertSession (s\<lparr>s_State := st, s_CreatedAt := t, s_UpdatedAt := t\<rparr>) (db w)"
    and st: "st = (if s_State s = [] then SessionWaiting else s_State s)"
    and r: "stored = (case find (\<lambda>x. s_SessionID x = s_SessionID s) (sessions (db w')) of None \<Rightarrow> zeroSession | Some x \<Rightarrow> x)"
    by blast
  have "filter (\<lambda>x. s_SessionID x \<noteq> s_SessionID s) (update_where (\<lambda>x. s_SessionID x = s_SessionID s)
      (\<lambda>old. old\<lparr>s_Agent := a, s_RepoPath := p, s_UpdatedAt := t\<rparr>) xs) =
      filter (\<lambda>x. s_SessionID x \<noteq> s_SessionID s) xs" for a p and xs :: "Session list"
    by (induction xs) (auto simp: update_where_def)
  then have "filter (\<lambda>x. s_SessionID x \<noteq> s_SessionID s) (sessions (db w')) =
      filter (\<lambda>x. s_SessionID x \<noteq> s_SessionID s) (sessions (db w))"
    by (simp add: d upsertSession_def upsert_def conf_session_def)
  with upsertSession_find [OF wf_db_uniqD(3) [OF assms(2)], of "s\<lparr>s_State := st, s_CreatedAt := t, s_UpdatedAt := t\<rparr>"] d st r
  show ?thesis by (auto split: option.splits)
qed

lemma ruleSession_effect:
  assumes "ruleSession p w = (q, w')" and "wf_st w"
  shows "rules (db w') = rules (db w) \<and>
    (q = Inr () \<longrightarrow> (\<exists>s\<in>set (sessions (db w')). s_SessionID s = ru_SessionID p))"
proof (cases "ru_Agent p \<noteq> [] \<and> ru_RepoPath p \<noteq> []")
  case True
  let ?s = "zeroSession\<lparr>s_SessionID := ru_SessionID p, s_Agent := ru_Agent p, s_RepoPath := ru_RepoPath p\<rparr>"
  obtain r where r: "RegisterSession ?s w = (r, w')" and q: "q = Inr () \<longleftrightarrow> (\<exists>x. r = Inr x)"
    using assms(1) True by (cases "RegisterSession ?s w"; cases "fst (RegisterSession ?s w)")
      (auto simp: ruleSession_def bindE_def)
  have "rules (db w') = rules (db w)"
    using RegisterSession_db [OF r] by (auto simp: upsertSession_def)
  moreover have "\<exists>s\<in>set (sessions (db w')). s_SessionID s = ru_SessionID p" if qi: "q = Inr ()"
  proof -
    from qi q obtain stored where "RegisterSession ?s w = (Inr stored, w')" using r by auto
    from RegisterSession_Inr [OF this] obtain st t where
      d: "db w' = upsertSession (?s\<lparr>s_State := st, s_CreatedAt := t, s_UpdatedAt := t\<rparr>) (db w)" by blast
    have "find (\<lambda>x. s_SessionID x = ru_SessionID p) (sessions (db w')) \<noteq> None"
      unfolding d
      using upsertSession_find [OF wf_db_uniqD(3) [OF assms(2)], of "?s\<lparr>s_State := st, s_CreatedAt := t, s_UpdatedAt := t\<rparr>"] by simp
    then show ?thesis by (auto simp: find_None_iff)
  qed
  ultimately show ?thesis by blast
next
  case False
  obtain r w1 where g: "GetSession (ru_SessionID p) w = (r, w1)" by (cases "GetSession (ru_SessionID p) w")
  then have "db w1 = db w" by (cases r) (auto simp: GetSession_def dest: Query_Inr Query_Inl)
  moreover have "find (\<lambda>s. s_SessionID s = ru_SessionID p) (sessions (db w)) = Some x" if "r = Inr (Some x)" for x
    using g that Query_Inr by (fastforce simp: GetSession_def)
  ultimately show ?thesis
    using assms(1) False g
    by (auto simp: ruleSession_def bindE_def find_Some_iff split: sum.splits option.splits)
qed

lemma ruleAddP_healthy:
  fixes w :: "'z dm"
  assumes v: "ruleValidate te env p = Inr t" and h: "healthy w"
    and i: "idAt ''rule'' (rand w) (nrand w) \<notin> r_ID ` set (rules (db w))"
    and reg: "ru_Agent p \<noteq> []" "ru_RepoPath p \<noteq> []"
  shows "\<exists>r w'. ruleAddP te env p w = (Inr r, w') \<and> healthy w' \<and> rand w' = rand w \<and> nrand w' = nrand w + 6 \<and>
    r_ID r = idAt ''rule'' (rand w) (nrand w)"
proof -
  let ?s = "zeroSession\<lparr>s_SessionID := ru_SessionID p, s_Agent := ru_Agent p, s_RepoPath := ru_RepoPath p\<rparr>"
  obtain s and w1 :: "'z dm" where s: "RegisterSession ?s w = (Inr s, w1)" and w1: "healthy w1" "rand w1 = rand w" "nrand w1 = nrand w"
    using RegisterSession_healthy [OF h] by blast
  have "rules (db w1) = rules (db w)"
    using RegisterSession_db [OF s] by (auto simp: upsertSession_def)
  with AddRule_healthy [OF w1(1), of "ruleOf p t"] w1 i
  obtain r w' where "AddRule (ruleOf p t) w1 = (Inr r, w')" "healthy w'" "rand w' = rand w" "nrand w' = nrand w + 6"
      "r_ID r = idAt ''rule'' (rand w) (nrand w)"
    by (auto simp: ruleOf_def)
  with s v reg show ?thesis by (simp add: ruleAddP_def ruleSession_def fromSum_def bindE_def)
qed

text \<open>
  (C19) Adding a rule. A request that fails the validation changes nothing at all. In every case either
  the rules are unchanged, or exactly one rule was appended: it has a fresh identifier, is not consumed, carries
  the requested selector, label and one-shot flag, its template parses, and its session is registered.
\<close>

theorem rule_add_checked:
  assumes "ruleAddP te env p w = (r, w')" and "wf_st w"
  shows "case r of
      Inl e \<Rightarrow> rules (db w') = rules (db w) \<and> (\<forall>e'. ruleValidate te env p = Inl e' \<longrightarrow> w' = w \<and> e = e')
    | Inr rule \<Rightarrow> rules (db w') = rules (db w) @ [rule] \<and> r_ID rule \<notin> r_ID ` set (rules (db w)) \<and>
        \<not> r_Consumed rule \<and> Inr (r_ExpiresAt rule) = ruleValidate te env p \<and>
        r_Selector rule = \<lparr>sel_Type = ru_Type p, sel_Source = ru_Source p\<rparr> \<and>
        r_Label rule = ru_Label p \<and> r_OneShot rule = ru_OneShot p \<and> r_SessionID rule = ru_SessionID p \<and>
        ValidatePromptTemplate te (r_PromptTemplate rule) = None \<and>
        (\<exists>s\<in>set (sessions (db w')). s_SessionID s = ru_SessionID p)"
proof (cases "ruleValidate te env p")
  case (Inl e)
  with assms show ?thesis by (auto simp: ruleAddP_def fromSum_def bindE_def)
next
  case (Inr t)
  then have tmpl: "ValidatePromptTemplate te (ru_Prompt p) = None"
    by (auto simp: ruleValidate_def split: if_splits option.splits)
  obtain q w1 where q: "ruleSession p w = (q, w1)" by (cases "ruleSession p w")
  have rs: "rules (db w1) = rules (db w)" and sess: "q = Inr () \<Longrightarrow> \<exists>s\<in>set (sessions (db w1)). s_SessionID s = ru_SessionID p"
    using ruleSession_effect [OF q assms(2)] by auto
  show ?thesis
  proof (cases q)
    case (Inl e)
    with q rs assms(1) \<open>ruleValidate te env p = Inr t\<close> show ?thesis
      by (auto simp: ruleAddP_def fromSum_def bindE_def)
  next
    case (Inr u)
    with q \<open>ruleValidate te env p = Inr t\<close> assms(1) have a: "AddRule (ruleOf p t) w1 = (r, w')"
      by (simp add: ruleAddP_def fromSum_def bindE_def)
    show ?thesis
    proof (cases r)
      case (Inl e)
      with a AddRule_Inl rs \<open>ruleValidate te env p = Inr t\<close> show ?thesis by fastforce
    next
      case (Inr rule)
      with a have "AddRule (ruleOf p t) w1 = (Inr rule, w')" by simp
      from AddRule_Inr [OF this] rs sess Inr \<open>q = Inr u\<close> \<open>ruleValidate te env p = Inr t\<close> tmpl
      show ?thesis by (auto simp: ruleOf_def)
    qed
  qed
qed

section \<open>Manual continuations, watches, reads\<close>

lemma InsertManual_Inr:
  assumes "InsertManualContinuation sid prompt w = (Inr c, w')"
  shows "db w' = (db w)\<lparr>continuations := continuations (db w) @ [c]\<rparr> \<and> c_SessionID c = sid \<and> c_Prompt c = prompt \<and>
    c_State c = ContinuationPending \<and> c_Label c = ''manual''"
  using assms
  by (auto simp: InsertManualContinuation_def Let_def bindE_Inr_iff NewID_run Now_def Exec_def insert_row_def
      split: if_splits option.splits)

text \<open>
  Running a continuation by hand. A request that succeeds names a registered session and a
  prompt, appends exactly one pending continuation for them and signals the dispatcher; one
  that is refused leaves the continuations as they were.
\<close>

theorem continuation_run_queues:
  assumes "continuationRunP sid prompt w = (r, w')"
  shows "case r of
      Inl e \<Rightarrow> continuations (db w') = continuations (db w)
    | Inr c \<Rightarrow> prompt \<noteq> [] \<and> (\<exists>s\<in>set (sessions (db w)). s_SessionID s = sid) \<and> wake w' \<and>
        continuations (db w') = continuations (db w) @ [c] \<and>
        c_SessionID c = sid \<and> c_Prompt c = prompt \<and> c_State c = ContinuationPending"
proof (cases r)
  case (Inr c)
  with assms obtain x w1 w2 where g: "GetSession sid w = (Inr (Some x), w1)"
    and i: "InsertManualContinuation sid prompt w1 = (Inr c, w2)" and "prompt \<noteq> []" "w' = w2\<lparr>wake := True\<rparr>"
    by (auto simp: continuationRunP_def bindE_Inr_iff Wake_def modify_def split: if_splits option.splits)
  with InsertManual_Inr [OF i] GetSession_Inr [OF g] find_SomeD [of _ "sessions (db w)" x] Inr show ?thesis by auto
next
  case (Inl e)
  have q: "db w1 = db w" if "GetSession sid w = (q, w1)" for q w1
    using that by (cases q) (auto simp: GetSession_def dest: Query_Inr Query_Inl)
  have i: "db w2 = db w1" if "InsertManualContinuation sid prompt w1 = (Inl e, w2)" for w1 w2 :: "'a dm"
    using that by (auto simp: InsertManualContinuation_def Let_def bindE_Inl_iff NewID_run Now_def Exec_def
        insert_row_def split: if_splits option.splits)
  obtain q w1 where g: "GetSession sid w = (q, w1)" by (cases "GetSession sid w")
  obtain k w2 where k: "InsertManualContinuation sid prompt w1 = (k, w2)"
    by (cases "InsertManualContinuation sid prompt w1")
  have "w' \<in> {w, w1} \<or> w' = w2 \<and> k = Inl e"
    using assms Inl g k
    by (cases q; cases "sid = [] \<or> prompt = []"; cases k)
      (auto simp: continuationRunP_def bindE_def Wake_def modify_def split: option.splits)
  with q [OF g] i k Inl show ?thesis by auto
qed

lemma AddWatch_Inr:
  assumes "AddWatch x w = (Inr y, w')"
  shows "y \<in> set (watches (db w')) \<and> w_Type y = w_Type x \<and> w_Target y = w_Target x \<and>
    (\<forall>z\<in>set (watches (db w)). z \<in> set (watches (db w')))"
proof -
  from assms obtain i t where d: "db w' = (db w)\<lparr>watches := fst (insert_or_ignore conf_watch
      (x\<lparr>w_ID := i, w_CreatedAt := t\<rparr>) (watches (db w)))\<rparr>"
    and f: "find (\<lambda>z. w_Type z = w_Type x \<and> w_Target z = w_Target x) (watches (db w')) = Some y"
    by (auto simp: AddWatch_def bindE_Inr_iff split: option.splits dest!: Update_Inr Query_Inr)
       (auto simp: Now_def NewID_run split: if_splits)
  from find_SomeD [OF f] d show ?thesis by (auto simp: insert_or_ignore_def)
qed

lemma AddWatch_frame:
  assumes "AddWatch x w = (r, w')"
  shows "rules (db w') = rules (db w) \<and> continuations (db w') = continuations (db w)"
  using assms
  by (auto simp: AddWatch_def stmt_defs Exec_def Now_def NewID_run bindE_def split: option.splits sum.splits prod.splits if_splits)

lemma startWatch_ok:
  assumes "ValidateType (w_Type x) = None" and "m_ctx (mgr w)"
  shows "\<exists>m. startWatch x w = (Inr (), w\<lparr>mgr := m\<rparr>)"
proof -
  obtain m where "StartWatch x (mgr w) = (None, m)"
    using assms by (cases "running (mgr w) (w_ID x)") (simp_all add: StartWatch_def)
  then show ?thesis by (auto simp: startWatch_def)
qed

text \<open>
  Adding a watch. When the request succeeds, a watch of the requested type and target is stored and
  running under its stored identifier, no stored watch was lost, and the type is one of the valid ones; adding
  the same type and target again answers with the watch that is already there.
\<close>

theorem watch_add_stores_and_starts:
  assumes "watchAddP env p w = (Inr x, w')" and "wf_st w"
  shows "x \<in> set (watches (db w')) \<and> w_Type x = wa_Type p \<and> w_Target x = wa_Target p \<and>
    wa_Type p \<in> set validTypes \<and> running (mgr w') (w_ID x) \<noteq> None \<and>
    set (watches (db w)) \<subseteq> set (watches (db w')) \<and>
    (\<forall>y\<in>set (watches (db w)). w_Type y = wa_Type p \<and> w_Target y = wa_Target p \<longrightarrow> x = y)"
proof -
  from assms(1) obtain cfg w1 where v: "watchValidate env p = Inr cfg"
    and a: "AddWatch \<lparr>w_ID = [], w_Type = wa_Type p, w_Target = wa_Target p, w_Config = cfg, w_CreatedAt = 0\<rparr> w = (Inr x, w1)"
    and s: "startWatch x w1 = (Inr (), w')"
    by (auto simp: watchAddP_def fromSum_def bindE_Inr_iff)
  note A = AddWatch_Inr [OF a]
  have ty: "wa_Type p \<in> set validTypes"
    using v by (auto simp: watchValidate_def ValidateType_def split: if_splits option.splits)
  have "running (mgr w') (w_ID x) \<noteq> None" "db w' = db w1"
    using s by (auto simp: startWatch_def StartWatch_def split: option.splits prod.splits if_splits)
  moreover have "x = y" if "y \<in> set (watches (db w))" "w_Type y = wa_Type p" "w_Target y = wa_Target p" for y
  proof -
    have "wf_st w1" using wf_AddWatch assms(2) a by (rule preservesD)
    then have "uniq conf_watch (watches (db w1))" by (rule wf_db_uniqD)
    from twa.uniq_determines [OF this, of x y] A that show ?thesis by (auto simp: conf_watch_def)
  qed
  ultimately show ?thesis using A ty by auto
qed

definition readMethods :: "string list" where
  "readMethods = [''status'', ''events.list'', ''rule.list'', ''session.list'', ''continuation.list'', ''watch.list'']"

definition methods :: "string list" where
  "methods = readMethods @ [''event.inject'', ''rule.add'', ''rule.remove'', ''session.register'',
     ''continuation.run'', ''watch.add'', ''watch.remove'']"

lemma keeps_Query: "preserves (\<lambda>w. db w = d \<and> mgr w = m \<and> bus w = b) (Query q)"
  unfolding Query_def by (rule preserves_Exec) auto

lemma keeps_reads:
  "preserves (\<lambda>w. db w = d \<and> mgr w = m \<and> bus w = b) (ListEvents ty n)"
  "preserves (\<lambda>w. db w = d \<and> mgr w = m \<and> bus w = b) (ListRules a)"
  "preserves (\<lambda>w. db w = d \<and> mgr w = m \<and> bus w = b) ListSessions"
  "preserves (\<lambda>w. db w = d \<and> mgr w = m \<and> bus w = b) (ListContinuations st)"
  "preserves (\<lambda>w. db w = d \<and> mgr w = m \<and> bus w = b) ListWatches"
  "preserves (\<lambda>w. db w = d \<and> mgr w = m \<and> bus w = b) (unmarshalParams z dc raw)"
  unfolding ListEvents_def ListRules_def ListSessions_def ListContinuations_def ListWatches_def
    unmarshalParams_def Let_def
  by (auto intro!: preserves_bind preserves_Now keeps_Query)

lemma rpcDispatch_reads:
  "rpcDispatch te env cd ''status'' raw = statusRpc env"
  "rpcDispatch te env cd ''events.list'' raw = bindE (unmarshalParams ([], 0) (dec_events cd) raw) (\<lambda>(ty, limit).
     bindE (ListEvents ty limit) (\<lambda>es. returnE (REvents es)))"
  "rpcDispatch te env cd ''rule.list'' raw = bindE (unmarshalParams False (dec_all cd) raw) (\<lambda>a.
     bindE (ListRules a) (\<lambda>rs. returnE (RRules rs)))"
  "rpcDispatch te env cd ''session.list'' raw = bindE ListSessions (\<lambda>ss. returnE (RSessions ss))"
  "rpcDispatch te env cd ''continuation.list'' raw = bindE (unmarshalParams [] (dec_state cd) raw) (\<lambda>st.
     bindE (ListContinuations st) (\<lambda>cs. returnE (RContinuations cs)))"
  "rpcDispatch te env cd ''watch.list'' raw = bindE ListWatches (\<lambda>ws. returnE (RWatches ws))"
  by (simp_all add: rpcDispatch_def)

lemma rpcDispatch_unknown:
  "method \<notin> set methods \<Longrightarrow> rpcDispatch te env cd method raw = throwE (GoError (''unknown method '' @ goQuote method))"
  by (simp add: rpcDispatch_def methods_def readMethods_def)

lemma preserves_case_prod: "(\<And>a b. preserves I (f a b)) \<Longrightarrow> preserves I (case x of (a, b) \<Rightarrow> f a b)"
  by (cases x) simp

text \<open>
  Reading is reading. The list methods and the status, and any unknown method, change no table, no
  watcher and no subscriber, whatever their parameters; an unknown method is an error.
\<close>

theorem rpc_reads_change_nothing:
  fixes w :: "'z dm"
  assumes "method \<in> set readMethods \<or> method \<notin> set methods"
  shows "db (snd (rpcDispatch te env cd method raw w)) = db w \<and>
    mgr (snd (rpcDispatch te env cd method raw w)) = mgr w \<and>
    bus (snd (rpcDispatch te env cd method raw w)) = bus w \<and>
    (method \<notin> set methods \<longrightarrow> fst (rpcDispatch te env cd method raw w) = Inl (GoError (''unknown method '' @ goQuote method)))"
proof -
  have "preserves (\<lambda>w. db w = d \<and> mgr w = m \<and> bus w = b) (rpcDispatch te env cd method raw :: ('z dm, rpc_result) io)" for d m b
  proof (cases "method \<in> set methods")
    case True
    have "list_all (\<lambda>x. preserves (\<lambda>w. db w = d \<and> mgr w = m \<and> bus w = b)
        (rpcDispatch te env cd x raw :: ('z dm, rpc_result) io)) readMethods"
      by (simp only: readMethods_def list.pred_inject rpcDispatch_reads statusRpc_def simp_thms)
        (intro conjI preserves_bind preserves_case_prod keeps_reads preserves_pure)
    with True assms show ?thesis by (auto simp only: list_all_iff)
  next
    case False
    then show ?thesis by (simp only: rpcDispatch_unknown preserves_pure not_False_eq_True)
  qed
  from preservesD [OF this _ surjective_pairing, of w "db w" "mgr w" "bus w"]
  have "db (snd (rpcDispatch te env cd method raw w)) = db w \<and>
    mgr (snd (rpcDispatch te env cd method raw w)) = mgr w \<and> bus (snd (rpcDispatch te env cd method raw w)) = bus w" by simp
  moreover have "fst (rpcDispatch te env cd method raw w) = Inl (GoError (''unknown method '' @ goQuote method))"
    if "method \<notin> set methods"
    using that by (simp add: rpcDispatch_unknown)
  ultimately show ?thesis by blast
qed

section \<open>The event stream\<close>

text \<open>
  Following events. A client that follows the events receives, after the reply, in order and without loss or addition,
  the events published after it subscribed, as long as no more than the buffer's 64 of them wait to be read.
\<close>

theorem follow_receives_in_order:
  assumes "wf_bus b" and "length evs \<le> 64"
  shows "map_option fst (follow True (map BusPublishes evs @ replicate (length evs) (StreamTurn True)) rq b) =
    Some (Reply \<lparr>rs_ID = rq_ID rq, rs_Result = Some ROk, rs_Error = []\<rparr> # map (Notification ''event'') evs)"
proof -
  obtain i b0 where s: "Subscribe followBuffer b = (i, b0)" by (cases "Subscribe followBuffer b")
  note n = Subscribe_new [OF assms(1) s]
  obtain b1 where l: "streamLoop (map BusPublishes evs @ replicate (length evs) (StreamTurn True)) i b0 =
      streamLoop (replicate (length evs) (StreamTurn True)) i b1" "bufOf i b1 = evs"
    using streamLoop_publish [OF n(1,4), of evs "replicate (length evs) (StreamTurn True)"] n(2,3) assms(2)
    by (auto simp: followBuffer_def)
  from streamLoop_drain [OF l(2)] obtain b2 where "streamLoop (replicate (length evs) (StreamTurn True)) i b1 = Some (evs, b2)" by auto
  with l(1) s show ?thesis by (simp add: follow_def)
qed

section \<open>Concrete requests\<close>

definition exDaemon :: daemon where
  "exDaemon = \<lparr>clock = (\<lambda>n. 10 + int n), nclock = 0, rand = of_nat, nrand = 0,
     db = exDB, fault = (\<lambda>_. None), nfault = 0, bus = snd (Subscribe 4 NewBus), wake = False, pubs = [],
     workers = {}, ctxErr = (\<lambda>_. False), nctx = 0, runs = [], mgr = exMgr\<rparr>"

lemma exDaemon_facts: "wf_st exDaemon" "wf_bus (bus exDaemon)" "wf_mgr (mgr exDaemon)" "healthy exDaemon"
  using exDB_wf wf_Subscribe [OF wf_NewBus, of 4] mgrq.reach_inv [OF exMgr_reach]
  by (simp_all add: exDaemon_def healthy_def)

definition exEnv :: rpc_env where
  "exEnv = \<lparr>dockerAvailable = None, isGitRepo = (\<lambda>_. True), parseDuration = (\<lambda>_. Inr 1),
     parseTime = (\<lambda>_. Inr 99), formatTime = (\<lambda>_. ''now''), versionString = ''dev''\<rparr>"

definition exCodec :: codec where
  "exCodec = \<lparr>dec_inject = (\<lambda>s. Inr \<lparr>in_Type = s, in_Source = [], in_Payload = Map.empty\<rparr>),
     dec_events = (\<lambda>_. Inr ([], 0)), dec_rule = (\<lambda>_. Inl (GoError ''bad json'')), dec_all = (\<lambda>_. Inr True),
     dec_id = Inr, dec_session = (\<lambda>s. Inr (zeroSession\<lparr>s_SessionID := s, s_Agent := ''claude''\<rparr>)),
     dec_state = Inr, dec_run = (\<lambda>s. Inr (s, ''go'')), dec_watch = (\<lambda>_. Inl (GoError ''bad json''))\<rparr>"

theorem rpc_keeps_invariants_witness:
  "wf_st (snd (rpcDispatch exEngine exEnv exCodec ''event.inject'' ''docker.healthy'' exDaemon))"
  using rpc_keeps_invariants [OF exDaemon_facts(1-3)] by blast

theorem rpc_reads_change_nothing_witness:
  "db (snd (rpcDispatch exEngine exEnv exCodec ''status'' [] exDaemon)) = db exDaemon"
  using rpc_reads_change_nothing [of "''status''" exEngine exEnv exCodec "[]" exDaemon]
  by (simp add: readMethods_def)

theorem register_session_upserts_witness:
  "\<exists>stored w'. RegisterSession (exSession\<lparr>s_Agent := ''codex'', s_State := ''done''\<rparr>) exDaemon = (Inr stored, w') \<and>
     s_Agent stored = ''codex'' \<and> s_State stored = SessionWaiting"
proof -
  let ?s = "exSession\<lparr>s_Agent := ''codex'', s_State := ''done''\<rparr>"
  obtain stored w' where r: "RegisterSession ?s exDaemon = (Inr stored, w')"
    using exDaemon_facts(4) by (simp add: RegisterSession_def GetSession_def Now_def bindE_def Let_def)
  have "find (\<lambda>x. s_SessionID x = s_SessionID ?s) (sessions (db exDaemon)) = Some exSession"
    by (simp add: exDaemon_def exDB_def exSession_def)
  with register_session_upserts [OF r exDaemon_facts(1)] have "s_Agent stored = ''codex''" "s_State stored = SessionWaiting"
    by (simp_all add: exSession_def)
  with r show ?thesis by blast
qed

definition exRuleParams :: RuleParams where
  "exRuleParams = \<lparr>ru_Type = ''build.done'', ru_Source = [], ru_SessionID = ''s2'', ru_Agent = ''claude'',
     ru_RepoPath = ''/repo'', ru_Prompt = ''go'', ru_Label = [], ru_OneShot = True, ru_ExpiresAt = []\<rparr>"

theorem rule_add_checked_witness:
  "\<exists>rule w'. ruleAddP exEngine exEnv exRuleParams exDaemon = (Inr rule, w') \<and> r_OneShot rule \<and>
     rules (db w') = rules exDB @ [rule] \<and> (\<exists>s\<in>set (sessions (db w')). s_SessionID s = ''s2'')"
proof -
  have v: "ruleValidate exEngine exEnv exRuleParams = Inr None"
    by (simp add: ruleValidate_def exRuleParams_def ValidatePromptTemplate_def exEngine_def)
  have "rules (db exDaemon) = [exRule ''rule-1'' True, exRule ''rule-2'' False]"
    by (simp add: exDaemon_def exDB_def)
  then have "idAt ''rule'' (rand exDaemon) (nrand exDaemon) \<notin> r_ID ` set (rules (db exDaemon))"
    by (auto simp: exRule_def dest: arg_cong [of _ _ length])
  then obtain rule w' where r: "ruleAddP exEngine exEnv exRuleParams exDaemon = (Inr rule, w')"
    using ruleAddP_healthy [OF v exDaemon_facts(4)] by (auto simp: exRuleParams_def)
  have "db exDaemon = exDB" by (simp add: exDaemon_def)
  with rule_add_checked [OF r exDaemon_facts(1)] r show ?thesis by (auto simp: exRuleParams_def)
qed

theorem continuation_run_queues_witness:
  "\<exists>c w'. continuationRunP ''s1'' ''go'' exDaemon = (Inr c, w') \<and> c_State c = ContinuationPending \<and> wake w'"
proof -
  obtain c w' where r: "continuationRunP ''s1'' ''go'' exDaemon = (Inr c, w')"
    by (simp add: continuationRunP_def GetSession_def InsertManualContinuation_def Wake_def modify_def NewID_run
        Now_def bindE_def Let_def exDaemon_def exDB_def exSession_def Query_def Exec_def insert_row_def)
  from continuation_run_queues [OF r] r show ?thesis by auto
qed

theorem watch_add_stores_and_starts_witness:
  "\<exists>x w'. watchAddP exEnv \<lparr>wa_Type = ''tcp'', wa_Target = ''db:1'', wa_Interval = [], wa_Stability = []\<rparr> exDaemon = (Inr x, w') \<and>
     x \<in> set (watches (db w')) \<and> running (mgr w') (w_ID x) \<noteq> None"
proof -
  let ?p = "\<lparr>wa_Type = ''tcp'', wa_Target = ''db:1'', wa_Interval = [], wa_Stability = []\<rparr>"
  let ?x = "\<lparr>w_ID = [], w_Type = ''tcp'', w_Target = ''db:1'', w_Config = \<lparr>Interval = 0, StabilityThreshold = 0\<rparr>, w_CreatedAt = 0\<rparr>"
  obtain x w1 where a: "AddWatch ?x exDaemon = (Inr x, w1)" and ok: "w_Type x = ''tcp''" "mgr w1 = exMgr"
    by (simp add: AddWatch_def NewID_run Now_def bindE_def exDaemon_def exDB_def Update_def Query_def Exec_def
        insert_or_ignore_def)
  obtain m where "startWatch x w1 = (Inr (), w1\<lparr>mgr := m\<rparr>)"
    using startWatch_ok [of x w1] ok exMgr_facts by (auto simp: ValidateType_def validTypes_def)
  with a have r: "watchAddP exEnv ?p exDaemon = (Inr x, w1\<lparr>mgr := m\<rparr>)"
    by (simp add: watchAddP_def fromSum_def watchValidate_def watchConfig_def ValidateType_def validTypes_def
        exEnv_def bindE_def)
  from watch_add_stores_and_starts [OF r exDaemon_facts(1)] r show ?thesis by blast
qed

theorem follow_receives_in_order_witness:
  "map_option fst (follow True [BusPublishes exEvent, StreamTurn True] rq NewBus) =
     Some [Reply \<lparr>rs_ID = rq_ID rq, rs_Result = Some ROk, rs_Error = []\<rparr>, Notification ''event'' exEvent]"
  using follow_receives_in_order [OF wf_NewBus, of "[exEvent]" rq] by simp

end
