(* ===== verification/Disk.thy ===== *)
theory Disk
  imports Prelude
begin

text \<open>
  The file system as the sources use it: a map from paths to contents, the calls of \<open>os\<close> on it, and the
  atomic replacement of a file in \<^verbatim>\<open>src/internal/setup/jsonmerge.go\<close>.

  Every call may fail for reasons outside the program: \<open>dfault n\<close> is the error of the \<open>n\<close>-th call, if
  any. A call that fails leaves the files as they are, except that a write that fails may leave a prefix of the
  data in the file. Directories are not part of the model: creating them is a call that can only fail.
\<close>

section \<open>Files and calls\<close>

record disk =
  files :: "string \<rightharpoonup> string"
  dfault :: "nat \<Rightarrow> string option"
  ndisk :: nat
  tmpNames :: "nat \<Rightarrow> string"
    \<comment> \<open>the names chosen by \<open>os.CreateTemp\<close>\<close>
  partial :: "nat \<Rightarrow> nat"
    \<comment> \<open>how much of its data a failing write leaves\<close>

type_synonym 'z dk = "'z disk_scheme"

definition osCall :: "((string \<rightharpoonup> string) \<Rightarrow> 'a \<times> (string \<rightharpoonup> string)) \<Rightarrow> ('z dk, 'a) io" where
  "osCall f = (\<lambda>s. case dfault s (ndisk s) of
     Some e \<Rightarrow> (Inl (GoError e), s\<lparr>ndisk := Suc (ndisk s)\<rparr>)
   | None \<Rightarrow> (Inr (fst (f (files s))), s\<lparr>files := snd (f (files s)), ndisk := Suc (ndisk s)\<rparr>))"

definition osReadFile :: "string \<Rightarrow> ('z dk, string option) io" where
  \<comment> \<open>\<open>None\<close>: the file does not exist (\<open>os.IsNotExist\<close>)\<close>
  "osReadFile p = osCall (\<lambda>fs. (fs p, fs))"

definition osMkdirAll :: "('z dk, unit) io" where
  "osMkdirAll = osCall (\<lambda>fs. ((), fs))"

definition osCreateTemp :: "('z dk, string) io" where
  "osCreateTemp = (\<lambda>s. osCall (\<lambda>fs. (tmpNames s (ndisk s), fs(tmpNames s (ndisk s) \<mapsto> []))) s)"

definition fileWrite :: "string \<Rightarrow> string \<Rightarrow> ('z dk, unit) io" where
  \<comment> \<open>write to an open file\<close>
  "fileWrite p data = (\<lambda>s. case dfault s (ndisk s) of
     Some e \<Rightarrow> (Inl (GoError e), s\<lparr>files := (files s)(p \<mapsto> take (partial s (ndisk s)) data), ndisk := Suc (ndisk s)\<rparr>)
   | None \<Rightarrow> (Inr (), s\<lparr>files := (files s)(p \<mapsto> data), ndisk := Suc (ndisk s)\<rparr>))"

definition fileClose :: "('z dk, unit) io" where
  "fileClose = osCall (\<lambda>fs. ((), fs))"

definition osRename :: "string \<Rightarrow> string \<Rightarrow> ('z dk, unit) io" where
  "osRename a b = osCall (\<lambda>fs. ((), fs(a := None, b := fs a)))"

definition osRemove :: "string \<Rightarrow> ('z dk, unit) io" where
  "osRemove p = osCall (\<lambda>fs. ((), fs(p := None)))"

section \<open>Atomic replacement\<close>

definition replaceBy :: "string \<Rightarrow> string \<Rightarrow> string \<Rightarrow> ('z dk, unit) io" where
  \<comment> \<open>the body after the temporary file exists; on every path of it the file is closed\<close>
  "replaceBy tmp path data =
     tryE (fileWrite tmp data) (\<lambda>r. case r of
       Inl e \<Rightarrow> tryE fileClose (\<lambda>_. throwE e)
     | Inr _ \<Rightarrow> bindE fileClose (\<lambda>_. osRename tmp path))"

definition atomicWrite :: "string \<Rightarrow> string \<Rightarrow> ('z dk, unit) io" where
  \<comment> \<open>the deferred removal of the temporary file runs on every path after its creation\<close>
  "atomicWrite path data =
     bindE osMkdirAll (\<lambda>_.
     bindE osCreateTemp (\<lambda>tmp.
     tryE (replaceBy tmp path data) (\<lambda>r.
     tryE (osRemove tmp) (\<lambda>_. fromSum r))))"

section \<open>What replacement does\<close>

definition tmpFresh :: "string \<Rightarrow> 'z dk \<Rightarrow> bool" where
  \<comment> \<open>\<open>os.CreateTemp\<close> makes a new file: its name is not the target's and not taken\<close>
  "tmpFresh path s \<longleftrightarrow> (\<forall>n. tmpNames s n \<noteq> path \<and> files s (tmpNames s n) = None)"

lemma osCall_cases:
  obtains (failed) e where "osCall f s = (Inl e, s\<lparr>ndisk := Suc (ndisk s)\<rparr>)"
  | (ok) "osCall f s = (Inr (fst (f (files s))), s\<lparr>files := snd (f (files s)), ndisk := Suc (ndisk s)\<rparr>)"
  by (cases "dfault s (ndisk s)") (auto simp: osCall_def)

lemma osReadFile_run:
  obtains (failed) e where "osReadFile p s = (Inl e, s\<lparr>ndisk := Suc (ndisk s)\<rparr>)"
  | (ok) "osReadFile p s = (Inr (files s p), s\<lparr>ndisk := Suc (ndisk s)\<rparr>)"
  by (cases "dfault s (ndisk s)") (auto simp: osReadFile_def osCall_def)

lemma replaceBy_effect:
  assumes "replaceBy tmp path data s = (r, s')" and "tmp \<noteq> path"
  shows "(\<forall>p. p \<noteq> tmp \<and> p \<noteq> path \<longrightarrow> files s' p = files s p) \<and>
    (case r of Inl _ \<Rightarrow> files s' path = files s path | Inr _ \<Rightarrow> files s' path = Some data \<and> files s' tmp = None) \<and>
    (\<exists>n. s'\<lparr>files := files s, ndisk := n\<rparr> = s\<lparr>ndisk := n\<rparr>)"
  using assms
  by (auto simp: replaceBy_def tryE_def bindE_def fileWrite_def fileClose_def osRename_def osCall_def
      split: option.splits)

lemma atomicWrite_effect:
  assumes run: "atomicWrite path data s = (r, s')" and fresh: "tmpFresh path s"
  shows "case r of
      Inl e \<Rightarrow> \<exists>tmp. tmp \<noteq> path \<and> files s tmp = None \<and> (\<forall>p. p \<noteq> tmp \<longrightarrow> files s' p = files s p)
    | Inr _ \<Rightarrow> files s' = (files s)(path \<mapsto> data)"
proof -
  let ?s1 = "s\<lparr>ndisk := Suc (ndisk s)\<rparr>" and ?tmp = "tmpNames s (Suc (ndisk s))"
  let ?s2 = "s\<lparr>files := (files s)(?tmp \<mapsto> []), ndisk := Suc (Suc (ndisk s))\<rparr>"
  have t: "?tmp \<noteq> path" "files s ?tmp = None" using fresh by (simp_all add: tmpFresh_def)
  show ?thesis
  proof (cases "dfault s (ndisk s) = None \<and> dfault s (Suc (ndisk s)) = None")
    case True
    obtain q s3 where q: "replaceBy ?tmp path data ?s2 = (q, s3)" by (cases "replaceBy ?tmp path data ?s2")
    obtain u s4 where u: "osRemove ?tmp s3 = (u, s4)" by (cases "osRemove ?tmp s3")
    have "r = q" "s' = s4"
      using run True q u by (auto simp: atomicWrite_def osMkdirAll_def osCreateTemp_def osCall_def fromSum_def)
    moreover have "files s4 = files s3 \<or> files s4 = (files s3)(?tmp := None)"
      using u by (auto simp: osRemove_def osCall_def split: option.splits)
    moreover note R = replaceBy_effect [OF q t(1)]
    moreover have "files s3 = (files s)(path \<mapsto> data)" if "q = Inr ()"
    proof
      fix p
      show "files s3 p = ((files s)(path \<mapsto> data)) p"
        using R t that by (cases "p = ?tmp"; cases "p = path") simp_all
    qed
    ultimately show ?thesis
      using t by (cases q) (auto simp: fun_upd_idem intro!: exI [of _ ?tmp])
  next
    case False
    then have "r \<noteq> Inr ()" "files s' = files s"
      using run by (auto simp: atomicWrite_def osMkdirAll_def osCreateTemp_def osCall_def bindE_def split: option.splits)
    with t show ?thesis by (cases r) auto
  qed
qed

text \<open>The calls change nothing but the files and the call counter.\<close>

definition diskFrame :: "('z dk \<Rightarrow> bool) \<Rightarrow> bool" where
  "diskFrame I \<longleftrightarrow> (\<forall>s f n. I (s\<lparr>files := f, ndisk := n\<rparr>) = I s)"

lemma diskFrame_upd:
  assumes "diskFrame I"
  shows "I (s\<lparr>files := f\<rparr>) = I s" and "I (s\<lparr>ndisk := n\<rparr>) = I s"
proof -
  have *: "I (s\<lparr>files := f, ndisk := n\<rparr>) = I s" for f n using assms by (simp add: diskFrame_def)
  have "s\<lparr>ndisk := n\<rparr> = s\<lparr>files := files s, ndisk := n\<rparr>" "s\<lparr>files := f\<rparr> = s\<lparr>files := f, ndisk := ndisk s\<rparr>" by simp_all
  then show "I (s\<lparr>files := f\<rparr>) = I s" and "I (s\<lparr>ndisk := n\<rparr>) = I s" using * by metis+
qed

lemma diskFrame_osCall: "diskFrame I \<Longrightarrow> preserves I (osCall f)"
  by (auto simp: preserves_def osCall_def diskFrame_upd split: option.splits)

lemma diskFrame_calls:
  assumes "diskFrame I"
  shows "preserves I (osReadFile p)" "preserves I osMkdirAll" "preserves I osCreateTemp" "preserves I (fileWrite p d)"
    "preserves I fileClose" "preserves I (osRename a b)" "preserves I (osRemove p)"
  using diskFrame_osCall [OF assms]
  unfolding osReadFile_def osMkdirAll_def osCreateTemp_def fileClose_def osRename_def osRemove_def
  by (auto simp: preserves_def fileWrite_def diskFrame_upd [OF assms] split: option.splits)

lemma diskFrame_atomicWrite: "diskFrame I \<Longrightarrow> preserves I (atomicWrite path data)"
  unfolding atomicWrite_def replaceBy_def
  by (intro preserves_bind preserves_try diskFrame_calls) (auto intro!: preserves_try preserves_bind diskFrame_calls split: sum.split)

text \<open>
  (C39) Replacing a file is atomic. Whichever call fails, and wherever: when the replacement reports success the
  file has the new content and nothing else changed; when it reports an error the file still has its old content, complete,
  and at most one temporary file that did not exist before is left behind.
\<close>

theorem atomic_write_atomic:
  assumes "atomicWrite path data s = (r, s')" and "tmpFresh path s"
  shows "case r of
      Inl e \<Rightarrow> files s' path = files s path \<and>
        (\<exists>tmp. files s tmp = None \<and> (\<forall>p. p \<noteq> tmp \<longrightarrow> files s' p = files s p))
    | Inr _ \<Rightarrow> files s' = (files s)(path \<mapsto> data)"
  using atomicWrite_effect [OF assms] by (cases r) auto

theorem atomic_write_atomic_witness:
  "\<exists>r s'. atomicWrite ''cfg'' ''new'' \<lparr>files = [''cfg'' \<mapsto> ''old''], dfault = (\<lambda>n. if n = 2 then Some ''disk full'' else None),
       ndisk = 0, tmpNames = (\<lambda>_. ''tmp''), partial = (\<lambda>_. 1)\<rparr> = (Inl r, s') \<and> files s' ''cfg'' = Some ''old''"
proof -
  let ?s = "\<lparr>files = [''cfg'' \<mapsto> ''old''], dfault = (\<lambda>n. if n = 2 then Some ''disk full'' else None),
    ndisk = 0, tmpNames = (\<lambda>_. ''tmp''), partial = (\<lambda>_. 1)\<rparr> :: disk"
  obtain r s' where "atomicWrite ''cfg'' ''new'' ?s = (Inl r, s')"
    by (simp add: atomicWrite_def replaceBy_def osMkdirAll_def osCreateTemp_def fileWrite_def fileClose_def
        osRemove_def osCall_def tryE_def bindE_def fromSum_def)
  moreover from atomic_write_atomic [OF this] have "files s' ''cfg'' = Some ''old''"
    by (simp add: tmpFresh_def)
  ultimately show ?thesis by blast
qed

end
