(* ===== verification/Lifecycle.thy ===== *)
theory Lifecycle
  imports Rpc Disk
begin

text \<open>
  The life of the daemon around its engine, \<^verbatim>\<open>src/internal/daemon/daemon.go\<close>,
  \<^verbatim>\<open>paths.go\<close>, \<^verbatim>\<open>lock_unix.go\<close>: taking and releasing the lock, the store and the socket, arming the
  persisted watches at start, feeding the watchers' observations to the engine; the token of the event stream
  and its check in \<^verbatim>\<open>src/internal/wsserver/wsserver.go\<close>; and the version text of
  \<^verbatim>\<open>src/internal/version/version.go\<close>.
\<close>

section \<open>Paths and version\<close>

definition SocketPath :: "string \<Rightarrow> string" where
  \<comment> \<open>\<open>dir\<close> is a clean path\<close>
  "SocketPath dir = dir @ ''/daemon.sock''"

definition DBPath :: "string \<Rightarrow> string" where
  "DBPath dir = dir @ ''/runtimepulse.db''"

definition LogPath :: "string \<Rightarrow> string" where
  "LogPath dir = dir @ ''/daemon.log''"

definition StateDir :: "string \<Rightarrow> error + string \<Rightarrow> error + string" where
  \<comment> \<open>the environment variable and the home directory\<close>
  "StateDir env home = (if env \<noteq> [] then Inr env else (case home of Inl e \<Rightarrow> Inl e | Inr h \<Rightarrow> Inr (h @ ''/.runtimepulse'')))"

fun vcsInfo :: "(string \<times> string) list \<Rightarrow> string \<Rightarrow> bool \<Rightarrow> string \<times> bool" where
  \<comment> \<open>the loop over the build settings: the last revision and modification flag win\<close>
  "vcsInfo [] rv dirty = (rv, dirty)"
| "vcsInfo ((k, v) # kvs) rv dirty =
     (if k = ''vcs.revision'' then vcsInfo kvs v dirty
      else if k = ''vcs.modified'' then vcsInfo kvs rv (v = ''true'')
      else vcsInfo kvs rv dirty)"

definition versionText :: "string \<Rightarrow> (string \<times> string) list option \<Rightarrow> string" where
  \<comment> \<open>\<open>String\<close>, with the linked version and the build settings, if there are any\<close>
  "versionText Version info =
     (if Version \<noteq> ''dev'' then Version
      else (case info of None \<Rightarrow> Version
        | Some settings \<Rightarrow> (case vcsInfo settings [] False of (rv, dirty) \<Rightarrow>
            if rv = [] then Version
            else let rv = (if length rv > 7 then take 7 rv else rv) in
              if dirty then ''dev ('' @ rv @ ''+dirty)'' else ''dev ('' @ rv @ '')'')))"

section \<open>Starting and stopping\<close>

record host =
  lockHeld :: bool
    \<comment> \<open>the lock of the state directory is taken\<close>
  storeOpen :: bool
  listening :: bool
  sockFile :: bool
  daemons :: nat
    \<comment> \<open>the daemons running on this directory\<close>

record boot_faults =
  \<comment> \<open>what may go wrong outside the program, step by step\<close>
  bf_mkdir :: "error option"
  bf_lockFile :: "error option"
  bf_open :: "error option"
  bf_remove :: bool
  bf_listen :: "error option"
  bf_chmod :: "error option"

definition acquireLock :: "boot_faults \<Rightarrow> (host, unit) io" where
  "acquireLock bf h = (case bf_lockFile bf of
     Some e \<Rightarrow> (Inl e, h)
   | None \<Rightarrow>
       if lockHeld h then (Inl (GoError ''daemon already starting or running (lock held)''), h)
       else (Inr (), h\<lparr>lockHeld := True\<rparr>))"

definition removeStaleSocket :: "boot_faults \<Rightarrow> host \<Rightarrow> host" where
  \<comment> \<open>a socket file that answers is left alone; the removal may fail\<close>
  "removeStaleSocket bf h =
     (if \<not> sockFile h then h
      else if listening h then h
      else if bf_remove bf then h
      else h\<lparr>sockFile := False\<rparr>)"

definition listenSocket :: "boot_faults \<Rightarrow> (host, unit) io" where
  "listenSocket bf h = (case bf_listen bf of
     Some e \<Rightarrow> (Inl e, h)
   | None \<Rightarrow>
       if sockFile h then (Inl (GoError ''bind: address already in use''), h)
       else (Inr (), h\<lparr>listening := True, sockFile := True\<rparr>))"

definition closeListener :: "host \<Rightarrow> host" where
  \<comment> \<open>closing a unix listener unlinks its socket\<close>
  "closeListener h = h\<lparr>listening := False, sockFile := False\<rparr>"

definition NewDaemon :: "boot_faults \<Rightarrow> (host, unit) io" where
  "NewDaemon bf h = (case bf_mkdir bf of
     Some e \<Rightarrow> (Inl e, h)
   | None \<Rightarrow> (case acquireLock bf h of
       (Inl e, h1) \<Rightarrow> (Inl e, h1)
     | (Inr _, h1) \<Rightarrow> (case bf_open bf of
         Some e \<Rightarrow> (Inl e, h1\<lparr>lockHeld := False\<rparr>)
       | None \<Rightarrow>
           let h2 = removeStaleSocket bf (h1\<lparr>storeOpen := True\<rparr>) in
           (case listenSocket bf h2 of
              (Inl e, h3) \<Rightarrow> (Inl e, h3\<lparr>storeOpen := False, lockHeld := False\<rparr>)
            | (Inr _, h3) \<Rightarrow> (case bf_chmod bf of
                Some e \<Rightarrow> (Inl e, (closeListener h3)\<lparr>storeOpen := False, lockHeld := False\<rparr>)
              | None \<Rightarrow> (Inr (), h3\<lparr>daemons := Suc (daemons h3)\<rparr>))))))"

definition CloseDaemon :: "host \<Rightarrow> host" where
  "CloseDaemon h = (closeListener h)\<lparr>storeOpen := False, sockFile := False, lockHeld := False, daemons := daemons h - 1\<rparr>"

definition crash :: "host \<Rightarrow> host" where
  \<comment> \<open>process death: the system drops the lock, the connections and the listener; the socket file stays\<close>
  "crash h = h\<lparr>lockHeld := False, storeOpen := False, listening := False, daemons := daemons h - 1\<rparr>"

section \<open>Serving\<close>

definition serveStart :: "('z dm, unit) io" where
  \<comment> \<open>\<open>Serve\<close> up to the accept loop: read the persisted watches and arm them\<close>
  "serveStart = bindE ListWatches (\<lambda>persisted. modify (\<lambda>w. w\<lparr>mgr := RunManager persisted (mgr w)\<rparr>))"

datatype 'c accepted =
    Accepted 'c
  | AcceptFailed error bool   \<comment> \<open>and whether the context is done by then\<close>

fun acceptLoop :: "'c accepted list \<Rightarrow> 'c list \<times> error option option" where
  \<comment> \<open>the connections handed to handlers, and what \<open>Serve\<close> returns if it has returned\<close>
  "acceptLoop [] = ([], None)"
| "acceptLoop (Accepted c # rest) = (case acceptLoop rest of (cs, r) \<Rightarrow> (c # cs, r))"
| "acceptLoop (AcceptFailed e ctxDone # _) = ([], Some (if ctxDone then None else Some e))"

lemma acceptLoop_serves_all:
  "acceptLoop (map Accepted cs @ AcceptFailed e ctxDone # rest) = (cs, Some (if ctxDone then None else Some e))"
  "acceptLoop (map Accepted cs) = (cs, None)"
  by (induction cs) auto

definition watchEmit :: "'t template_engine \<Rightarrow> emission \<Rightarrow> ('z dm, unit) io" where
  \<comment> \<open>the emitter given to the manager: an observation enters the engine; an error is only logged\<close>
  "watchEmit te e = (case e of (evType, source, payload) \<Rightarrow>
     tryE (EngineIngest te \<lparr>ev_ID = [], ev_Type = evType, ev_Source = source, ev_Payload = payload, ev_Timestamp = 0\<rparr>)
       (\<lambda>_. returnE ()))"

section \<open>The token of the event stream\<close>

definition loadOrCreateToken :: "error + byte list \<Rightarrow> string \<Rightarrow> ('z dk, string) io" where
  \<comment> \<open>with the 16 bytes \<open>rand.Read\<close> returns, if they are needed\<close>
  "loadOrCreateToken raw path =
     tryE (osReadFile path) (\<lambda>r.
       let tok = (case r of Inr (Some data) \<Rightarrow> TrimSpace data | _ \<Rightarrow> []) in
       if tok \<noteq> [] then returnE tok
       else bindE (fromSum raw) (\<lambda>b.
         let tok = hexEncode b in
         bindE (fileWrite path (tok @ [CHR 0x0A])) (\<lambda>_. returnE tok)))"

definition wsAuthorized :: "string \<Rightarrow> string \<Rightarrow> string \<Rightarrow> bool" where
  \<comment> \<open>the query parameter, or else the header; \<open>ConstantTimeCompare\<close> is equality\<close>
  "wsAuthorized token query header =
     (let got = (if query = [] then TrimPrefix header ''Bearer '' else query) in got = token)"

definition wsConnect :: "string \<Rightarrow> string \<Rightarrow> string \<Rightarrow> error option \<Rightarrow> Bus \<Rightarrow> nat option \<times> Bus" where
  \<comment> \<open>the handler up to its loop: the subscription of an accepted client; the result of the upgrade is a parameter\<close>
  "wsConnect token query header upgrade b =
     (if \<not> wsAuthorized token query header then (None, b)
      else if upgrade \<noteq> None then (None, b)
      else (case Subscribe 64 b of (i, b1) \<Rightarrow> (Some i, b1)))"

definition wsServe :: "string \<Rightarrow> string \<Rightarrow> string \<Rightarrow> error option \<Rightarrow> stream_turn list \<Rightarrow> Bus \<Rightarrow> (Event list \<times> Bus) option" where
  \<comment> \<open>the handler of \<open>/events\<close>: the events written to the client\<close>
  "wsServe token query header upgrade ts b = (case wsConnect token query header upgrade b of
     (None, b1) \<Rightarrow> Some ([], b1)
   | (Some i, b1) \<Rightarrow> streamLoop ts i b1)"

definition wsListen :: "(string \<Rightarrow> error + string) \<Rightarrow> int \<Rightarrow> error + string" where
  \<comment> \<open>\<open>net.Listen\<close> is a parameter; it returns the address it is bound to\<close>
  "wsListen listen port = listen (''127.0.0.1:'' @ Itoa port)"

definition ServeWS :: "error + byte list \<Rightarrow> (string \<Rightarrow> error + string) \<Rightarrow> string \<Rightarrow> int \<Rightarrow> ('z dk, string \<times> string) io" where
  \<comment> \<open>the address and the token the server checks\<close>
  "ServeWS raw listen dir port =
     bindE (loadOrCreateToken raw (dir @ ''/ws-token'')) (\<lambda>token.
     bindE (fromSum (wsListen listen port)) (\<lambda>addr. returnE (addr, token)))"

section \<open>One daemon per directory\<close>

inductive host_step :: "host \<Rightarrow> host \<Rightarrow> bool" where
  host_New: "NewDaemon bf h = (r, h') \<Longrightarrow> host_step h h'"
| host_Close: "daemons h > 0 \<Longrightarrow> host_step h (CloseDaemon h)"
| host_crash: "daemons h > 0 \<Longrightarrow> host_step h (crash h)"

definition host_init :: "host \<Rightarrow> bool" where
  \<comment> \<open>no daemon runs; a socket file may have been left behind\<close>
  "host_init h \<longleftrightarrow> \<not> lockHeld h \<and> \<not> storeOpen h \<and> \<not> listening h \<and> daemons h = 0"

definition host_ok :: "host \<Rightarrow> bool" where
  "host_ok h \<longleftrightarrow> daemons h \<le> 1 \<and> lockHeld h = (daemons h = 1) \<and> storeOpen h = (daemons h = 1) \<and>
     listening h = (daemons h = 1) \<and> (listening h \<longrightarrow> sockFile h)"

lemmas boot_defs = NewDaemon_def acquireLock_def removeStaleSocket_def listenSocket_def closeListener_def Let_def

lemma NewDaemon_ok:
  assumes "host_ok h" and "NewDaemon bf h = (r, h')"
  shows "host_ok h' \<and> (case r of
      Inl e \<Rightarrow> daemons h' = daemons h \<and> (daemons h = 1 \<longrightarrow> h' = h)
    | Inr _ \<Rightarrow> daemons h = 0 \<and> daemons h' = 1)"
  using assms by (auto simp: boot_defs host_ok_def split: option.splits if_splits)

interpretation hosts: invariant_system host_init host_step host_ok
proof
  fix s t
  show "host_init s \<Longrightarrow> host_ok s" by (simp add: host_init_def host_ok_def)
  assume ok: "host_ok s" and "host_step s t"
  from \<open>host_step s t\<close> show "host_ok t"
  proof cases
    case (host_New bf r)
    with NewDaemon_ok [OF ok] show ?thesis by blast
  qed (use ok in \<open>auto simp: host_ok_def CloseDaemon_def closeListener_def crash_def\<close>)
qed

text \<open>
  (C21) At most one daemon runs on a state directory. However starts (with any of their steps failing), regular ends
  and crashes follow each other: there is at most one daemon, and while it runs it holds the lock and the store and its socket exists and
  is its own; a start that fails releases what it had taken and leaves a running daemon untouched; and when none runs, a start
  whose steps do not fail succeeds, even over the socket of a crashed daemon.
\<close>

theorem one_daemon_per_directory:
  assumes "reach host_init host_step h"
  shows "daemons h \<le> 1 \<and> (daemons h = 1 \<longrightarrow> lockHeld h \<and> storeOpen h \<and> listening h \<and> sockFile h) \<and>
    (daemons h = 0 \<longrightarrow> \<not> lockHeld h \<and> \<not> storeOpen h \<and> \<not> listening h) \<and>
    (\<forall>bf. daemons h = 1 \<longrightarrow> (\<exists>e. NewDaemon bf h = (Inl e, h))) \<and>
    (daemons h = 0 \<longrightarrow> (\<exists>h'. NewDaemon \<lparr>bf_mkdir = None, bf_lockFile = None, bf_open = None, bf_remove = False,
       bf_listen = None, bf_chmod = None\<rparr> h = (Inr (), h') \<and> daemons h' = 1))"
proof -
  have ok: "host_ok h" using assms by (rule hosts.reach_inv)
  have "\<exists>e. NewDaemon bf h = (Inl e, h)" if "daemons h = 1" for bf
  proof -
    obtain r h' where n: "NewDaemon bf h = (r, h')" by (cases "NewDaemon bf h")
    with NewDaemon_ok [OF ok n] that show ?thesis by (cases r) auto
  qed
  moreover have "\<exists>h'. NewDaemon \<lparr>bf_mkdir = None, bf_lockFile = None, bf_open = None, bf_remove = False,
      bf_listen = None, bf_chmod = None\<rparr> h = (Inr (), h') \<and> daemons h' = 1" if "daemons h = 0"
    using ok that by (auto simp: boot_defs host_ok_def)
  ultimately show ?thesis using ok by (auto simp: host_ok_def)
qed

section \<open>Watches survive a restart\<close>

lemma StartWatch_keeps: "running m i \<noteq> None \<Longrightarrow> running (snd (StartWatch w m)) i \<noteq> None"
  by (auto simp: StartWatch_def split: option.splits)

lemma StartWatch_starts:
  "m_ctx m \<Longrightarrow> ValidateType (w_Type w) = None \<Longrightarrow> running (snd (StartWatch w m)) (w_ID w) \<noteq> None"
  by (auto simp: StartWatch_def split: option.splits)

lemma StartWatch_ctx [simp]: "m_ctx (snd (StartWatch w m)) = m_ctx m"
  by (auto simp: StartWatch_def split: option.splits)

lemma startAll:
  assumes "m_ctx m"
  shows "\<forall>w\<in>set ws. ValidateType (w_Type w) = None \<longrightarrow> running (foldl (\<lambda>m w. snd (StartWatch w m)) m ws) (w_ID w) \<noteq> None"
    and "\<forall>i. running m i \<noteq> None \<longrightarrow> running (foldl (\<lambda>m w. snd (StartWatch w m)) m ws) i \<noteq> None"
  using assms
proof (induction ws arbitrary: m)
  case (Cons w ws)
  {
    case 1
    with Cons.IH [of "snd (StartWatch w m)"] StartWatch_starts [of m w] show ?case by simp
  next
    case 2
    with Cons.IH(2) [of "snd (StartWatch w m)"] StartWatch_keeps [of m] show ?case by simp
  }
qed simp_all

text \<open>
  Watches survive a restart. When a new process serves a store with a working database, every stored watch of
  a valid type is running afterwards, however many invalid ones are stored beside it, and the tables are unchanged.
\<close>

theorem restart_rearms_watches:
  fixes w :: "'z dm"
  assumes "healthy w" and "serveStart (w\<lparr>mgr := NewManager\<rparr>) = (r, w')"
  shows "r = Inr () \<and> db w' = db w \<and>
    (\<forall>x\<in>set (watches (db w)). ValidateType (w_Type x) = None \<longrightarrow> running (mgr w') (w_ID x) \<noteq> None)"
proof -
  have h: "healthy (w\<lparr>mgr := NewManager\<rparr>)" using assms(1) by (simp add: healthy_def)
  from assms(2) have "r = Inr ()" "db w' = db w" "mgr w' = RunManager (sort_key (\<lambda>w. (w_CreatedAt w, w_ID w)) (watches (db w))) NewManager"
    by (auto simp: serveStart_def ListWatches_def modify_def bindE_def healthy_run [OF h])
  then show ?thesis
    using startAll(1) [of "NewManager\<lparr>m_ctx := True\<rparr>" "sort_key (\<lambda>w. (w_CreatedAt w, w_ID w)) (watches (db w))"]
    by (simp add: RunManager_def)
qed

section \<open>The token\<close>

lemma hexDigit_plain: "plainChar (hexDigit b)"
proof -
  have "list_all plainChar ''0123456789abcdef''" by code_simp
  moreover have "unat b mod 16 < length ''0123456789abcdef''" by simp
  ultimately show ?thesis unfolding hexDigit_def list_all_length by blast
qed

lemma hexEncode_plain: "bs \<noteq> [] \<Longrightarrow> plainChar (hd (hexEncode bs)) \<and> plainChar (last (hexEncode bs)) \<and> hexEncode bs \<noteq> []"
proof (induction bs)
  case (Cons b bs)
  then show ?case by (cases bs) (auto simp: hexDigit_plain)
qed simp

text \<open>
  The token of the event stream is stable. A token that was returned is not empty, and the next start, if it
  can read the file, returns the same token and writes nothing; a created token is the 32 hexadecimal digits of 16 random bytes.
\<close>

theorem token_stable:
  assumes run: "loadOrCreateToken raw path s = (Inr tok, s1)" and readable: "dfault s1 (ndisk s1) = None"
    and raw: "\<forall>b. raw = Inr b \<longrightarrow> length b = 16"
  shows "tok \<noteq> [] \<and> (files s1 = files s \<or> length tok = 32 \<and> files s1 = (files s)(path \<mapsto> tok @ [CHR 0x0A])) \<and>
    (\<exists>s2. loadOrCreateToken raw' path s1 = (Inr tok, s2) \<and> files s2 = files s1)"
proof -
  let ?s = "s\<lparr>ndisk := Suc (ndisk s)\<rparr>"
  have again: "\<exists>s2. loadOrCreateToken raw' path s1 = (Inr tok, s2) \<and> files s2 = files s1"
    if "files s1 path = Some d" "TrimSpace d = tok" "tok \<noteq> []" for d
    using that readable by (simp add: loadOrCreateToken_def osReadFile_def osCall_def)
  consider (old) d where "files s path = Some d" "TrimSpace d = tok" "tok \<noteq> []" "s1 = ?s"
    | (new) b where "raw = Inr b" "tok = hexEncode b" "files s1 = (files s)(path \<mapsto> tok @ [CHR 0x0A])"
    using run by (cases rule: osReadFile_run [of path s]; cases "files s path"; cases raw)
      (auto simp: loadOrCreateToken_def Let_def fromSum_def bindE_def fileWrite_def split: option.splits if_splits)
  then show ?thesis
  proof cases
    case old
    with again show ?thesis by simp
  next
    case new
    with raw have b: "b \<noteq> []" "length tok = 32" by auto
    with hexEncode_plain [of b] TrimSpace_plain(2) [of tok] new have "TrimSpace (tok @ [CHR 0x0A]) = tok" "tok \<noteq> []" by auto
    with again new b show ?thesis by simp
  qed
qed

text \<open>
  Without the token there is no stream. For a non-empty token, a client is subscribed to the bus only when it
  presented exactly the token, as the query parameter or in the authorization header; otherwise the bus is unchanged.
\<close>

theorem stream_needs_token:
  assumes "token \<noteq> []"
  shows "case wsConnect token query header upgrade b of (sub, b') \<Rightarrow>
    (sub \<noteq> None \<longrightarrow> query = token \<or> query = [] \<and> header \<in> {token, ''Bearer '' @ token}) \<and> (sub = None \<longrightarrow> b' = b)"
proof -
  have "header = ''Bearer '' @ TrimPrefix header ''Bearer ''" if "HasPrefix header ''Bearer ''"
    using that by (auto simp: TrimPrefix_def HasPrefix_iff)
  then show ?thesis
    using assms by (auto simp: wsConnect_def wsAuthorized_def Let_def TrimPrefix_def split: prod.splits if_splits)
qed

text \<open>
  (C27) The event streams. However publications, writes and failures alternate, neither the handler of the web socket
  nor the one of \<open>events.follow\<close> panics; what it writes is a subsequence, in order, of what was published after the client subscribed
  (a slow client misses events, it never sees one twice or an older one), behind the reply of \<open>events.follow\<close>; and when the client has gone
  nothing of its subscription is left. A web client that is not accepted gets nothing and changes nothing.
\<close>

theorem streams_send_subsequence:
  assumes "wf_bus b"
  shows "(\<exists>es b1. wsServe token query hdr upgrade ts b = Some (es, b1) \<and> wf_bus b1 \<and>
      (if wsAuthorized token query hdr \<and> upgrade = None then subseq es (published ts) \<and> (ClientGone \<in> set ts \<longrightarrow> subs b1 = subs b)
       else es = [] \<and> b1 = b)) \<and>
    (\<exists>fs es b1. follow replied ts rq b = Some (fs, b1) \<and> wf_bus b1 \<and> subseq es (published ts) \<and>
      fs = (if replied then Reply \<lparr>rs_ID = rq_ID rq, rs_Result = Some ROk, rs_Error = []\<rparr> # map (Notification ''event'') es else []) \<and>
      (\<not> replied \<or> ClientGone \<in> set ts \<longrightarrow> subs b1 = subs b))"
proof
  obtain i b0 where s: "Subscribe 64 b = (i, b0)" by (cases "Subscribe 64 b")
  note n = Subscribe_new [OF assms s]
  obtain es b1 where r: "streamLoop ts i b0 = Some (es, b1)" "wf_bus b1" "subseq es (published ts)"
    "ClientGone \<in> set ts \<longrightarrow> subs b1 = subs b" using streamLoop_run [OF n(1), of ts i] n(2,5) by auto
  from r s assms show "\<exists>es b1. wsServe token query hdr upgrade ts b = Some (es, b1) \<and> wf_bus b1 \<and>
      (if wsAuthorized token query hdr \<and> upgrade = None then subseq es (published ts) \<and> (ClientGone \<in> set ts \<longrightarrow> subs b1 = subs b)
       else es = [] \<and> b1 = b)"
    by (auto simp: wsServe_def wsConnect_def)
  show "\<exists>fs es b1. follow replied ts rq b = Some (fs, b1) \<and> wf_bus b1 \<and> subseq es (published ts) \<and>
      fs = (if replied then Reply \<lparr>rs_ID = rq_ID rq, rs_Result = Some ROk, rs_Error = []\<rparr> # map (Notification ''event'') es else []) \<and>
      (\<not> replied \<or> ClientGone \<in> set ts \<longrightarrow> subs b1 = subs b)"
  proof (cases replied)
    case True
    with r s show ?thesis by (auto simp: follow_def followBuffer_def)
  next
    case False
    from leaveStream_ok [OF n(1), of i] n(5) s False show ?thesis
      by (auto simp: follow_def followBuffer_def intro!: exI [of _ "[]"])
  qed
qed

section \<open>Concrete runs\<close>

definition exHost :: host where
  \<comment> \<open>after a crash: only the socket file is left\<close>
  "exHost = \<lparr>lockHeld = False, storeOpen = False, listening = False, sockFile = True, daemons = 0\<rparr>"

theorem one_daemon_per_directory_witness:
  "\<exists>h'. NewDaemon \<lparr>bf_mkdir = None, bf_lockFile = None, bf_open = None, bf_remove = False, bf_listen = None, bf_chmod = None\<rparr> exHost = (Inr (), h') \<and>
     daemons h' = 1"
proof -
  have "reach host_init host_step exHost" by (rule reach_init) (simp add: host_init_def exHost_def)
  from one_daemon_per_directory [OF this] show ?thesis by (simp add: exHost_def)
qed

theorem restart_rearms_watches_witness:
  "\<exists>w'. serveStart (exDaemon\<lparr>db := exDB\<lparr>watches := [exWatch]\<rparr>, mgr := NewManager\<rparr>) = (Inr (), w') \<and> running (mgr w') ''watch-1'' \<noteq> None"
proof -
  let ?w = "exDaemon\<lparr>db := exDB\<lparr>watches := [exWatch]\<rparr>\<rparr>"
  have h: "healthy ?w" using exDaemon_facts(4) by simp
  obtain r w' where r: "serveStart (?w\<lparr>mgr := NewManager\<rparr>) = (r, w')" by (cases "serveStart (?w\<lparr>mgr := NewManager\<rparr>)")
  from restart_rearms_watches [OF h r] r show ?thesis
    by (auto simp: exWatch_def ValidateType_def validTypes_def)
qed

theorem token_stable_witness:
  "\<exists>tok s1 s2. loadOrCreateToken (Inr (replicate 16 171)) ''ws-token''
       \<lparr>files = Map.empty, dfault = (\<lambda>_. None), ndisk = 0, tmpNames = (\<lambda>_. ''t''), partial = (\<lambda>_. 0)\<rparr> = (Inr tok, s1) \<and>
     loadOrCreateToken (Inr (replicate 16 0)) ''ws-token'' s1 = (Inr tok, s2)"
proof -
  let ?s = "\<lparr>files = Map.empty, dfault = (\<lambda>_. None), ndisk = 0, tmpNames = (\<lambda>_. ''t''), partial = (\<lambda>_. 0)\<rparr> :: disk"
  obtain tok s1 where r: "loadOrCreateToken (Inr (replicate 16 171)) ''ws-token'' ?s = (Inr tok, s1)" "dfault s1 = (\<lambda>_. None)"
    by (simp add: loadOrCreateToken_def osReadFile_def osCall_def fromSum_def bindE_def fileWrite_def Let_def)
  from token_stable [OF r(1)] r show ?thesis by auto
qed

theorem stream_needs_token_witness:
  "fst (wsConnect ''secret'' [] ''Bearer guess'' None NewBus) = None"
proof -
  obtain sub b' where "wsConnect ''secret'' [] ''Bearer guess'' None NewBus = (sub, b')"
    by (cases "wsConnect ''secret'' [] ''Bearer guess'' None NewBus")
  with stream_needs_token [where token = "''secret''" and query = "[]" and header = "''Bearer guess''"
      and upgrade = None and b = NewBus] show ?thesis by auto
qed

theorem streams_send_subsequence_witness:
  "\<exists>es b1. wsServe ''t'' ''t'' [] None [BusPublishes exEvent, StreamTurn True, ClientGone] NewBus = Some (es, b1) \<and>
     subseq es [exEvent] \<and> subs b1 = {}"
  using streams_send_subsequence [OF wf_NewBus, of "''t''" "''t''" "[]" None "[BusPublishes exEvent, StreamTurn True, ClientGone]",
      THEN conjunct1]
  by (auto simp: wsAuthorized_def NewBus_def)

end
