(* ===== verification/Sys.thy ===== *)
theory Sys
  imports Wakeups Lifecycle
begin

text \<open>
  The whole daemon: the dispatcher with its workers and its loop (theory \<open>Wakeups\<close>), the request
  handlers of all connections (theory \<open>Rpc\<close>), the watchers and their manager, and the start of a new
  process (theory \<open>Lifecycle\<close>), interleaved at the granularity of single store calls and single critical
  sections. A request is not atomic here: another goroutine may act between any two of its calls.
\<close>

section \<open>Steps of the daemon\<close>

type_synonym 'z dsys = "'z daemon_ext wsys"

abbreviation dworld :: "'z dsys \<Rightarrow> 'z dm" where
  "dworld s \<equiv> world (base s)"

definition freshProcess :: "'z dm \<Rightarrow> 'z dm" where
  \<comment> \<open>what a new process starts with on the same database\<close>
  "freshProcess w = w\<lparr>bus := NewBus, wake := False, workers := {}, mgr := NewManager\<rparr>"

inductive dstep :: "'t template_engine \<Rightarrow> adapters \<Rightarrow> 'z dsys \<Rightarrow> 'z dsys \<Rightarrow> bool"
  for te :: "'t template_engine" and ads :: adapters where
  d_core: "wstep te ads s t \<Longrightarrow> mgr (dworld t) = mgr (dworld s) \<Longrightarrow> dstep te ads s t"
| d_mgr: "mgr_step (mgr (dworld s)) m \<Longrightarrow> dstep te ads s (setWorld ((dworld s)\<lparr>mgr := m\<rparr>) s)"
| d_boot: "serveStart (freshProcess (dworld s)) = (Inr (), w) \<Longrightarrow>
    dstep te ads s (s\<lparr>base := (base s)\<lparr>world := snd (bootRecovery w), gs := []\<rparr>, scanner := Scanning, waking := 0\<rparr>)"

definition dinit :: "'z dsys \<Rightarrow> bool" where
  "dinit s \<longleftrightarrow> winit s \<and> mgr (dworld s) = NewManager"

lemma setWorld_simps [simp]:
  "setWorld (world (base s)) s = s" "setWorld w (setWorld w' s) = setWorld w s" "world (base (setWorld w s)) = w"
  "waking (setWorld w s) = waking s" "scanner (setWorld w s) = scanner s"
  by (simp_all add: setWorld_def)

section \<open>The invariant of the daemon\<close>

definition dinv :: "'z dsys \<Rightarrow> bool" where
  "dinv s \<longleftrightarrow> winv s \<and> wf_mgr (mgr (dworld s))"

lemma serveStart_Inr:
  assumes "serveStart w = (Inr (), w')"
  shows "\<exists>M. w' = w\<lparr>nfault := Suc (nfault w), mgr := M\<rparr> \<and> (wf_mgr (mgr w) \<longrightarrow> wf_mgr M)"
proof -
  from assms obtain ws w1 where q: "ListWatches w = (Inr ws, w1)" and w': "w' = w1\<lparr>mgr := RunManager ws (mgr w1)\<rparr>"
    by (auto simp: serveStart_def bindE_Inr_iff modify_def)
  have "w1 = w\<lparr>nfault := Suc (nfault w)\<rparr>" using Query_Inr [OF q [unfolded ListWatches_def]] by simp
  with w' show ?thesis by (intro exI [of _ "RunManager ws (mgr w)"]) (auto intro: wf_RunManager)
qed

lemma boot_inv:
  fixes s :: "'z dsys"
  assumes "sys_inv (base s)" and "serveStart (freshProcess (dworld s)) = (Inr (), w)"
  shows "sys_inv ((base s)\<lparr>world := snd (bootRecovery w), gs := []\<rparr>) \<and> wf_mgr (mgr (snd (bootRecovery w)))"
proof -
  obtain M where w: "w = (freshProcess (dworld s))\<lparr>nfault := Suc (nfault (freshProcess (dworld s))), mgr := M\<rparr>" and M: "wf_mgr M"
    using serveStart_Inr [OF assms(2)] wf_NewManager by (auto simp: freshProcess_def)
  have "preserves (\<lambda>w :: 'z dm. bus w = NewBus \<and> workers w = {} \<and> mgr w = M) bootRecovery"
    unfolding bootRecovery_def ResetRunningContinuations_def UpdateN_def by (intro preserves_rules) auto
  then have "bus (snd (bootRecovery w)) = NewBus \<and> workers (snd (bootRecovery w)) = {} \<and> mgr (snd (bootRecovery w)) = M"
    by (rule preservesD [OF _ _ prod.collapse [symmetric]]) (simp add: w freshProcess_def)
  moreover have "preserves wf_st bootRecovery"
    unfolding bootRecovery_def by (intro preserves_rules wf_ResetRunningContinuations)
  then have "wf_st (snd (bootRecovery w))"
    by (rule preservesD [OF _ _ prod.collapse [symmetric]]) (use assms(1) in \<open>simp add: sys_inv_def w freshProcess_def\<close>)
  ultimately show ?thesis using M wf_NewBus by (simp add: sys_inv_def)
qed

lemma dinv_step:
  assumes "dstep te ads s t" and "dinv s"
  shows "dinv t"
  using assms
proof (induction rule: dstep.induct)
  case (d_core s t)
  with winv_step show ?case by (auto simp: dinv_def)
next
  case (d_mgr s m)
  then have "sys_inv (base s)" "attended s" "wf_mgr m"
    using mgrq.inv_step by (auto simp: dinv_def winv_def)
  then show ?case
    by (auto simp: dinv_def winv_def setWorld_def attended_def pendingSids_def intro: sys_inv_upd)
next
  case (d_boot s w)
  with boot_inv [of s w] show ?case by (auto simp: dinv_def winv_def attended_def)
qed

interpretation dsysq: invariant_system dinit "dstep te ads" dinv for te ads
proof unfold_locales
  show "dinv s" if "dinit s" for s :: "'z dsys"
    using that wsysq.inv_init [of s] wf_NewManager by (simp add: dinit_def dinv_def)
  show "dinv t" if "dinv s" "dstep te ads s t" for s t
    using that dinv_step by blast
qed

section \<open>Requests are sequences of steps\<close>

definition served :: "'t template_engine \<Rightarrow> adapters \<Rightarrow> ('z dm, 'a) io \<Rightarrow> bool" where
  \<comment> \<open>in a state the daemon can be in\<close>
  "served te ads m \<longleftrightarrow> (\<forall>s. dinv s \<longrightarrow> (dstep te ads)\<^sup>*\<^sup>* s (setWorld (snd (m (dworld s))) s))"

lemma servedD: "served te ads m \<Longrightarrow> dinv s \<Longrightarrow> m (dworld s) = (r, w) \<Longrightarrow> (dstep te ads)\<^sup>*\<^sup>* s (setWorld w s)"
  by (metis served_def snd_conv)

lemma dinv_steps: "(dstep te ads)\<^sup>*\<^sup>* s t \<Longrightarrow> dinv s \<Longrightarrow> dinv t"
  by (induction rule: rtranclp_induct) (auto intro: dinv_step)

lemma served_pure [intro!]: "served te ads (returnE x)" "served te ads (throwE e)" "served te ads (fromSum r)"
  by (auto simp: served_def returnE_def throwE_def fromSum_def split: sum.split)

lemma served_bind [intro!]:
  fixes m :: "('z dm, 'a) io"
  assumes "served te ads m" and "\<And>x. served te ads (f x)"
  shows "served te ads (bindE m f)"
  unfolding served_def
proof (intro allI impI)
  fix s :: "'z dsys"
  assume inv: "dinv s"
  obtain r w where m: "m (dworld s) = (r, w)" by (cases "m (dworld s)")
  from servedD [OF assms(1) inv m] have s1: "(dstep te ads)\<^sup>*\<^sup>* s (setWorld w s)" .
  show "(dstep te ads)\<^sup>*\<^sup>* s (setWorld (snd (bindE m f (dworld s))) s)"
  proof (cases r)
    case (Inl e)
    with m s1 show ?thesis by (simp add: bindE_def)
  next
    case (Inr x)
    obtain r' w' where f: "f x w = (r', w')" by (cases "f x w")
    then have "f x (dworld (setWorld w s)) = (r', w')" by simp
    from servedD [OF assms(2) dinv_steps [OF s1 inv] this] s1 have "(dstep te ads)\<^sup>*\<^sup>* s (setWorld w' s)" by simp
    with m Inr f show ?thesis by (simp add: bindE_def)
  qed
qed

lemma served_if [intro!]: "served te ads m \<Longrightarrow> served te ads n \<Longrightarrow> served te ads (if b then m else n)"
  by simp

lemma served_step:
  fixes m :: "('z dm, 'a) io"
  assumes "\<And>s. wstep te ads s (setWorld (snd (m (dworld s))) s)" and "\<And>M. preserves (\<lambda>w. mgr w = M) m"
  shows "served te ads m"
  unfolding served_def
proof (intro allI impI)
  fix s :: "'z dsys"
  have "mgr (snd (m (dworld s))) = mgr (dworld s)"
    using preservesD [OF assms(2) refl prod.collapse [symmetric]] .
  then show "(dstep te ads)\<^sup>*\<^sup>* s (setWorld (snd (m (dworld s))) s)"
    by (intro r_into_rtranclp d_core assms(1)) simp
qed

lemma mgr_store: "store_only m \<Longrightarrow> preserves (\<lambda>w :: 'z dm. mgr w = M) m"
  unfolding store_only_def by simp

lemma frame_Query:
  fixes s :: "'z dsys"
  shows "wstep te ads s (setWorld (snd (Query q (dworld s))) s)"
proof -
  obtain r w where q: "Query q (dworld s) = (r, w)" by (cases "Query q (dworld s)")
  then have "w = (dworld s)\<lparr>nfault := Suc (nfault (dworld s))\<rparr>" by (cases r) (auto dest: Query_Inl Query_Inr)
  with q show ?thesis by (auto intro!: ws_frame)
qed

lemma served_Query [intro!]: "served te ads (Query q)"
  by (rule served_step [OF frame_Query]) (auto simp: Query_def intro!: preserves_Exec)

lemma served_Now [intro!]: "served te ads Now"
  by (rule served_step [OF _ preserves_Now]) (auto simp: Now_def intro!: ws_frame)

lemma served_NewID [intro!]: "served te ads (NewID p)"
  by (rule served_step [OF _ preserves_NewID]) (auto simp: NewID_run intro!: ws_frame)

lemma served_reads [intro!]:
  "served te ads (ListEvents ty n)" "served te ads (ListRules b)" "served te ads ListSessions"
  "served te ads (ListContinuations st)" "served te ads ListWatches" "served te ads (GetSession i)"
  unfolding ListEvents_def ListRules_def ListSessions_def ListContinuations_def ListWatches_def GetSession_def
  by auto

lemma served_writes [intro!]:
  "served te ads (AddRule r)" "served te ads (RemoveRule i)" "served te ads (RegisterSession x)"
  "served te ads (AddWatch y)" "served te ads (RemoveWatch i)"
  by (rule served_step; auto intro!: ws_ext quiet_ext.intros mgr_store)+

lemma served_mgr:
  fixes m :: "('z dm, 'a) io"
  assumes "\<And>w. \<exists>M. snd (m w) = w\<lparr>mgr := M\<rparr> \<and> (mgr_step (mgr w) M \<or> M = mgr w)"
  shows "served te ads m"
  unfolding served_def
proof (intro allI impI)
  fix s :: "'z dsys"
  assume inv: "dinv s"
  obtain M where M: "snd (m (dworld s)) = (dworld s)\<lparr>mgr := M\<rparr>" "mgr_step (mgr (dworld s)) M \<or> M = mgr (dworld s)"
    using assms by blast
  then show "(dstep te ads)\<^sup>*\<^sup>* s (setWorld (snd (m (dworld s))) s)"
    by (auto intro: r_into_rtranclp d_mgr)
qed

lemma served_startWatch [intro!]: "served te ads (startWatch x)"
proof (rule served_mgr)
  fix w :: "'b dm"
  show "\<exists>M. snd (startWatch x w) = w\<lparr>mgr := M\<rparr> \<and> (mgr_step (mgr w) M \<or> M = mgr w)"
    using mgr_Start [of "mgr w" x] by (auto simp: startWatch_def split: prod.splits option.splits)
qed

lemma served_stopWatch [intro!]: "served te ads (modify (\<lambda>w. w\<lparr>mgr := StopWatch i (mgr w)\<rparr>))"
  by (rule served_mgr) (auto simp: modify_def intro: mgr_Stop)

lemma served_manual:
  fixes k :: "Continuation \<Rightarrow> ('z dm, 'a) io"
  assumes "\<And>c. served te ads (k c)"
  shows "served te ads (bindE (InsertManualContinuation i p) (\<lambda>c. bindE Wake (\<lambda>_. k c)))"
  unfolding served_def
proof (intro allI impI)
  fix s :: "'z dsys"
  assume inv: "dinv s"
  obtain r w where m: "InsertManualContinuation i p (dworld s) = (r, w)" by (cases "InsertManualContinuation i p (dworld s)")
  have "preserves (\<lambda>w :: 'z dm. mgr w = M) (InsertManualContinuation i p)" for M by (intro mgr_store store_only_methods)
  from preservesD [OF this refl m] have mg: "mgr w = mgr (dworld s)" .
  let ?s = "(setWorld w s)\<lparr>waking := (if isl r then waking s else Suc (waking s))\<rparr>"
  have s1: "dstep te ads s ?s" by (rule d_core [OF ws_manual [OF m]]) (simp add: mg setWorld_def)
  show "(dstep te ads)\<^sup>*\<^sup>* s (setWorld (snd (bindE (InsertManualContinuation i p) (\<lambda>c. bindE Wake (\<lambda>_. k c)) (dworld s))) s)"
  proof (cases r)
    case (Inl e)
    with m s1 show ?thesis by (auto simp: bindE_def setWorld_def)
  next
    case (Inr c)
    let ?w = "w\<lparr>wake := True\<rparr>"
    have "waking ?s = Suc (waking s)" using Inr by simp
    from ws_signal [OF this, of te ads] have "wstep te ads ?s (setWorld ?w s)" using Inr by (simp add: setWorld_def)
    then have s2: "dstep te ads ?s (setWorld ?w s)" by (rule d_core) (simp add: setWorld_def)
    obtain q w' where k: "k c ?w = (q, w')" by (cases "k c ?w")
    then have "k c (dworld (setWorld ?w s)) = (q, w')" by simp
    have "dinv (setWorld ?w s)" using dinv_step [OF s2 dinv_step [OF s1 inv]] .
    from servedD [OF assms this \<open>k c (dworld (setWorld ?w s)) = (q, w')\<close>] s1 s2 have "(dstep te ads)\<^sup>*\<^sup>* s (setWorld w' s)" by simp
    with m Inr k show ?thesis by (simp add: bindE_def Wake_def modify_def)
  qed
qed

lemma served_ingest:
  "served te ads (bindE (Ingest te ev) (\<lambda>res. bindE (busPublish (ir_Event res)) (\<lambda>_.
     bindE (if ir_Continuations res \<noteq> [] then Wake else returnE ()) (\<lambda>_. returnE res))))" (is "served te ads ?m")
  unfolding served_def
proof (intro allI impI)
  fix s :: "'b dsys"
  assume inv: "dinv s"
  obtain r w where m: "Ingest te ev (dworld s) = (r, w)" by (cases "Ingest te ev (dworld s)")
  have "preserves (\<lambda>w :: 'b dm. mgr w = M) (Ingest te ev)" for M by (rule preserves_Ingest_frame) auto
  from preservesD [OF this refl m] have mg: "mgr w = mgr (dworld s)" .
  let ?s = "(setWorld w s)\<lparr>waking := waking s + signalDue r\<rparr>"
  have s1: "dstep te ads s ?s" by (rule d_core [OF ws_ingest [OF m]]) (simp add: mg setWorld_def)
  show "(dstep te ads)\<^sup>*\<^sup>* s (setWorld (snd (?m (dworld s))) s)"
  proof (cases r)
    case (Inl e)
    with m s1 show ?thesis by (auto simp: bindE_def setWorld_def)
  next
    case (Inr res)
    have "wf_bus (bus w)" using dinv_step [OF s1 inv] by (simp add: dinv_def winv_def sys_inv_def setWorld_def)
    then obtain b where b: "Publish (ir_Event res) (bus w) = Some b"
        "busPublish (ir_Event res) w = (Inr (), w\<lparr>bus := b, pubs := pubs w @ [(ir_Event res, db w)]\<rparr>)"
      by (rule busPublish_run)
    let ?w = "w\<lparr>bus := b, pubs := pubs w @ [(ir_Event res, db w)]\<rparr>"
    have "wstep te ads ?s (setWorld ?w ?s)"
      using b(1) by (intro ws_frame) (auto simp: setWorld_def intro: bus_Publish)
    then have s2: "dstep te ads ?s (setWorld ?w ?s)" by (rule d_core) (simp add: setWorld_def)
    show ?thesis
    proof (cases "ir_Continuations res = []")
      case True
      then have "setWorld ?w ?s = setWorld ?w s" using Inr by (simp add: setWorld_def)
      with s1 s2 m Inr b(2) True show ?thesis by (simp add: bindE_def)
    next
      case False
      then have "waking (setWorld ?w ?s) = Suc (waking s)" using Inr by simp
      from ws_signal [OF this, of te ads]
      have "wstep te ads (setWorld ?w ?s) (setWorld (?w\<lparr>wake := True\<rparr>) s)" by (simp add: setWorld_def)
      then have "dstep te ads (setWorld ?w ?s) (setWorld (?w\<lparr>wake := True\<rparr>) s)" by (rule d_core) (simp add: setWorld_def)
      with s1 s2 m Inr b(2) False show ?thesis by (simp add: bindE_def Wake_def modify_def)
    qed
  qed
qed

lemma served_EngineIngest [intro!]: "served te ads (EngineIngest te ev)"
  unfolding EngineIngest_def normalise_def by (intro served_bind served_if served_pure served_NewID served_Now served_ingest)

lemma served_continuationRunP: "served te ads (continuationRunP sid prompt)"
proof -
  have "served te ads (case x of None \<Rightarrow> throwE e
      | Some _ \<Rightarrow> bindE (InsertManualContinuation sid prompt) (\<lambda>c. bindE Wake (\<lambda>_. returnE c)))" for x :: "Session option" and e
    by (cases x) (simp_all add: served_manual served_pure)
  then show ?thesis
    unfolding continuationRunP_def by (intro served_if served_pure served_bind served_reads)
qed

lemma served_rpcDispatch: "served te ads (rpcDispatch te env cd method raw)"
proof -
  have um: "served te ads (unmarshalParams z d raw)" for z :: 'p and d by (simp add: unmarshalParams_def served_pure)
  note rules = served_bind served_if served_pure served_reads served_writes served_EngineIngest um
  have run: "served te ads (continuationRun cd raw)"
    unfolding continuationRun_def by (intro rules) (auto intro!: served_bind served_continuationRunP)
  have session: "served te ads (ruleSession p)" for p
    unfolding ruleSession_def by (intro rules) (auto split: option.split)
  have rule: "served te ads (ruleAdd te env cd raw)"
    unfolding ruleAdd_def ruleAddP_def by (intro rules session)
  have status: "served te ads (statusRpc env)"
    unfolding statusRpc_def by (intro rules)
  have inject: "served te ads (eventInject te cd raw)"
    unfolding eventInject_def by (intro rules)
  have reg: "served te ads (sessionRegister cd raw)"
    unfolding sessionRegister_def by (intro rules)
  have add: "served te ads (watchAdd env cd raw)"
    unfolding watchAdd_def watchAddP_def by (intro rules served_startWatch)
  have remove: "served te ads (watchRemove cd raw)"
    unfolding watchRemove_def by (intro rules served_stopWatch)
  show ?thesis
    unfolding rpcDispatch_def
    by (intro served_if status inject rule reg run add remove served_pure served_bind served_reads served_writes um;
      clarsimp?; (intro served_bind served_reads served_pure)?)
qed

section \<open>Properties\<close>



definition exSysD0 :: "unit dsys" where
  \<comment> \<open>a new daemon on a new database\<close>
  "exSysD0 = \<lparr>base = \<lparr>world = exDaemon\<lparr>db := emptyDB, bus := NewBus, mgr := NewManager\<rparr>, gs = []\<rparr>,
     scanner = Scanning, waking = 0\<rparr>"

definition exSysD1 :: "unit dsys" where
  \<comment> \<open>its manager has started a watcher\<close>
  "exSysD1 = setWorld ((dworld exSysD0)\<lparr>mgr := exMgr\<rparr>) exSysD0"

lemma exSysD1_reach: "reach dinit (dstep exEngine (\<lambda>_. [])) exSysD1"
proof (rule reach_step)
  show "reach dinit (dstep exEngine (\<lambda>_. [])) exSysD0"
    by (rule reach_init) (simp add: dinit_def winit_def sys_init_def exSysD0_def exDaemon_def)
  have "mgr_step (mgr (dworld exSysD0)) exMgr"
    unfolding exMgr_def by (simp add: exSysD0_def mgr_Run)
  then show "dstep exEngine (\<lambda>_. []) exSysD0 exSysD1"
    unfolding exSysD1_def by (rule d_mgr)
qed



section \<open>Watchers and their rows\<close>

definition linked :: "'z dm \<Rightarrow> bool" where
  \<comment> \<open>every registered watcher belongs to a stored watch\<close>
  "linked w \<longleftrightarrow> (\<forall>i. running (mgr w) i \<noteq> None \<longrightarrow> i \<in> w_ID ` set (watches (db w)))"

abbreviation wframe :: "Watch list \<Rightarrow> Manager \<Rightarrow> 'z dm \<Rightarrow> bool" where
  "wframe W M w \<equiv> watches (db w) = W \<and> mgr w = M"

lemma linked_frame:
  fixes m :: "('z dm, 'a) io"
  assumes "\<And>W M. preserves (wframe W M) m"
  shows "preserves linked m"
proof (rule preservesI)
  fix w :: "'z dm"
  assume "linked w"
  moreover have "wframe (watches (db w)) (mgr w) (snd (m w))"
    by (rule preservesD [OF assms _ prod.collapse [symmetric]]) simp
  ultimately show "linked (snd (m w))" by (simp add: linked_def)
qed

lemma wframe_calls:
  "(\<And>d x d'. stmt d = (Inr x, d') \<Longrightarrow> watches d' = watches d) \<Longrightarrow> preserves (wframe W M) (Exec stmt)"
  "preserves (wframe W M) Now" "preserves (wframe W M) (NewID p)" "preserves (wframe W M) (Query q)"
  by (auto intro!: preserves_Exec preserves_Now preserves_NewID simp: Query_def)

lemma wframe_writes:
  "preserves (wframe W M) (AddRule r)" "preserves (wframe W M) (RemoveRule i)" "preserves (wframe W M) (RegisterSession s)"
  "preserves (wframe W M) (InsertManualContinuation i p)"
  unfolding AddRule_def RemoveRule_def RegisterSession_def InsertManualContinuation_def Let_def GetSession_def Update_def
  by ((intro preserves_bind preserves_if preserves_pure wframe_calls; auto simp: insertRule_def upsertSession_def insert_row_def
      split: sum.splits option.splits if_splits intro!: wframe_calls)+)

lemma wframe_ingestRules: "preserves (wframe W M) (ingestRules te ev now rs acc)"
proof (induction rs arbitrary: acc)
  case (Cons r rs)
  then show ?case
    unfolding ingestRules.simps Let_def insertContinuation_def consumeRule_def Update_def UpdateN_def
    by (intro preserves_rules) auto
qed auto

lemma wframe_EngineIngest: "preserves (wframe W M) (EngineIngest te ev)"
proof (rule preserves_EngineIngest)
  show "preserves (wframe W M) (Ingest te ev)" for ev
    unfolding Ingest_def ingestBody_def insertEventTx_def Update_def Query_def
    by (intro preserves_rules wframe_ingestRules) auto
qed auto

lemmas linked_calls = linked_frame [OF wframe_calls(2)] linked_frame [OF wframe_calls(3)] linked_frame [OF wframe_calls(4)]
  wframe_writes [THEN linked_frame] linked_frame [OF wframe_EngineIngest]

lemma linked_reads:
  "preserves linked (ListEvents ty n)" "preserves linked (ListRules b)" "preserves linked ListSessions"
  "preserves linked (ListContinuations st)" "preserves linked ListWatches" "preserves linked (GetSession i)"
  unfolding ListEvents_def ListRules_def ListSessions_def ListContinuations_def ListWatches_def GetSession_def Let_def
  by (auto intro!: preserves_bind linked_calls)

lemma linked_AddWatch: "preserves linked (AddWatch x)"
proof -
  have "preserves linked (Update (\<lambda>d. d\<lparr>watches := fst (insert_or_ignore conf_watch y (watches d))\<rparr>))" for y
    unfolding Update_def by (rule preserves_Exec) (auto simp: linked_def insert_or_ignore_def)
  then show ?thesis
    unfolding AddWatch_def
    by (intro preserves_bind preserves_if preserves_pure linked_calls) (auto split: option.split)
qed

lemma linked_watchAddP: "preserves linked (watchAddP env p)"
proof (rule preservesI)
  fix w :: "'z dm"
  assume lk: "linked w"
  show "linked (snd (watchAddP env p w))"
  proof (cases "watchValidate env p")
    case (Inl e)
    with lk show ?thesis by (simp add: watchAddP_def fromSum_def bindE_def)
  next
    case (Inr cfg)
    let ?x = "\<lparr>w_ID = [], w_Type = wa_Type p, w_Target = wa_Target p, w_Config = cfg, w_CreatedAt = 0\<rparr>"
    obtain r w1 where a: "AddWatch ?x w = (r, w1)" by (cases "AddWatch ?x w")
    have l1: "linked w1" by (rule preservesD [OF linked_AddWatch lk a])
    show ?thesis
    proof (cases r)
      case Inl
      with Inr a l1 show ?thesis by (simp add: watchAddP_def fromSum_def bindE_def)
    next
      case st: (Inr y)
      with AddWatch_Inr a have "y \<in> set (watches (db w1))" by blast
      then have "linked (snd (startWatch y w1))"
        using l1 by (auto simp: linked_def startWatch_def StartWatch_def split: option.splits)
      with Inr a st show ?thesis by (auto simp: watchAddP_def fromSum_def bindE_def split: prod.splits sum.splits)
    qed
  qed
qed

lemma linked_remove:
  "preserves linked (bindE (modify (\<lambda>w. w\<lparr>mgr := StopWatch i (mgr w)\<rparr>)) (\<lambda>_. bindE (RemoveWatch i) (\<lambda>_. returnE k)))"
proof (rule preservesI)
  fix w :: "'z dm"
  assume lk: "linked w"
  let ?w = "w\<lparr>mgr := StopWatch i (mgr w)\<rparr>"
  have lw: "linked ?w" and none: "running (mgr ?w) i = None"
    using lk by (auto simp: linked_def StopWatch_def split: option.splits if_splits)
  obtain r w1 where r: "RemoveWatch i ?w = (r, w1)" by (cases "RemoveWatch i ?w")
  have "linked w1"
  proof (cases r)
    case Inl
    with r have "db w1 = db ?w" "mgr w1 = mgr ?w"
      by (auto simp: RemoveWatch_def Update_def Exec_def split: option.splits)
    with lw show ?thesis by (simp add: linked_def)
  next
    case Inr
    with r have "watches (db w1) = filter (\<lambda>x. w_ID x \<noteq> i) (watches (db ?w))" "mgr w1 = mgr ?w"
      by (auto simp: RemoveWatch_def Update_def Exec_def delete_where_def split: option.splits)
    moreover have "\<exists>x\<in>set (watches (db ?w)). ia = w_ID x \<and> w_ID x \<noteq> i" if "running (mgr ?w) ia \<noteq> None" for ia
    proof -
      have "ia \<noteq> i" using none that by auto
      with lw that show ?thesis unfolding linked_def by blast
    qed
    ultimately show ?thesis by (auto simp: linked_def image_iff)
  qed
  with r show "linked (snd (bindE (modify (\<lambda>w. w\<lparr>mgr := StopWatch i (mgr w)\<rparr>)) (\<lambda>_. bindE (RemoveWatch i) (\<lambda>_. returnE k)) w))"
    by (cases r) (simp_all add: bindE_def modify_def)
qed

lemma linked_rpcDispatch: "preserves linked (rpcDispatch te env cd method raw)"
proof -
  have um: "preserves linked (unmarshalParams z d raw)" for z :: 'p and d by (simp add: unmarshalParams_def preserves_pure)
  note rules = preserves_bind preserves_if preserves_pure linked_reads linked_calls um
  have wake: "preserves linked Wake" unfolding Wake_def by (rule preserves_modify) (simp add: linked_def)
  have run: "preserves linked (continuationRun cd raw)"
    unfolding continuationRun_def continuationRunP_def
    by (intro rules) (auto intro!: rules wake split: option.split)
  have session: "preserves linked (ruleSession p)" for p
    unfolding ruleSession_def by (intro rules) (auto split: option.split)
  have rule: "preserves linked (ruleAdd te env cd raw)"
    unfolding ruleAdd_def ruleAddP_def by (intro rules session)
  have status: "preserves linked (statusRpc env)"
    unfolding statusRpc_def by (intro rules)
  have inject: "preserves linked (eventInject te cd raw)"
    unfolding eventInject_def by (intro rules)
  have reg: "preserves linked (sessionRegister cd raw)"
    unfolding sessionRegister_def by (intro rules)
  have add: "preserves linked (watchAdd env cd raw)"
    unfolding watchAdd_def by (intro rules linked_watchAddP)
  have remove: "preserves linked (watchRemove cd raw)"
    unfolding watchRemove_def by (intro preserves_bind um linked_remove)
  show ?thesis
    unfolding rpcDispatch_def
    by (intro preserves_if status inject rule reg run add remove rules; clarsimp?; (intro rules)?)
qed

section \<open>A removal that is overtaken\<close>

text \<open>
  (C10) Watchers and their rows. A request that runs alone keeps every registered watcher stored, so a watcher that
  survives in memory is also found after a restart. Handlers do not run alone, though: when a client adds a watch that exists while another
  client removes it, both requests can succeed and leave a watcher that runs, and emits, without a row: nothing lists it and
  no client can name it until the daemon restarts.
\<close>

theorem watch_rows_and_watchers:
  fixes w :: "'z dm"
  shows "(linked w \<longrightarrow> linked (snd (rpcDispatch te env cd method raw w))) \<and>
    (healthy w \<and> wf_st w \<and> m_ctx (mgr w) \<and> x \<in> set (watches (db w)) \<and> ValidateType (w_Type x) = None \<longrightarrow>
      (\<exists>w2 w3 w4. AddWatch (x\<lparr>w_ID := []\<rparr>) (w\<lparr>mgr := StopWatch (w_ID x) (mgr w)\<rparr>) = (Inr x, w2) \<and>
         startWatch x w2 = (Inr (), w3) \<and> RemoveWatch (w_ID x) w3 = (Inr (), w4) \<and>
         running (mgr w4) (w_ID x) \<noteq> None \<and> w_ID x \<notin> w_ID ` set (watches (db w4)) \<and> \<not> linked w4))"
proof -
  have "linked (snd (rpcDispatch te env cd method raw w))" if "linked w"
    by (rule preservesD [OF linked_rpcDispatch that prod.collapse [symmetric]])
  moreover have "\<exists>w2 w3 w4. AddWatch (x\<lparr>w_ID := []\<rparr>) (w\<lparr>mgr := StopWatch (w_ID x) (mgr w)\<rparr>) = (Inr x, w2) \<and>
         startWatch x w2 = (Inr (), w3) \<and> RemoveWatch (w_ID x) w3 = (Inr (), w4) \<and>
         running (mgr w4) (w_ID x) \<noteq> None \<and> w_ID x \<notin> w_ID ` set (watches (db w4)) \<and> \<not> linked w4"
    if h: "healthy w" and wf: "wf_st w" and m: "m_ctx (mgr w)" "ValidateType (w_Type x) = None" and x: "x \<in> set (watches (db w))"
  proof -
    let ?w1 = "w\<lparr>mgr := StopWatch (w_ID x) (mgr w)\<rparr>" and ?P = "\<lambda>z. w_Type z = w_Type x \<and> w_Target z = w_Target x"
    have h1: "healthy ?w1" using h by (simp add: healthy_def)
    have ig: "insert_or_ignore conf_watch (x\<lparr>w_ID := i, w_CreatedAt := t\<rparr>) (watches (db w)) = (watches (db w), 0)" for i t
      using x by (auto simp: insert_or_ignore_def list_ex_iff conf_watch_def)
    obtain y where y: "find ?P (watches (db w)) = Some y"
      using x by (cases "find ?P (watches (db w))") (auto simp: find_None_iff)
    have "uniq conf_watch (watches (db w))" using wf by (rule wf_db_uniqD)
    with find_SomeD [OF y] x have "y = x" using twa.uniq_determines [of "watches (db w)" y x] by (simp add: conf_watch_def)
    with y have fd: "find ?P (watches (db w)) = Some x" by simp
    obtain w2 where w2: "AddWatch (x\<lparr>w_ID := []\<rparr>) ?w1 = (Inr x, w2)" "healthy w2" "mgr w2 = mgr ?w1" "db w2 = db w"
      using h1 by (simp add: AddWatch_def NewID_run Now_def bindE_def ig fd)
    have "m_ctx (mgr w2)" "running (mgr w2) (w_ID x) = None"
      using m(1) w2(3) by (auto simp: StopWatch_def split: option.split)
    then obtain M where M: "startWatch x w2 = (Inr (), w2\<lparr>mgr := M\<rparr>)" "running M (w_ID x) \<noteq> None"
      using m(2) by (simp add: startWatch_def StartWatch_def)
    let ?w4 = "w2\<lparr>mgr := M, db := (db w2)\<lparr>watches := delete_where (\<lambda>z. w_ID z = w_ID x) (watches (db w2))\<rparr>,
        nfault := Suc (nfault w2)\<rparr>"
    have h3: "healthy (w2\<lparr>mgr := M\<rparr>)" using w2(2) by (simp add: healthy_def)
    have "RemoveWatch (w_ID x) (w2\<lparr>mgr := M\<rparr>) = (Inr (), ?w4)"
      using healthy_run(2) [OF h3] by (simp add: RemoveWatch_def)
    moreover have "w_ID x \<notin> w_ID ` set (watches (db ?w4))" by (auto simp: delete_where_def)
    moreover have "running (mgr ?w4) (w_ID x) \<noteq> None" using M(2) by simp
    ultimately have "\<not> linked ?w4" unfolding linked_def by blast
    show ?thesis
      by (rule exI [of _ w2], rule exI [of _ "w2\<lparr>mgr := M\<rparr>"], rule exI [of _ ?w4], intro conjI) fact+
  qed
  ultimately show ?thesis by blast
qed

definition exLinked :: daemon where
  "exLinked = exDaemon\<lparr>db := exDB\<lparr>watches := [exWatch]\<rparr>\<rparr>"

theorem watch_rows_and_watchers_witness:
  "linked (snd (rpcDispatch exEngine exEnv exCodec ''watch.list'' [] exLinked)) \<and>
   (\<exists>(w2 :: daemon) w3 w4. startWatch exWatch w2 = (Inr (), w3) \<and> RemoveWatch ''watch-1'' w3 = (Inr (), w4) \<and> \<not> linked w4)"
proof -
  have l: "linked exLinked"
    by (simp add: linked_def exLinked_def exDaemon_def exMgr_def RunManager_def StartWatch_def exWatch_def NewManager_def
        ValidateType_def validTypes_def)
  have "wf_st exLinked" "healthy exLinked"
    using exDaemon_facts by (simp_all add: exLinked_def exDaemon_def healthy_def exDB_def wf_db_def uniq_def)
  moreover have "m_ctx (mgr exLinked)" "exWatch \<in> set (watches (db exLinked))" "ValidateType (w_Type exWatch) = None"
    and i: "w_ID exWatch = ''watch-1''"
    using exMgr_facts by (simp_all add: exLinked_def exDaemon_def exWatch_def ValidateType_def validTypes_def)
  ultimately obtain w2 w3 w4 :: daemon where "startWatch exWatch w2 = (Inr (), w3)" "RemoveWatch (w_ID exWatch) w3 = (Inr (), w4)" "\<not> linked w4"
    using watch_rows_and_watchers [THEN conjunct2, of exLinked exWatch] by blast
  then show ?thesis using watch_rows_and_watchers [THEN conjunct1, of exLinked] l unfolding i by blast
qed

end
