(* ===== verification/Progress.thy ===== *)
theory Progress
  imports Wakeups
begin

text \<open>
  What the dispatcher achieves: from any state the daemon can reach, after a crash at any moment, it can
  finish all the work that was queued or interrupted. The sequential worker of theory \<open>Dispatch\<close>, which is known to
  return, is a run of the interleaved steps; one round of the dispatcher's loop starts a worker for each session
  with pending work, and with every round there is less left to do.
\<close>

section \<open>A worker on its own\<close>

abbreviation put :: "'z wsys \<Rightarrow> 'z ds \<Rightarrow> (string \<times> phase) list \<Rightarrow> 'z wsys" where
  "put s w G \<equiv> s\<lparr>base := \<lparr>world = w, gs = G\<rparr>\<rparr>"

lemma winv_steps: "(wstep te ads)\<^sup>*\<^sup>* s t \<Longrightarrow> winv s \<Longrightarrow> winv t"
  by (induction rule: rtranclp_induct) (auto intro: winv_step)

lemma publish_path:
  assumes "winv s" and "waking s = n + k" and "k = 0 \<longleftrightarrow> \<not> b" and "k \<le> 1" and "Publish ev (bus (world (base s))) = Some bs"
    and "w' = (world (base s))\<lparr>bus := bs, pubs := ps, wake := (wake (world (base s)) \<or> b)\<rparr>"
  shows "(wstep te ads)\<^sup>*\<^sup>* s ((setWorld w' s)\<lparr>waking := n\<rparr>)"
proof -
  let ?w = "(world (base s))\<lparr>bus := bs, pubs := ps\<rparr>"
  have s1: "wstep te ads s (setWorld ?w s)"
    using assms(5) by (intro ws_frame) (auto intro: bus_Publish)
  show ?thesis
  proof (cases b)
    case False
    with assms have "(setWorld w' s)\<lparr>waking := n\<rparr> = setWorld ?w s" by (simp add: setWorld_def)
    with s1 show ?thesis by auto
  next
    case True
    with assms(2-4) have "waking (setWorld ?w s) = Suc n" by (simp add: setWorld_def)
    from ws_signal [OF this, of te ads] s1 True assms(6) show ?thesis
      by (auto simp: setWorld_def intro: converse_rtranclp_into_rtranclp)
  qed
qed

lemma emit_path:
  assumes inv: "winv s" and b: "base s = \<lparr>world = w, gs = xs @ (sid, PEmit c v) # ys\<rparr>"
  shows "(wstep te ads)\<^sup>*\<^sup>* s (put s (snd (emitResult te c v w)) (xs @ (sid, PLoop) # ys))"
proof -
  have wf: "wf_st w" "wf_bus (bus w)" using inv b by (auto simp: winv_def sys_inv_def)
  obtain ev w0 where n: "normalise (resultEvent c v) w = (Inr ev, w0)" by (rule normalise_run)
  obtain r w1 where r: "Ingest te ev w0 = (r, w1)" by (cases "Ingest te ev w0")
  have e: "bindE (normalise (resultEvent c v)) (Ingest te) w = (r, w1)" using n r by (simp add: bindE_def)
  note ef = emit_effect [OF wf(1) e]
  let ?s = "(put s w1 (xs @ (sid, PLoop) # ys))\<lparr>waking := waking s + signalDue r\<rparr>"
  have s1: "wstep te ads s ?s"
    using ws_emit [of s xs sid c v ys te r w1 ads] b e by simp
  show ?thesis
  proof (cases r)
    case (Inl x)
    with n r have "snd (emitResult te c v w) = w1" by (simp add: emitResult_def EngineIngest_def tryE_def bindE_def)
    with s1 Inl show ?thesis by auto
  next
    case (Inr res)
    have "wf_bus (bus w1)" using ef wf by simp
    then obtain bs where bs: "Publish (ir_Event res) (bus w1) = Some bs"
        "busPublish (ir_Event res) w1 = (Inr (), w1\<lparr>bus := bs, pubs := pubs w1 @ [(ir_Event res, db w1)]\<rparr>)"
      by (rule busPublish_run)
    let ?w = "w1\<lparr>bus := bs, pubs := pubs w1 @ [(ir_Event res, db w1)], wake := (wake w1 \<or> ir_Continuations res \<noteq> [])\<rparr>"
    have "snd (emitResult te c v w) = ?w"
      using n r Inr bs(2) by (auto simp: emitResult_def EngineIngest_def tryE_def bindE_def Wake_def modify_def returnE_def)
    moreover have "(wstep te ads)\<^sup>*\<^sup>* ?s ((setWorld ?w ?s)\<lparr>waking := waking s\<rparr>)"
      using winv_step [OF s1 inv] bs(1) Inr
      by (intro publish_path [where b = "ir_Continuations res \<noteq> []" and k = "signalDue r"]) auto
    moreover have "(setWorld ?w ?s)\<lparr>waking := waking s\<rparr> = put s ?w (xs @ (sid, PLoop) # ys)" by (simp add: setWorld_def)
    ultimately show ?thesis using s1 by (auto intro: converse_rtranclp_into_rtranclp)
  qed
qed

lemma segment_path:
  assumes "winv s" and "base s = \<lparr>world = w, gs = xs @ (sid, ph) # ys\<rparr>" and "gstep te ads sid ph w = (Some ph', w')"
  shows "(wstep te ads)\<^sup>*\<^sup>* s (put s w' (xs @ (sid, ph') # ys))"
proof (cases ph)
  case (PEmit c v)
  with assms emit_path [of s w xs sid c v ys te ads] show ?thesis by auto
qed (use assms ws_worker [of s xs sid ph ys te ads "Some ph'" w'] in auto)

lemma segments_path:
  assumes "(gnext te ads sid)\<^sup>*\<^sup>* p p'" and "winv s" and "base s = \<lparr>world = snd p, gs = xs @ (sid, fst p) # ys\<rparr>"
  shows "(wstep te ads)\<^sup>*\<^sup>* s (put s (snd p') (xs @ (sid, fst p') # ys))"
  using assms
proof (induction arbitrary: s rule: converse_rtranclp_induct)
  case base
  then have "put s (snd p') (xs @ (sid, fst p') # ys) = s" by (cases s) simp
  then show ?case by simp
next
  case (step p q)
  have "gstep te ads sid (fst p) (snd p) = (Some (fst q), snd q)" using step(1) by (simp add: gnext_def)
  from segment_path [OF step(4,5) this]
  have s1: "(wstep te ads)\<^sup>*\<^sup>* s (put s (snd q) (xs @ (sid, fst q) # ys))" .
  from step(3) [OF winv_steps [OF s1 step(4)]] s1 show ?case by simp
qed

lemma loop_segments:
  assumes "workerLoop te ads sid w = Some t"
  shows "(gnext te ads sid)\<^sup>*\<^sup>* (PLoop, w) (PExit, t)"
proof (rule workerLoop.raw_induct [OF _ assms])
  fix loop and te :: "'t template_engine" and ads sid and w t :: "'z ds"
  assume IH: "\<And>te ads sid w t. loop te ads sid w = Some t \<Longrightarrow> (gnext te ads sid)\<^sup>*\<^sup>* (PLoop, w) (PExit, t)"
    and run: "(case workerIter te ads sid w of (r, w') \<Rightarrow> if r = Inr True then loop te ads sid w' else Some w') = Some t"
  obtain r w' where r: "workerIter te ads sid w = (Inr r, w')"
    "(gnext te ads sid)\<^sup>*\<^sup>* (PLoop, w) ((if r then PLoop else PExit), w')"
    using segments_round by blast
  show "(gnext te ads sid)\<^sup>*\<^sup>* (PLoop, w) (PExit, t)"
  proof (cases r)
    case True
    with run r(1) have "loop te ads sid w' = Some t" by simp
    from IH [OF this] r(2) True show ?thesis by (auto intro: rtranclp_trans)
  next
    case False
    with run r show ?thesis by simp
  qed
qed

lemma worker_path:
  assumes inv: "winv s" and b: "base s = \<lparr>world = w, gs = (sid, PLoop) # ys\<rparr>" and rd: "ready w"
  shows "\<exists>t. (wstep te ads)\<^sup>*\<^sup>* s (put s (deregister sid t) ys) \<and> ready (deregister sid t) \<and>
    progress sid (db w) (db t) \<and> settles (db w) (db t) \<and> pendingOf sid (db t) = []"
proof -
  from wl.loop_returns [OF rd] obtain t where t: "workerLoop te ads sid w = Some t" "ready t"
    "progress sid (db w) (db t)" "settles (db w) (db t)" "pendingOf sid (db t) = []" by blast
  have s1: "(wstep te ads)\<^sup>*\<^sup>* s (put s t ((sid, PExit) # ys))"
    using segments_path [OF loop_segments [OF t(1)] inv, of "[]" ys] b by simp
  have "wstep te ads (put s t ((sid, PExit) # ys)) (put s (deregister sid t) ys)"
    using ws_worker [of "put s t ((sid, PExit) # ys)" "[]" sid PExit ys te ads None "deregister sid t"] by simp
  with s1 have "(wstep te ads)\<^sup>*\<^sup>* s (put s (deregister sid t) ys)" by simp
  moreover have "ready (deregister sid t)" using t(2) by (simp add: ready_def deregister_def healthy_def)
  ultimately show ?thesis using t by blast
qed

section \<open>All sessions\<close>

definition settled :: "database \<Rightarrow> database \<Rightarrow> bool" where
  \<comment> \<open>a row is kept, or it was pending and is now terminal\<close>
  "settled d d' \<longleftrightarrow> (\<forall>c\<in>set (continuations d). c \<in> set (continuations d') \<or>
     c_State c = ContinuationPending \<and> (\<exists>c'\<in>set (continuations d'). c_ID c' = c_ID c \<and>
       c_State c' \<in> {ContinuationCompleted, ContinuationFailed}))"

lemma settled_refl: "continuations d' = continuations d \<Longrightarrow> settled d d'"
  by (simp add: settled_def)

lemma settled_progress: "progress sid d d' \<Longrightarrow> settled d d'"
  unfolding progress_def settled_def by blast

lemma settled_trans: "settled d1 d2 \<Longrightarrow> settled d2 d3 \<Longrightarrow> settled d1 d3"
  unfolding settled_def by (metis (no_types, lifting) continuation_states_distinct insert_iff singletonD)

lemma workers_path:
  assumes "winv s" and "base s = \<lparr>world = w, gs = map (\<lambda>i. (i, PLoop)) ss\<rparr>" and "ready w"
  shows "\<exists>w'. (wstep te ads)\<^sup>*\<^sup>* s (put s w' []) \<and> ready w' \<and> settled (db w) (db w') \<and> settles (db w) (db w') \<and>
    (ss \<noteq> [] \<longrightarrow> wake w') \<and> (ss = [] \<longrightarrow> w' = w) \<and> (ss \<noteq> [] \<and> pendingOf (hd ss) (db w) \<noteq> [] \<longrightarrow> tload (db w') < tload (db w))"
  using assms
proof (induction ss arbitrary: s w)
  case Nil
  then have p: "put s w [] = s" by (cases s) simp
  have "(wstep te ads)\<^sup>*\<^sup>* s (put s w [])" unfolding p by (rule rtranclp.rtrancl_refl)
  with Nil(3) settled_refl [OF refl, of "db w"] settles_refl [of "db w"] show ?case by (intro exI [of _ w]) simp
next
  case (Cons sid ss)
  then have "base s = \<lparr>world = w, gs = (sid, PLoop) # map (\<lambda>i. (i, PLoop)) ss\<rparr>" by simp
  from worker_path [OF Cons.prems(1) this Cons.prems(3), of te ads] obtain t where
    t: "(wstep te ads)\<^sup>*\<^sup>* s (put s (deregister sid t) (map (\<lambda>i. (i, PLoop)) ss))" "ready (deregister sid t)"
      "progress sid (db w) (db t)" "settles (db w) (db t)" "pendingOf sid (db t) = []" by blast
  let ?s = "put s (deregister sid t) (map (\<lambda>i. (i, PLoop)) ss)"
  have "base ?s = \<lparr>world = deregister sid t, gs = map (\<lambda>i. (i, PLoop)) ss\<rparr>" by simp
  from Cons.IH [OF winv_steps [OF t(1) Cons.prems(1)] this t(2)] obtain w' where
    w': "(wstep te ads)\<^sup>*\<^sup>* ?s (put ?s w' [])" "ready w'" "settled (db t) (db w')" "settles (db t) (db w')"
      "ss \<noteq> [] \<longrightarrow> wake w'" "ss = [] \<longrightarrow> w' = deregister sid t" by (auto simp: deregister_def)
  have "(wstep te ads)\<^sup>*\<^sup>* s (put s w' [])" using t(1) w'(1) by simp
  moreover have "wake w'" using w'(5,6) by (cases "ss = []") (simp_all add: deregister_def)
  moreover have "tload (db w') < tload (db w)" if "pendingOf sid (db w) \<noteq> []"
    using that t(4,5) w'(4) by (auto simp: settles_def pendingOf_def)
  ultimately show ?case
    using w'(2) settled_trans [OF settled_progress [OF t(3)] w'(3)] settles_trans [OF t(4) w'(4)]
    by (intro exI [of _ w']) simp
qed

lemma spawnAll_fresh: "distinct ss \<Longrightarrow> set ss \<inter> W = {} \<Longrightarrow> spawnAll ss W = (ss, W \<union> set ss)"
  by (induction ss arbitrary: W) (auto simp: insert_commute)

lemma scan_path:
  assumes "winv s" and b: "base s = \<lparr>world = w, gs = []\<rparr>" and sc: "scanner s = Scanning" and rd: "ready w"
  shows "\<exists>ss t w'. (wstep te ads)\<^sup>*\<^sup>* s t \<and> base t = \<lparr>world = w', gs = map (\<lambda>i. (i, PLoop)) ss\<rparr> \<and>
    scanner t = Waiting False \<and> ready w' \<and> db w' = db w \<and>
    set ss = c_SessionID ` {c \<in> set (continuations (db w)). c_State c = ContinuationPending}"
proof -
  let ?ss = "sort (remdups (map c_SessionID (filter (\<lambda>c. c_State c = ContinuationPending) (continuations (db w)))))"
  let ?w = "w\<lparr>nfault := Suc (nfault w)\<rparr>" and ?w' = "w\<lparr>nfault := Suc (nfault w), workers := set
    (sort (remdups (map c_SessionID (filter (\<lambda>c. c_State c = ContinuationPending) (continuations (db w))))))\<rparr>"
  let ?s1 = "(setWorld ?w s)\<lparr>scanner := Spawning ?ss\<rparr>"
  have ws: "workers w = {}" using assms(1) b by (simp add: winv_def sys_inv_def)
  have "PendingSessions w = (Inr ?ss, ?w)"
    using rd by (simp add: ready_def healthy_def PendingSessions_def Query_def Exec_def)
  then have s1: "wstep te ads s ?s1"
    using ws_query [OF sc, of "Inr ?ss" ?w te ads] b by simp
  have "spawn ?ss (base ?s1) = \<lparr>world = ?w', gs = map (\<lambda>i. (i, PLoop)) ?ss\<rparr>"
    using b ws by (simp add: spawn_def setWorld_def spawnAll_fresh)
  then have "wstep te ads ?s1 (?s1\<lparr>base := \<lparr>world = ?w', gs = map (\<lambda>i. (i, PLoop)) ?ss\<rparr>, scanner := Waiting False\<rparr>)"
    using ws_spawn [of ?s1 ?ss te ads] by simp
  with s1 have "(wstep te ads)\<^sup>*\<^sup>* s (?s1\<lparr>base := \<lparr>world = ?w', gs = map (\<lambda>i. (i, PLoop)) ?ss\<rparr>, scanner := Waiting False\<rparr>)"
    by (rule converse_rtranclp_into_rtranclp [OF _ r_into_rtranclp])
  moreover have "ready ?w'" using rd by (simp add: ready_def healthy_def)
  ultimately show ?thesis
    by (intro exI [of _ ?ss] exI [of _ "?s1\<lparr>base := \<lparr>world = ?w', gs = map (\<lambda>i. (i, PLoop)) ?ss\<rparr>, scanner := Waiting False\<rparr>"]
        exI [of _ ?w']) auto
qed

lemma drain_path:
  assumes "winv s" and "base s = \<lparr>world = w, gs = []\<rparr>" and "scanner s = Scanning" and "ready w"
  shows "\<exists>t w'. (wstep te ads)\<^sup>*\<^sup>* s t \<and> base t = \<lparr>world = w', gs = []\<rparr> \<and> settled (db w) (db w') \<and> settles (db w) (db w') \<and>
    (\<forall>c\<in>set (continuations (db w')). c_State c \<noteq> ContinuationPending)"
  using assms
proof (induction "tload (db w)" arbitrary: s w rule: less_induct)
  case less
  from scan_path [OF less.prems, of te ads] obtain ss t w1 where
    t: "(wstep te ads)\<^sup>*\<^sup>* s t" "base t = \<lparr>world = w1, gs = map (\<lambda>i. (i, PLoop)) ss\<rparr>" "scanner t = Waiting False" "ready w1"
      "db w1 = db w" "set ss = c_SessionID ` {c \<in> set (continuations (db w)). c_State c = ContinuationPending}" by blast
  note inv = winv_steps [OF t(1) less.prems(1)]
  from workers_path [OF inv t(2,4), of te ads] obtain w2 where
    w2: "(wstep te ads)\<^sup>*\<^sup>* t (put t w2 [])" "ready w2" "settled (db w) (db w2)" "settles (db w) (db w2)"
      "ss \<noteq> [] \<longrightarrow> wake w2" "ss = [] \<longrightarrow> w2 = w1" "ss \<noteq> [] \<and> pendingOf (hd ss) (db w) \<noteq> [] \<longrightarrow> tload (db w2) < tload (db w)"
    unfolding t(5) by blast
  have s2: "(wstep te ads)\<^sup>*\<^sup>* s (put t w2 [])" using t(1) w2(1) by simp
  show ?case
  proof (cases "ss = []")
    case True
    with t(5,6) w2(6) have "\<forall>c\<in>set (continuations (db w2)). c_State c \<noteq> ContinuationPending" by auto
    with s2 w2(3,4) show ?thesis by (intro exI [of _ "put t w2 []"] exI [of _ w2]) simp
  next
    case False
    then have "hd ss \<in> set ss" by simp
    with t(6) have "pendingOf (hd ss) (db w) \<noteq> []" by (auto simp: pendingOf_def filter_empty_conv)
    with w2(7) False have dec: "tload (db (w2\<lparr>wake := False\<rparr>)) < tload (db w)" by simp
    let ?s = "(setWorld (w2\<lparr>wake := False\<rparr>) (put t w2 []))\<lparr>scanner := Scanning\<rparr>"
    have "wstep te ads (put t w2 []) ?s"
      using ws_take [of "put t w2 []" False te ads] t(3) w2(5) False by simp
    with s2 have s3: "(wstep te ads)\<^sup>*\<^sup>* s ?s" by simp
    have "base ?s = \<lparr>world = w2\<lparr>wake := False\<rparr>, gs = []\<rparr>" "scanner ?s = Scanning" by (simp_all add: setWorld_def)
    moreover have "ready (w2\<lparr>wake := False\<rparr>)" using w2(2) by (simp add: ready_def healthy_def)
    ultimately obtain u w' where u: "(wstep te ads)\<^sup>*\<^sup>* ?s u" "base u = \<lparr>world = w', gs = []\<rparr>" "settled (db w2) (db w')"
      "settles (db w2) (db w')" "\<forall>c\<in>set (continuations (db w')). c_State c \<noteq> ContinuationPending"
      using less.hyps [OF dec winv_steps [OF s3 less.prems(1)]] by auto
    have "(wstep te ads)\<^sup>*\<^sup>* s u" using s3 u(1) by simp
    with u settled_trans [OF w2(3) u(3)] settles_trans [OF w2(4) u(4)] show ?thesis
      by (intro exI [of _ u] exI [of _ w']) simp
  qed
qed

section \<open>After a restart\<close>

lemma bootRecovery_run:
  assumes "healthy w"
  shows "snd (bootRecovery w) = w\<lparr>nclock := Suc (nclock w), nfault := Suc (nfault w), db := (db w)\<lparr>continuations :=
    update_where (\<lambda>c. c_State c = ContinuationRunning)
      (\<lambda>c. c\<lparr>c_State := ContinuationPending, c_UpdatedAt := clock w (nclock w)\<rparr>) (continuations (db w))\<rparr>\<rparr>"
  using assms by (simp add: bootRecovery_def ResetRunningContinuations_def Now_def bindE_def tryE_def)

lemma restart_step:
  assumes inv: "winv s" and ok: "healthy (world (base s))" "ctxErr (world (base s)) = (\<lambda>_. False)" "chainOneShot (db (world (base s)))"
  shows "\<exists>t w. wstep te ads s t \<and> base t = \<lparr>world = w, gs = []\<rparr> \<and> scanner t = Scanning \<and> ready w \<and>
    (\<forall>c\<in>set (continuations (db w)). c_State c \<noteq> ContinuationRunning) \<and>
    (\<forall>c\<in>set (continuations (db (world (base s)))). if c_State c = ContinuationRunning
       then \<exists>c'\<in>set (continuations (db w)). c_ID c' = c_ID c else c \<in> set (continuations (db w)))"
proof -
  let ?v = "world (base s)" and ?w = "(world (restart (base s)))\<lparr>wake := False\<rparr>"
  let ?t = "s\<lparr>base := (restart (base s))\<lparr>world := ?w\<rparr>, scanner := Scanning, waking := 0\<rparr>"
  let ?f = "\<lambda>c. c\<lparr>c_State := ContinuationPending, c_UpdatedAt := clock ?v (nclock ?v)\<rparr>"
  have step: "wstep te ads s ?t" using ws_restart [of te ads s] by (simp add: Let_def)
  have "healthy (?v\<lparr>workers := {}\<rparr>)" using ok(1) by (simp add: healthy_def)
  note run = bootRecovery_run [OF this]
  have d: "db ?w = (db ?v)\<lparr>continuations := update_where (\<lambda>c. c_State c = ContinuationRunning) ?f (continuations (db ?v))\<rparr>"
    by (simp add: restart_def run)
  have "wf_st ?w" "wf_bus (bus ?w)"
    using winv_step [OF step inv] by (simp_all add: winv_def sys_inv_def)
  then have rd: "ready ?w"
    using ok d by (simp add: ready_def healthy_def chainOneShot_def restart_def run)
  have b: "base ?t = \<lparr>world = ?w, gs = []\<rparr>" "scanner ?t = Scanning"
    by (simp_all add: restart_def)
  have nr: "\<forall>c\<in>set (continuations (db ?w)). c_State c \<noteq> ContinuationRunning"
    unfolding d by (auto simp: set_update_where)
  have "\<forall>c\<in>set (continuations (db ?v)). if c_State c = ContinuationRunning
       then \<exists>c'\<in>set (continuations (db ?w)). c_ID c' = c_ID c else c \<in> set (continuations (db ?w))"
  proof
    fix c
    assume "c \<in> set (continuations (db ?v))"
    then have "(if c_State c = ContinuationRunning then ?f c else c) \<in> set (continuations (db ?w))"
      unfolding d by (auto simp: set_update_where)
    then show "if c_State c = ContinuationRunning then \<exists>c'\<in>set (continuations (db ?w)). c_ID c' = c_ID c
        else c \<in> set (continuations (db ?w))"
      by (cases "c_State c = ContinuationRunning") (simp_all only: if_True if_False simp_thms, rule bexI [of _ "?f c"], simp_all)
  qed
  with step b rd nr show ?thesis by blast
qed

section \<open>Properties\<close>



end
