(* ===== verification/Fair.thy ===== *)
theory Fair
  imports Progress
begin

text \<open>
  Every fair schedule of the daemon finishes its work.

  Theory \<open>Progress\<close> shows that a run that completes everything exists; here it is every run. The goroutines are scheduled in any order:
  the workers, the calls that owe a signal, the dispatcher, and the rest of the daemon, which may read, publish and signal at
  will but brings no new work. The only assumption is weak fairness: whoever can take a step takes one
  eventually, or can no longer. The dispatcher counts as able to move when it has a signal, when it is in the middle of a
  scan, or when its last query failed; its safety tick may come at any time and is not relied on otherwise.

  A step of a worker decreases a lexicographic measure (\<open>remaining\<close>, \<open>overhead\<close>): the work left in the tables, and
  the positions of the goroutines. No other step increases it (\<open>astep_measure\<close>).
\<close>

section \<open>Schedules\<close>

datatype actor =
    Worker string
  | Signaller
  | Dispatcher
  | Rest

inductive astep :: "'t template_engine \<Rightarrow> adapters \<Rightarrow> actor \<Rightarrow> 'z wsys \<Rightarrow> 'z wsys \<Rightarrow> bool"
  for te :: "'t template_engine" and ads :: adapters where
  as_worker: "gs (base s) = xs @ (sid, ph) # ys \<Longrightarrow> \<not> emitting ph \<Longrightarrow> gstep te ads sid ph (world (base s)) = (q, w') \<Longrightarrow>
    astep te ads (Worker sid) s (s\<lparr>base := (base s)\<lparr>world := w', gs := xs @ (case q of None \<Rightarrow> [] | Some ph' \<Rightarrow> [(sid, ph')]) @ ys\<rparr>\<rparr>)"
| as_emit: "gs (base s) = xs @ (sid, PEmit c v) # ys \<Longrightarrow>
    bindE (normalise (resultEvent c v)) (Ingest te) (world (base s)) = (r, w') \<Longrightarrow>
    astep te ads (Worker sid) s (s\<lparr>base := (base s)\<lparr>world := w', gs := xs @ (sid, PLoop) # ys\<rparr>, waking := waking s + signalDue r\<rparr>)"
| as_signal: "waking s = Suc n \<Longrightarrow>
    astep te ads Signaller s ((setWorld ((world (base s))\<lparr>wake := True\<rparr>) s)\<lparr>waking := n\<rparr>)"
| as_take: "scanner s = Waiting f \<Longrightarrow> wake (world (base s)) \<Longrightarrow>
    astep te ads Dispatcher s ((setWorld ((world (base s))\<lparr>wake := False\<rparr>) s)\<lparr>scanner := Scanning\<rparr>)"
| as_tick: "scanner s = Waiting f \<Longrightarrow> astep te ads Dispatcher s (s\<lparr>scanner := Scanning\<rparr>)"
| as_query: "scanner s = Scanning \<Longrightarrow> PendingSessions (world (base s)) = (r, w') \<Longrightarrow>
    astep te ads Dispatcher s ((setWorld w' s)\<lparr>scanner := afterQuery r\<rparr>)"
| as_spawn: "scanner s = Spawning ss \<Longrightarrow>
    astep te ads Dispatcher s (s\<lparr>base := spawn ss (base s), scanner := Waiting False\<rparr>)"
| as_rest: "db w' = db (world (base s)) \<Longrightarrow> bus w' = bus (world (base s)) \<or> bus_step (bus (world (base s))) (bus w') \<Longrightarrow>
    workers w' = workers (world (base s)) \<Longrightarrow> (wake (world (base s)) \<longrightarrow> wake w') \<Longrightarrow>
    fault w' = fault (world (base s)) \<Longrightarrow> ctxErr w' = ctxErr (world (base s)) \<Longrightarrow>
    astep te ads Rest s (setWorld w' s)"

inductive_cases astep_DispatcherE: "astep te ads Dispatcher s t"
inductive_cases astep_SignallerE: "astep te ads Signaller s t"

lemma astep_wstep: "astep te ads a s t \<Longrightarrow> wstep te ads s t"
  by (induction rule: astep.induct) (auto intro: wstep.intros)

fun able :: "actor \<Rightarrow> 'z wsys \<Rightarrow> bool" where
  "able (Worker sid) s = (sid \<in> fst ` set (gs (base s)))"
| "able Signaller s = (0 < waking s)"
| "able Dispatcher s = (wake (world (base s)) \<or> scanner s \<noteq> Waiting False)"
| "able Rest s = False"

definition schedule :: "'t template_engine \<Rightarrow> adapters \<Rightarrow> (nat \<Rightarrow> actor) \<Rightarrow> (nat \<Rightarrow> 'z wsys) \<Rightarrow> bool" where
  "schedule te ads by \<sigma> \<longleftrightarrow> (\<forall>n. astep te ads (by n) (\<sigma> n) (\<sigma> (Suc n)))"

definition weakly_fair :: "(nat \<Rightarrow> actor) \<Rightarrow> (nat \<Rightarrow> 'z wsys) \<Rightarrow> bool" where
  "weakly_fair by \<sigma> \<longleftrightarrow> (\<forall>a n. able a (\<sigma> n) \<longrightarrow> (\<exists>m\<ge>n. by m = a \<or> \<not> able a (\<sigma> m)))"

section \<open>A working daemon\<close>

definition working :: "'z ds \<Rightarrow> bool" where
  \<comment> \<open>no failing statement, no shutdown, one-shot chains\<close>
  "working w \<longleftrightarrow> healthy w \<and> ctxErr w = (\<lambda>_. False) \<and> chainOneShot (db w)"

lemma ready_working: "sys_inv s \<Longrightarrow> working (world s) \<Longrightarrow> ready (world s)"
  by (simp add: ready_def working_def sys_inv_def)

definition sameTables :: "Continuation list \<Rightarrow> Rule list \<Rightarrow> 'z ds \<Rightarrow> bool" where
  "sameTables C R w \<longleftrightarrow> working w \<and> conts w = C \<and> rules (db w) = R"

interpretation tbk: segment_kept "sameTables C R" for C R
  by unfold_locales (auto simp: sameTables_def working_def healthy_def chainOneShot_def)

lemma tables_run:
  assumes "\<And>C R. preserves (sameTables C R) m" and "m w = (r, w')" and "working w"
  shows "working w' \<and> conts w' = conts w \<and> rules (db w') = rules (db w)"
proof -
  have "sameTables (conts w) (rules (db w)) w" using assms(3) by (simp add: sameTables_def)
  from preservesD [OF assms(1) this assms(2)] show ?thesis by (simp add: sameTables_def)
qed

lemmas quiet_run = tables_run [OF tbk.kept_CtxErr] tables_run [OF tbk.kept_Query] tables_run [OF tbk.kept_execLookup]
  tables_run [OF tbk.kept_setState prod.collapse [symmetric]] tables_run [OF tbk.kept_resume prod.collapse [symmetric]]

lemma update_working:
  assumes "working w" and "rules (db w') = rules (db w)" and "fault w' = fault w" and "ctxErr w' = ctxErr w"
  shows "working w'"
  using assms by (simp add: working_def healthy_def chainOneShot_def)

definition nextPhase :: "bool \<Rightarrow> phase \<Rightarrow> phase option \<Rightarrow> bool" where
  \<comment> \<open>where a worker goes when nothing fails; \<open>p\<close>: its session has pending work\<close>
  "nextPhase p ph q \<longleftrightarrow> (case ph of
     PLoop \<Rightarrow> if p then \<exists>c. q = Some (PClaim c) else q = Some PExit
   | PClaim c \<Rightarrow> q = Some (PLookup c)
   | PLookup c \<Rightarrow> (\<exists>v. q = Some (PFinish c v)) \<or> (\<exists>sess ad. q = Some (PStart c sess ad))
   | PStart c sess ad \<Rightarrow> q = Some (PRun c sess ad)
   | PRun c sess ad \<Rightarrow> \<exists>v. q = Some (PEnd c sess v)
   | PEnd c sess v \<Rightarrow> q = Some (PFinish c v)
   | PFinish c v \<Rightarrow> q = Some (PEmit c v)
   | PEmit c v \<Rightarrow> q = Some PLoop
   | PExit \<Rightarrow> q = None)"

lemma loop_working:
  assumes "gstep te ads sid PLoop w = (q, w')" and w: "working w"
  shows "working w' \<and> conts w' = conts w \<and> rules (db w') = rules (db w) \<and> nextPhase (sid \<in> pendingSids w) PLoop q"
proof -
  let ?w = "w\<lparr>nctx := Suc (nctx w)\<rparr>"
  have c: "CtxErr w = (Inr False, ?w)" using w by (simp add: CtxErr_def working_def)
  have w1: "working ?w" using w by (simp add: working_def healthy_def)
  have ne: "NextPendingForSession sid ?w \<noteq> (Inl e, w2)" for e w2
    using w1 by (auto simp: NextPendingForSession_def Query_def Exec_def working_def healthy_def split: list.splits)
  have p: "sid \<in> pendingSids w \<longleftrightarrow> pendingOf sid (db ?w) \<noteq> []"
    by (auto simp: pendingSids_def pendingOf_def filter_empty_conv)
  obtain r w2 where r: "NextPendingForSession sid ?w = (Inr r, w2)" using ne by (metis obj_sumE surj_pair)
  have "working w2 \<and> conts w2 = conts ?w \<and> rules (db w2) = rules (db ?w)"
    unfolding NextPendingForSession_def by (rule tables_run [OF tbk.kept_Query r [unfolded NextPendingForSession_def] w1])
  moreover have "nextPhase (sid \<in> pendingSids w) PLoop q" "w' = w2"
    using assms(1) c r NextPending_Some [of sid ?w _ w2] NextPending_None [of sid ?w w2] p
    by (cases r; auto simp: nextPhase_def)+
  ultimately show ?thesis by simp
qed

lemma claim_working:
  assumes "gstep te ads sid (PClaim c) w = (q, w')" and w: "working w" "wf_st w" and "responsible (conts w) (sid, PClaim c)"
  shows "working w' \<and> rules (db w') = rules (db w) \<and> q = Some (PLookup c) \<and>
    (\<exists>t. conts w' = update_where (claimable (c_ID c)) (\<lambda>c. c\<lparr>c_State := ContinuationRunning, c_UpdatedAt := t\<rparr>) (conts w))"
proof -
  from assms(4) obtain x where x: "x \<in> set (conts w)" "c_ID x = c_ID c" "c_SessionID x = sid" "c_State x = ContinuationPending"
    by (auto simp: responsible_def)
  then have "x \<in> set (pendingOf sid (db w))" by (simp add: pendingOf_def)
  from claim_succeeds [OF _ w(2) this] w(1) x(2) have r: "fst (ClaimContinuation (c_ID c) w) = Inr True" by (simp add: working_def)
  then obtain w1 where c: "ClaimContinuation (c_ID c) w = (Inr True, w1)" by (cases "ClaimContinuation (c_ID c) w") auto
  with assms(1) have q: "q = Some (PLookup c)" "w' = w1" by auto
  have "rules (db w1) = rules (db w) \<and> fault w1 = fault w \<and> ctxErr w1 = ctxErr w"
    using c by (auto simp: ClaimContinuation_def Now_def UpdateN_def Exec_def bindE_def split: option.splits)
  moreover from this have "working w1" using update_working [OF w(1), of w1] by simp
  ultimately show ?thesis using q claim_step [OF c] by auto
qed

lemma finish_working:
  fixes w :: "'a ds"
  assumes "gstep te ads sid (PFinish c v) w = (q, w')" and w: "working w"
  shows "working w' \<and> rules (db w') = rules (db w) \<and> q = Some (PEmit c v) \<and>
    (\<exists>f. conts w' = update_where (\<lambda>x. c_ID x = c_ID c) f (conts w) \<and>
      (\<forall>x. c_ID (f x) = c_ID x \<and> c_SessionID (f x) = c_SessionID x \<and> c_State (f x) = v_state v))"
proof -
  let ?w = "w\<lparr>nctx := Suc (nctx w)\<rparr>"
  have c: "CtxErr w = (Inr False, ?w)" using w by (simp add: CtxErr_def working_def)
  have w1: "working ?w" using w by (simp add: working_def healthy_def)
  then obtain f w2 where r: "recordResult c v ?w = (Inr (), w2)"
    "db w2 = (db ?w)\<lparr>continuations := update_where (\<lambda>x. c_ID x = c_ID c) f (continuations (db ?w))\<rparr>"
    "\<forall>x. c_ID (f x) = c_ID x \<and> c_SessionID (f x) = c_SessionID x \<and> c_State (f x) = v_state v"
    using recordResult_run [of ?w c v] by (auto simp: working_def)
  have "preserves (\<lambda>w :: 'a ds. fault w = F \<and> ctxErr w = X) (recordResult c v)" for F X
    by (rule preserves_recordResult) auto
  from preservesD [OF this _ r(1), of "fault ?w" "ctxErr ?w"] have fr: "fault w2 = fault ?w" "ctxErr w2 = ctxErr ?w" by simp_all
  have "working w2" by (rule update_working [OF w1]) (simp_all add: r(2) fr)
  moreover have "q = Some (PEmit c v)" "w' = w2" using assms(1) c r(1) by simp_all
  ultimately show ?thesis using r by auto
qed

lemma other_working:
  assumes "gstep te ads sid ph w = (q, w')" and w: "working w"
    and ph: "\<And>c. ph \<noteq> PClaim c" "\<And>c v. ph \<noteq> PFinish c v" "\<not> emitting ph"
  shows "working w' \<and> conts w' = conts w \<and> rules (db w') = rules (db w) \<and> nextPhase (sid \<in> pendingSids w) ph q"
proof (cases ph)
  case PLoop
  with loop_working assms show ?thesis by blast
next
  case (PLookup c)
  obtain l w1 where l: "execLookup ads c w = (Inr l, w1)" using totalD [OF total_execLookup] by blast
  with quiet_run(3) [OF l w] assms(1) PLookup show ?thesis by (cases l) (auto simp: nextPhase_def)
next
  case PExit
  with assms(1) w show ?thesis by (auto simp: nextPhase_def deregister_def working_def healthy_def)
qed (use assms quiet_run(4,5) [OF w] in \<open>auto simp: nextPhase_def\<close>)

lemma emit_working:
  fixes w :: "'z ds"
  assumes run: "bindE (normalise (resultEvent c v)) (Ingest te) w = (r, w')" and w: "working w" "wf_st w"
  shows "working w' \<and> (\<exists>new. conts w' = conts w @ new \<and> openRules (db w') + length new \<le> openRules (db w) \<and>
    (\<forall>x\<in>set new. c_State x \<noteq> ContinuationRunning))"
proof -
  obtain ev w1 where n: "normalise (resultEvent c v) w = (Inr ev, w1)" by (rule normalise_run)
  have w1: "db w1 = db w" "fault w1 = fault w" "ctxErr w1 = ctxErr w" "ev_Type ev = ev_Type (resultEvent c v)"
    using n by (auto simp: normalise_def bindE_def NewID_run Now_def Let_def returnE_def split: if_splits)
  have I: "Ingest te ev w1 = (r, w')" using run n by (simp add: bindE_def)
  have "preserves (\<lambda>w :: 'z ds. fault w = F \<and> ctxErr w = X) (Ingest te ev)" for F X
    by (rule preserves_Ingest_frame) auto
  from preservesD [OF this _ I, of "fault w1" "ctxErr w1"] have fr: "fault w' = fault w" "ctxErr w' = ctxErr w" using w1 by auto
  show ?thesis
  proof (cases r)
    case (Inl e)
    with I have "db w' = db w1" by (auto simp: Ingest_def dest: with_tx_error)
    with w1 fr update_working [OF w(1), of w'] show ?thesis by simp
  next
    case (Inr res)
    with I have I: "Ingest te ev w1 = (Inr res, w')" by simp
    have wf: "wf_st w1" "chainOneShot (db w1)" using w w1 by (simp_all add: working_def)
    have "ev_Type ev \<in> set resultTypes" using w1 by (simp add: resultEvent_def resultTypes_def)
    from Ingest_chain [OF I wf(1) this wf(2)] w1 fr w(1)
    have "working w'" "openRules (db w') + length (ir_Continuations res) \<le> openRules (db w)"
      by (simp_all add: working_def healthy_def)
    moreover have "c_State x \<noteq> ContinuationRunning" if "x \<in> set (ir_Continuations res)" for x
    proof -
      from that Ingest_Inr [OF I wf(1)] obtain ev t i r where "x = newContinuation te ev t i r" by blast
      then show ?thesis
        by (simp add: newContinuation_def Let_def ContinuationPending_def ContinuationRunning_def ContinuationFailed_def split: sum.split)
    qed
    ultimately show ?thesis using Ingest_Inr [OF I wf(1)] w1 by auto
  qed
qed

section \<open>The measure\<close>

definition remaining :: "'z ds \<Rightarrow> nat" where
  \<comment> \<open>a pending row is one run to do; a rule that can still fire is two, since it makes a pending row\<close>
  "remaining w = 2 * openRules (db w) + length (filter (\<lambda>c. c_State c = ContinuationPending) (conts w))"

fun rank :: "string set \<Rightarrow> string \<times> phase \<Rightarrow> nat" where
  \<comment> \<open>a worker that is about to leave a session with pending work (queued after its last look) makes room for another one\<close>
  "rank pn (i, PLookup c) = 9"
| "rank pn (i, PStart c sess ad) = 8"
| "rank pn (i, PRun c sess ad) = 7"
| "rank pn (i, PEnd c sess v) = 6"
| "rank pn (i, PFinish c v) = 5"
| "rank pn (i, PEmit c v) = 4"
| "rank pn (i, PLoop) = 3"
| "rank pn (i, PClaim c) = 2"
| "rank pn (i, PExit) = (if i \<in> pn then 4 else 1)"

fun found :: "scanner \<Rightarrow> string set" where
  "found (Spawning ss) = set ss"
| "found _ = {}"

definition overhead :: "'z wsys \<Rightarrow> nat" where
  \<comment> \<open>the segments the live workers have before them, and those of the workers that the dispatcher may still start\<close>
  "overhead s = (let pn = pendingSids (world (base s)) in
     sum_list (map (rank pn) (gs (base s))) + 3 * card (found (scanner s) - pn) + 3 * card (pn - workers (world (base s))))"

definition measured :: "('z wsys \<times> 'z wsys) set" where
  "measured = inv_image (less_than <*lex*> less_than) (\<lambda>s. (remaining (world (base s)), overhead s))"

lemma wf_measured: "wf measured" and trans_measured: "trans measured"
  by (auto simp: measured_def intro!: trans_inv_image trans_lex_prod)

lemma measured_iff:
  "(t, s) \<in> measured \<longleftrightarrow> remaining (world (base t)) < remaining (world (base s)) \<or>
     remaining (world (base t)) = remaining (world (base s)) \<and> overhead t < overhead s"
  by (simp add: measured_def in_lex_prod)

lemma rank_next:
  "nextPhase (i \<in> pn) ph (Some ph') \<Longrightarrow> (\<And>c. ph \<noteq> PClaim c) \<Longrightarrow> rank pn (i, ph') < rank pn (i, ph)"
  by (cases ph) (auto simp: nextPhase_def split: if_splits)

lemma finite_found [simp]: "finite (found sc)" and finite_pendingSids [simp]: "finite (pendingSids w)"
  by (cases sc) (simp_all add: pendingSids_def)

lemma filter_update_none:
  "(\<And>x. x \<in> set xs \<Longrightarrow> Q x \<Longrightarrow> \<not> P x \<and> \<not> P (f x)) \<Longrightarrow> filter P (update_where Q f xs) = filter P xs"
  by (induction xs) (auto simp: update_where_def)

lemma same_work:
  fixes w w' :: "'z ds"
  assumes "filter (\<lambda>c. c_State c = ContinuationPending) (conts w') = filter (\<lambda>c. c_State c = ContinuationPending) (conts w)"
    and "rules (db w') = rules (db w)"
  shows "remaining w' = remaining w \<and> pendingSids w' = pendingSids w"
proof -
  have p: "pendingSids v = c_SessionID ` set (filter (\<lambda>c. c_State c = ContinuationPending) (conts v))" for v :: "'z ds"
    by (simp add: pendingSids_def)
  show ?thesis unfolding p by (simp add: assms remaining_def openRules_def)
qed

lemma conts_distinct: "wf_st w \<Longrightarrow> distinct (map c_ID (conts w))"
  by (rule uniq_distinct [OF wf_db_uniqD(4)]) (simp_all add: conf_cont_def)

lemma claim_remaining:
  assumes wf: "wf_st w" and r: "responsible (conts w) (sid, PClaim c)" and "rules (db w') = rules (db w)"
    and c: "conts w' = update_where (claimable (c_ID c)) (\<lambda>c. c\<lparr>c_State := ContinuationRunning, c_UpdatedAt := t\<rparr>) (conts w)"
  shows "remaining w' < remaining w"
proof -
  let ?f = "\<lambda>c. c\<lparr>c_State := ContinuationRunning, c_UpdatedAt := t\<rparr>"
  from r obtain x where x: "x \<in> set (conts w)" "c_ID x = c_ID c" "c_State x = ContinuationPending"
    by (auto simp: responsible_def)
  have own: "y = x" if "y \<in> set (conts w)" "c_ID y = c_ID c" for y using that x wf_row_unique [OF wf] by simp
  have "conts w' = update_where (\<lambda>y. c_ID y = c_ID x) ?f (conts w)"
    unfolding c update_where_def
  proof (rule map_cong [OF refl])
    fix y
    assume "y \<in> set (conts w)"
    with own [of y] x show "(if claimable (c_ID c) y then ?f y else y) = (if c_ID y = c_ID x then ?f y else y)"
      by (simp only: claimable_def) metis
  qed
  with filter_update [OF conts_distinct [OF wf] x(1), of "\<lambda>c. c_State c = ContinuationPending" ?f] x(3)
  have "Suc (length (filter (\<lambda>c. c_State c = ContinuationPending) (conts w'))) =
      length (filter (\<lambda>c. c_State c = ContinuationPending) (conts w))" by simp
  with assms(3) show ?thesis by (simp add: remaining_def openRules_def)
qed

lemma finish_same_work:
  fixes w w' :: "'z ds"
  assumes wf: "wf_st w" and r: "responsible (conts w) (sid, PFinish c v)" and "rules (db w') = rules (db w)"
    and c: "conts w' = update_where (\<lambda>x. c_ID x = c_ID c) f (conts w)" and f: "\<forall>x. c_State (f x) = v_state v"
  shows "remaining w' = remaining w \<and> pendingSids w' = pendingSids w"
proof (rule same_work [OF _ assms(3)])
  from r obtain x where x: "x \<in> set (conts w)" "c_ID x = c_ID c" "c_State x = ContinuationRunning"
    and v: "v_state v \<in> {ContinuationCompleted, ContinuationFailed}" by (auto simp: responsible_def)
  show "filter (\<lambda>c. c_State c = ContinuationPending) (conts w') = filter (\<lambda>c. c_State c = ContinuationPending) (conts w)"
    unfolding c
  proof (rule filter_update_none)
    fix y
    assume "y \<in> set (conts w)" "c_ID y = c_ID c"
    with wf_row_unique [OF wf, of y x] x have "c_State y = ContinuationRunning" by simp
    with f v show "\<not> c_State y = ContinuationPending \<and> \<not> c_State (f y) = ContinuationPending" by auto
  qed
qed

lemma worker_measure:
  fixes s :: "'z wsys"
  assumes inv: "winv s" and w: "working (world (base s))" and g: "gs (base s) = xs @ (sid, ph) # ys" and ne: "\<not> emitting ph"
    and st: "gstep te ads sid ph (world (base s)) = (q, w')"
  shows "working w' \<and>
    (s\<lparr>base := (base s)\<lparr>world := w', gs := xs @ (case q of None \<Rightarrow> [] | Some ph' \<Rightarrow> [(sid, ph')]) @ ys\<rparr>\<rparr>, s) \<in> measured"
proof -
  let ?w = "world (base s)" and ?pn = "pendingSids (world (base s))"
  from inv g have wf: "wf_st ?w" "wf_bus (bus ?w)" and r: "responsible (conts ?w) (sid, ph)"
    by (auto simp: winv_def sys_inv_def)
  note e = gstep_effect [OF st wf r]
  have step: ?thesis if "working w'" and same: "remaining w' = remaining ?w \<and> pendingSids w' = ?pn"
      and q: "q = Some ph'" "rank ?pn (sid, ph') < rank ?pn (sid, ph)" for ph'
  proof -
    have "workers w' = workers ?w" using e q(1) by (simp add: effect_def)
    with same q g \<open>working w'\<close> show ?thesis by (simp add: measured_iff overhead_def Let_def)
  qed
  show ?thesis
  proof (cases ph)
    case (PClaim c)
    with claim_working [of te ads sid c ?w q w'] claim_remaining [of ?w sid c w'] st w wf r
    show ?thesis by (auto simp: measured_iff)
  next
    case (PFinish c v)
    with st finish_working [of te ads sid c v ?w q w'] w obtain f where f: "working w'" "rules (db w') = rules (db ?w)" "q = Some (PEmit c v)"
      "conts w' = update_where (\<lambda>x. c_ID x = c_ID c) f (conts ?w)" "\<forall>x. c_State (f x) = v_state v" by blast
    from finish_same_work [OF wf(1) _ f(2,4,5)] r PFinish have "remaining w' = remaining ?w \<and> pendingSids w' = ?pn" by simp
    from step [OF f(1) this f(3)] PFinish show ?thesis by simp
  next
    case PExit
    with st have d: "q = None" "w' = deregister sid ?w" by simp_all
    have m: "remaining w' = remaining ?w" "pendingSids w' = ?pn" "workers w' = workers ?w - {sid}" "working w'"
      using w by (simp_all add: d deregister_def remaining_def pendingSids_def working_def healthy_def)
    have "card (?pn - (workers ?w - {sid})) \<le> card (?pn - workers ?w) + (if sid \<in> ?pn then 1 else 0)"
    proof (cases "sid \<in> ?pn")
      case True
      have "card (?pn - (workers ?w - {sid})) \<le> card (insert sid (?pn - workers ?w))" by (rule card_mono) auto
      also have "\<dots> \<le> Suc (card (?pn - workers ?w))" by (rule card_insert_le_m1) simp_all
      finally show ?thesis using True by simp
    next
      case False
      then have "?pn - (workers ?w - {sid}) = ?pn - workers ?w" by auto
      then show ?thesis by simp
    qed
    with g PExit d m show ?thesis by (auto simp: measured_iff overhead_def Let_def split: if_splits)
  qed (use other_working [OF st w _ _ ne] same_work [of w' ?w] rank_next [of sid ?pn ph] step in \<open>auto simp: nextPhase_def split: if_splits\<close>)
qed

lemma emit_measure:
  fixes s :: "'z wsys"
  assumes inv: "winv s" and w: "working (world (base s))" and g: "gs (base s) = xs @ (sid, PEmit c v) # ys"
    and run: "bindE (normalise (resultEvent c v)) (Ingest te) (world (base s)) = (r, w')"
  shows "working w' \<and> (s\<lparr>base := (base s)\<lparr>world := w', gs := xs @ (sid, PLoop) # ys\<rparr>, waking := n\<rparr>, s) \<in> measured"
proof -
  let ?w = "world (base s)" and ?t = "s\<lparr>base := (base s)\<lparr>world := w', gs := xs @ (sid, PLoop) # ys\<rparr>, waking := n\<rparr>"
  have wf: "wf_st ?w" using inv by (simp add: winv_def sys_inv_def)
  obtain new where e: "working w'" "conts w' = conts ?w @ new" "openRules (db w') + length new \<le> openRules (db ?w)"
    using emit_working [OF run w wf] by blast
  have ws: "workers w' = workers ?w" using emit_effect [OF wf run] by simp
  have "(?t, s) \<in> measured"
  proof (cases "openRules (db w') < openRules (db ?w)")
    case True
    have "remaining w' = 2 * openRules (db w') + length (filter (\<lambda>c. c_State c = ContinuationPending) (conts ?w)) +
        length (filter (\<lambda>c. c_State c = ContinuationPending) new)" by (simp add: remaining_def e(2))
    with True e(3) length_filter_le [of "\<lambda>c. c_State c = ContinuationPending" new] have "remaining w' < remaining ?w"
      unfolding remaining_def by linarith
    then show ?thesis by (simp add: measured_iff)
  next
    case False
    with e(3) have "length new = 0" "openRules (db w') = openRules (db ?w)" by linarith+
    with e(2) have "conts w' = conts ?w" "openRules (db w') = openRules (db ?w)" by simp_all
    then have "remaining w' = remaining ?w" "pendingSids w' = pendingSids ?w" by (simp_all add: remaining_def pendingSids_def)
    with ws g show ?thesis by (simp add: measured_iff overhead_def Let_def)
  qed
  with e(1) show ?thesis by simp
qed

lemma spawn_overhead:
  assumes "sys_inv (base s)" and "scanner s = Spawning ss"
  shows "overhead (s\<lparr>base := spawn ss (base s), scanner := Waiting False\<rparr>) \<le> overhead s"
proof -
  let ?pn = "pendingSids (world (base s))" and ?W = "workers (world (base s))"
  obtain new ws where sp: "spawnAll ss ?W = (new, ws)" by (cases "spawnAll ss ?W")
  note S = spawnAll_set [OF sp]
  have fin: "finite ?W" using assms(1) by (metis List.finite_set finite_imageI sys_inv_def)
  have len: "length new = card (set ss - ?W)" using S distinct_card by fastforce
  have "card (set ss - ?W) \<le> card ((set ss - ?pn) \<union> ((?pn - ?W) \<inter> set ss))" by (rule card_mono) auto
  also have "\<dots> \<le> card (set ss - ?pn) + card ((?pn - ?W) \<inter> set ss)" by (rule card_Un_le)
  finally have "card (set ss - ?W) + card (?pn - (?W \<union> set ss)) \<le> card (set ss - ?pn) + card ((?pn - ?W) \<inter> set ss) + card ((?pn - ?W) - set ss)"
    by (simp add: Diff_eq Int_assoc)
  moreover have "card ((?pn - ?W) \<inter> set ss) + card ((?pn - ?W) - set ss) = card (?pn - ?W)"
    by (rule card_Int_Diff [symmetric]) simp
  moreover have "sum_list (map (rank pn \<circ> (\<lambda>i. (i, PLoop))) xs) = 3 * length xs" for xs pn by (induction xs) simp_all
  ultimately show ?thesis using len sp S assms(2)
    by (simp add: overhead_def Let_def spawn_def pendingSids_def)
qed

lemma astep_measure:
  assumes "astep te ads a s t" and "winv s" and "working (world (base s))"
  shows "working (world (base t)) \<and> ((t, s) \<in> measured \<or>
    (\<forall>i. a \<noteq> Worker i) \<and> remaining (world (base t)) = remaining (world (base s)) \<and> overhead t = overhead s)"
  using assms
proof cases
  case (as_worker xs sid ph ys q w')
  from worker_measure [OF assms(2,3) as_worker(3-5)] as_worker(2) show ?thesis by simp
next
  case (as_emit xs sid c v ys r w')
  from emit_measure [OF assms(2,3) as_emit(3,4), of "waking s + signalDue r"] as_emit(2) show ?thesis by simp
next
  case (as_query r w')
  have w': "w' = (world (base s))\<lparr>nfault := Suc (nfault (world (base s)))\<rparr>"
    using as_query(4) by (cases r) (auto simp: PendingSessions_def dest: Query_Inl Query_Inr)
  have "found (afterQuery r) \<subseteq> pendingSids (world (base s))"
  proof (cases r)
    case (Inr ss)
    with as_query(4) PendingSessions_Inr [of "world (base s)" ss w'] show ?thesis
      by (auto simp: pendingSids_def pendingOf_def filter_empty_conv)
  qed simp
  then have "found (afterQuery r) - pendingSids (world (base s)) = {}" by blast
  with as_query w' assms(3) show ?thesis
    by (simp add: setWorld_def overhead_def Let_def remaining_def pendingSids_def working_def healthy_def)
next
  case (as_spawn ss)
  have "working (world (base t))" "remaining (world (base t)) = remaining (world (base s))"
    using as_spawn assms(3) by (simp_all add: spawn_def working_def healthy_def remaining_def split: prod.splits)
  with spawn_overhead [of s ss] as_spawn assms(2) show ?thesis by (auto simp: measured_iff winv_def)
next
  case (as_rest w')
  with assms(3) update_working [of "world (base s)" w'] show ?thesis
    by (simp add: setWorld_def overhead_def Let_def remaining_def pendingSids_def)
qed (use assms(3) in \<open>auto simp: setWorld_def overhead_def Let_def remaining_def pendingSids_def working_def healthy_def\<close>)

section \<open>The rows\<close>

definition underway :: "(string \<times> phase) list \<Rightarrow> string set" where
  "underway G = {c_ID c | c sid ph. (sid, ph) \<in> set G \<and> expects ph = Some (c, ContinuationRunning)}"

definition runningIDs :: "Continuation list \<Rightarrow> string set" where
  "runningIDs cs = c_ID ` {c \<in> set cs. c_State c = ContinuationRunning}"

definition abandoned :: "'z wsys \<Rightarrow> string set" where
  \<comment> \<open>rows that are running and in nobody's hands: a failure or a shutdown has cut off their worker; the next
    start of the daemon queues them again\<close>
  "abandoned s = runningIDs (conts (world (base s))) - underway (gs (base s))"

definition survive :: "Continuation list \<Rightarrow> Continuation list \<Rightarrow> bool" where
  "survive cs cs' \<longleftrightarrow> (\<forall>c\<in>set cs. \<exists>c'\<in>set cs'. same_job c c')"

lemma survive_same [simp]: "survive cs cs" and survive_append [simp]: "survive cs (cs @ new)"
  by (auto simp: survive_def same_job_def)

lemma survive_trans: "survive cs cs' \<Longrightarrow> survive cs' cs'' \<Longrightarrow> survive cs cs''"
  unfolding survive_def same_job_def by metis

lemma survive_evolves:
  assumes "evolves cs cs'" and "c_ID ` set cs \<subseteq> c_ID ` set cs'"
  shows "survive cs cs'"
  unfolding survive_def
proof
  fix c
  assume c: "c \<in> set cs"
  then have "c_ID c \<in> c_ID ` set cs'" using assms(2) by blast
  with assms(1) c show "\<exists>c'\<in>set cs'. same_job c c'" unfolding evolves_def by metis
qed

lemma ids_update:
  assumes "\<And>x. c_ID (f x) = c_ID x"
  shows "c_ID ` set (update_where Q f cs) = c_ID ` set cs"
proof -
  have "map c_ID (update_where Q f cs) = map c_ID cs" by (simp add: update_where_def assms)
  from arg_cong [OF this, of set] show ?thesis by simp
qed

lemma underway_append [simp]: "underway (G @ H) = underway G \<union> underway H"
  by (auto simp: underway_def)

lemma underway_Cons [simp]:
  "underway ((sid, ph) # G) =
     (case expects ph of Some (c, st) \<Rightarrow> if st = ContinuationRunning then {c_ID c} else {} | None \<Rightarrow> {}) \<union> underway G"
  by (auto simp: underway_def split: option.splits)

lemma underway_Nil [simp]: "underway [] = {}"
  by (simp add: underway_def)

lemma underway_fresh [simp]: "underway (map (\<lambda>i. (i, PLoop)) ss) = {}"
  by (auto simp: underway_def)

lemma runningIDs_append [simp]: "runningIDs (cs @ ds) = runningIDs cs \<union> runningIDs ds"
  by (auto simp: runningIDs_def)

lemma worker_rows:
  fixes s :: "'z wsys"
  assumes inv: "winv s" and w: "working (world (base s))" and g: "gs (base s) = xs @ (sid, ph) # ys" and ne: "\<not> emitting ph"
    and st: "gstep te ads sid ph (world (base s)) = (q, w')"
  shows "runningIDs (conts w') - underway (xs @ (case q of None \<Rightarrow> [] | Some ph' \<Rightarrow> [(sid, ph')]) @ ys) \<subseteq> abandoned s \<and>
    survive (conts (world (base s))) (conts w')"
proof -
  let ?w = "world (base s)"
  from inv g have sinv: "sys_inv (base s)" and wf: "wf_st ?w" "wf_bus (bus ?w)" and r: "responsible (conts ?w) (sid, ph)"
    by (auto simp: winv_def sys_inv_def)
  have ev: "evolves (conts ?w) (conts w')" using inv_worker [OF sinv g st] by blast
  show ?thesis
  proof (cases ph)
    case (PClaim c)
    with claim_working [of te ads sid c ?w q w'] st w wf r obtain t where c: "q = Some (PLookup c)"
      "conts w' = update_where (claimable (c_ID c)) (\<lambda>c. c\<lparr>c_State := ContinuationRunning, c_UpdatedAt := t\<rparr>) (conts ?w)" by blast
    have "runningIDs (conts w') \<subseteq> insert (c_ID c) (runningIDs (conts ?w))"
      unfolding c(2) by (auto simp: runningIDs_def set_update_where claimable_def)
    moreover have "survive (conts ?w) (conts w')" by (rule survive_evolves [OF ev]) (simp add: c(2) ids_update)
    ultimately show ?thesis using c(1) g PClaim by (auto simp: abandoned_def)
  next
    case (PFinish c v)
    with st finish_working [of te ads sid c v ?w q w'] w obtain f where f: "q = Some (PEmit c v)"
      "conts w' = update_where (\<lambda>x. c_ID x = c_ID c) f (conts ?w)" "\<And>x. c_ID (f x) = c_ID x" "\<And>x. c_State (f x) = v_state v" by blast
    have "v_state v \<in> {ContinuationCompleted, ContinuationFailed}" using r PFinish by (simp add: responsible_def)
    then have "runningIDs (conts w') \<subseteq> runningIDs (conts ?w) - {c_ID c}"
      unfolding f(2) by (auto simp: runningIDs_def set_update_where f(3,4))
    moreover have "survive (conts ?w) (conts w')" by (rule survive_evolves [OF ev]) (simp add: f(2,3) ids_update)
    ultimately show ?thesis using f(1) g PFinish by (auto simp: abandoned_def)
  qed (use other_working [OF st w _ _ ne] g in \<open>auto simp: nextPhase_def abandoned_def split: if_splits\<close>)
qed

lemma astep_rows:
  assumes "astep te ads a s t" and "winv s" and "working (world (base s))"
  shows "abandoned t \<subseteq> abandoned s \<and> survive (conts (world (base s))) (conts (world (base t)))"
  using assms
proof cases
  case (as_worker xs sid ph ys q w')
  from worker_rows [OF assms(2,3) as_worker(3-5)] as_worker(2) show ?thesis by (simp add: abandoned_def)
next
  case (as_emit xs sid c v ys r w')
  have "wf_st (world (base s))" using assms(2) by (simp add: winv_def sys_inv_def)
  from emit_working [OF as_emit(4) assms(3) this] obtain new where n: "conts w' = conts (world (base s)) @ new"
    "\<forall>x\<in>set new. c_State x \<noteq> ContinuationRunning" by blast
  then have "runningIDs new = {}" by (auto simp: runningIDs_def)
  with n as_emit(2,3) show ?thesis by (simp add: abandoned_def)
next
  case (as_query r w')
  then have "db w' = db (world (base s))"
    by (cases r) (auto simp: PendingSessions_def dest: Query_Inl Query_Inr)
  with as_query show ?thesis by (simp add: setWorld_def abandoned_def)
next
  case (as_spawn ss)
  then show ?thesis by (simp add: spawn_def abandoned_def split: prod.splits)
next
  case (as_rest w')
  then show ?thesis by (simp add: setWorld_def abandoned_def)
qed (auto simp: setWorld_def abandoned_def)

section \<open>Along a schedule\<close>

lemma run_inv:
  assumes "schedule te ads by \<sigma>" and "winv (\<sigma> 0)" and "working (world (base (\<sigma> 0)))"
  shows "winv (\<sigma> n) \<and> working (world (base (\<sigma> n))) \<and> abandoned (\<sigma> n) \<subseteq> abandoned (\<sigma> 0) \<and>
    survive (conts (world (base (\<sigma> 0)))) (conts (world (base (\<sigma> n))))"
proof (induction n)
  case (Suc n)
  have st: "astep te ads (by n) (\<sigma> n) (\<sigma> (Suc n))" using assms(1) by (simp add: schedule_def)
  with Suc astep_measure [OF st] astep_rows [OF st] winv_step [OF astep_wstep [OF st]] show ?case
    by (blast intro: survive_trans)
qed (use assms in simp)

text \<open>From some point on no worker takes a step.\<close>

lemma workers_rest:
  assumes sch: "schedule te ads by \<sigma>" and "winv (\<sigma> 0)" and "working (world (base (\<sigma> 0)))"
  obtains N where "\<And>n i. N \<le> n \<Longrightarrow> by n \<noteq> Worker i"
proof -
  obtain s where s: "s \<in> range \<sigma>" "\<And>t. (t, s) \<in> measured \<Longrightarrow> t \<notin> range \<sigma>"
    using wfE_min [OF wf_measured, of "\<sigma> 0" "range \<sigma>"] by blast
  then obtain N where N: "s = \<sigma> N" by blast
  have each: "(\<sigma> (Suc n), \<sigma> n) \<in> measured \<or> (\<forall>i. by n \<noteq> Worker i) \<and>
      remaining (world (base (\<sigma> (Suc n)))) = remaining (world (base (\<sigma> n))) \<and> overhead (\<sigma> (Suc n)) = overhead (\<sigma> n)" for n
    using astep_measure [of te ads "by n" "\<sigma> n" "\<sigma> (Suc n)"] run_inv [OF assms, of n] sch by (simp add: schedule_def)
  have low: "(\<sigma> n, \<sigma> N) \<notin> measured" for n using s(2) N by blast
  have same: "remaining (world (base (\<sigma> n))) = remaining (world (base (\<sigma> N))) \<and> overhead (\<sigma> n) = overhead (\<sigma> N)" if "N \<le> n" for n
    using that
  proof (induction rule: dec_induct)
    case (step n)
    with each [of n] low [of "Suc n"] show ?case by (auto simp: measured_iff)
  qed simp
  have "by n \<noteq> Worker i" if "N \<le> n" for n i
    using each [of n] same [OF that] same [of "Suc n"] that by (auto simp: measured_iff)
  with that show ?thesis by blast
qed

lemma other_frame:
  assumes "astep te ads a s t" and "\<And>i. a \<noteq> Worker i"
  shows "conts (world (base t)) = conts (world (base s)) \<and> (\<exists>H. gs (base t) = gs (base s) @ H)"
  using assms
proof cases
  case (as_query r w')
  then have "db w' = db (world (base s))"
    by (cases r) (auto simp: PendingSessions_def dest: Query_Inl Query_Inr)
  with as_query show ?thesis by (simp add: setWorld_def)
qed (auto simp: setWorld_def spawn_def split: prod.splits)

lemma dispatcher_frame:
  assumes "astep te ads a s t" and "\<And>i. a \<noteq> Worker i" and "a \<noteq> Dispatcher"
  shows "scanner t = scanner s \<and> (wake (world (base s)) \<longrightarrow> wake (world (base t)))"
  using assms by cases (auto simp: setWorld_def)

lemma quiet_from:
  assumes sch: "schedule te ads by \<sigma>" and fair: "weakly_fair by \<sigma>" and N: "\<And>n i. N \<le> n \<Longrightarrow> by n \<noteq> Worker i"
    and n: "N \<le> n"
  shows "gs (base (\<sigma> n)) = [] \<and> conts (world (base (\<sigma> n))) = conts (world (base (\<sigma> N)))"
proof -
  have fr: "conts (world (base (\<sigma> (Suc k)))) = conts (world (base (\<sigma> k))) \<and> (\<exists>H. gs (base (\<sigma> (Suc k))) = gs (base (\<sigma> k)) @ H)"
    if "N \<le> k" for k
    using other_frame [of te ads "by k" "\<sigma> k" "\<sigma> (Suc k)"] N [OF that] sch by (simp add: schedule_def)
  have "gs (base (\<sigma> n)) = []"
  proof (rule ccontr)
    assume "gs (base (\<sigma> n)) \<noteq> []"
    then obtain i where i: "able (Worker i) (\<sigma> n)" by (cases "gs (base (\<sigma> n))") auto
    have "able (Worker i) (\<sigma> m)" if "n \<le> m" for m
      using that
    proof (induction rule: dec_induct)
      case (step m)
      with fr [of m] n show ?case by auto
    qed (rule i)
    with fair i N n show False unfolding weakly_fair_def by (meson order_trans)
  qed
  moreover have "conts (world (base (\<sigma> n))) = conts (world (base (\<sigma> N)))"
    using n
  proof (induction rule: dec_induct)
    case (step m)
    with fr [of m] show ?case by simp
  qed simp
  ultimately show ?thesis by blast
qed

lemma dispatcher_moves:
  assumes sch: "schedule te ads by \<sigma>" and fair: "weakly_fair by \<sigma>" and N: "\<And>n i. N \<le> n \<Longrightarrow> by n \<noteq> Worker i"
    and n: "N \<le> n" "able Dispatcher (\<sigma> n)"
  obtains m where "n \<le> m" and "by m = Dispatcher" and "scanner (\<sigma> m) = scanner (\<sigma> n)"
proof -
  let ?P = "\<lambda>m. n \<le> m \<and> (by m = Dispatcher \<or> \<not> able Dispatcher (\<sigma> m))"
  have "\<exists>m. ?P m" using fair n(2) unfolding weakly_fair_def by blast
  then have m: "?P (LEAST m. ?P m)" by (rule LeastI_ex)
  let ?m = "LEAST m. ?P m"
  have "scanner (\<sigma> k) = scanner (\<sigma> n) \<and> (wake (world (base (\<sigma> n))) \<longrightarrow> wake (world (base (\<sigma> k))))" if "n \<le> k" "k \<le> ?m" for k
    using that
  proof (induction rule: dec_induct)
    case (step k)
    have "\<not> ?P k" using step(1,4) by (intro not_less_Least) simp
    with step(1) have "by k \<noteq> Dispatcher" by blast
    with dispatcher_frame [of te ads "by k" "\<sigma> k" "\<sigma> (Suc k)"] N [of k] step n(1) sch show ?case
      by (auto simp: schedule_def)
  qed simp
  with m have s: "scanner (\<sigma> ?m) = scanner (\<sigma> n)" "wake (world (base (\<sigma> n))) \<longrightarrow> wake (world (base (\<sigma> ?m)))" by blast+
  then have "able Dispatcher (\<sigma> ?m)" using n(2) by auto
  with m s that show ?thesis by blast
qed

lemma scan_comes:
  assumes sch: "schedule te ads by \<sigma>" and fair: "weakly_fair by \<sigma>" and inv: "\<And>n. winv (\<sigma> n)"
    and N: "\<And>n i. N \<le> n \<Longrightarrow> by n \<noteq> Worker i" and i: "i \<in> pendingSids (world (base (\<sigma> N)))"
  shows "\<exists>m\<ge>N. scanner (\<sigma> m) = Scanning"
proof (rule ccontr)
  assume no: "\<not> ?thesis"
  have move: "by n = Dispatcher \<Longrightarrow> N \<le> n \<Longrightarrow> \<exists>ss. scanner (\<sigma> n) = Spawning ss \<and> scanner (\<sigma> (Suc n)) = Waiting False" for n
  proof -
    assume "by n = Dispatcher" "N \<le> n"
    with sch have "astep te ads Dispatcher (\<sigma> n) (\<sigma> (Suc n))" by (metis schedule_def)
    moreover have "scanner (\<sigma> n) \<noteq> Scanning" "scanner (\<sigma> (Suc n)) \<noteq> Scanning" using no \<open>N \<le> n\<close> by auto
    ultimately show ?thesis by (auto elim!: astep_DispatcherE)
  qed
  obtain n where n: "N \<le> n" "scanner (\<sigma> n) \<noteq> Scanning" "\<And>ss. scanner (\<sigma> n) \<noteq> Spawning ss"
  proof (cases "\<exists>ss. scanner (\<sigma> N) = Spawning ss")
    case True
    then have "able Dispatcher (\<sigma> N)" by auto
    from dispatcher_moves [OF sch fair N order.refl this] obtain m where "N \<le> m" "by m = Dispatcher" by blast
    with move [of m] that [of "Suc m"] show ?thesis by auto
  next
    case False
    with no that [of N] show ?thesis by auto
  qed
  have stuck: "by k \<noteq> Dispatcher \<and> scanner (\<sigma> k) = scanner (\<sigma> n)" if "n \<le> k" for k
    using that
  proof (induction rule: dec_induct)
    case base
    with move [of n] n show ?case by auto
  next
    case (step k)
    with dispatcher_frame [of te ads "by k" "\<sigma> k" "\<sigma> (Suc k)"] N [of k] n(1) sch
    have "scanner (\<sigma> (Suc k)) = scanner (\<sigma> n)" by (auto simp: schedule_def)
    with move [of "Suc k"] n step(1) show ?case by auto
  qed
  have unable: "\<not> able Dispatcher (\<sigma> k)" if "n \<le> k" for k
  proof
    assume "able Dispatcher (\<sigma> k)"
    moreover have "N \<le> k" using n(1) that by simp
    ultimately obtain m where "k \<le> m" "by m = Dispatcher" "scanner (\<sigma> m) = scanner (\<sigma> k)"
      by (rule_tac dispatcher_moves [OF sch fair N])
    with stuck [of m] that show False by simp
  qed
  have owes: "able Signaller (\<sigma> k)" if "n \<le> k" for k
  proof -
    have k: "N \<le> k" using that n(1) by simp
    have "gs (base (\<sigma> k)) = []" "i \<in> pendingSids (world (base (\<sigma> k)))"
      using quiet_from [OF sch fair N k] i by (simp_all add: pendingSids_def)
    with inv [of k] unable [OF that] show ?thesis by (auto simp: winv_def attended_def sys_inv_def split: scanner.splits)
  qed
  with fair obtain m where m: "n \<le> m" "by m = Signaller" unfolding weakly_fair_def by (metis order_refl order_trans)
  with sch have "astep te ads Signaller (\<sigma> m) (\<sigma> (Suc m))" by (metis schedule_def)
  then have "able Dispatcher (\<sigma> (Suc m))" by (auto elim!: astep_SignallerE simp: setWorld_def)
  with unable [of "Suc m"] m(1) show False by simp
qed

lemma nothing_pending:
  assumes sch: "schedule te ads by \<sigma>" and fair: "weakly_fair by \<sigma>" and inv: "\<And>n. winv (\<sigma> n)" "\<And>n. working (world (base (\<sigma> n)))"
    and N: "\<And>n i. N \<le> n \<Longrightarrow> by n \<noteq> Worker i"
  shows "pendingSids (world (base (\<sigma> N))) = {}"
proof (rule ccontr)
  assume "pendingSids (world (base (\<sigma> N))) \<noteq> {}"
  then obtain i where i: "i \<in> pendingSids (world (base (\<sigma> N)))" by blast
  have q: "gs (base (\<sigma> n)) = [] \<and> i \<in> pendingSids (world (base (\<sigma> n)))" if "N \<le> n" for n
    using quiet_from [OF sch fair N that] i by (simp add: pendingSids_def)
  obtain n where n: "N \<le> n" "scanner (\<sigma> n) = Scanning" using scan_comes [OF sch fair inv(1) N i] by blast
  then have "able Dispatcher (\<sigma> n)" by simp
  with n obtain m where "n \<le> m" "by m = Dispatcher" "scanner (\<sigma> m) = scanner (\<sigma> n)"
    by (rule_tac dispatcher_moves [OF sch fair N])
  with n have m: "N \<le> m" "by m = Dispatcher" "scanner (\<sigma> m) = Scanning" by simp_all
  with sch have "astep te ads Dispatcher (\<sigma> m) (\<sigma> (Suc m))" by (metis schedule_def)
  with m(3) obtain r w' where r: "PendingSessions (world (base (\<sigma> m))) = (r, w')" "scanner (\<sigma> (Suc m)) = afterQuery r"
    by (auto elim!: astep_DispatcherE)
  with inv(2) [of m] obtain ss where ss: "r = Inr ss" by (auto simp: PendingSessions_def Query_def Exec_def working_def healthy_def)
  have in_ss: "i \<in> set ss"
    using PendingSessions_Inr [of "world (base (\<sigma> m))" ss w'] r(1) ss q [OF m(1)]
    by (auto simp: pendingSids_def pendingOf_def filter_empty_conv)
  have "able Dispatcher (\<sigma> (Suc m))" "scanner (\<sigma> (Suc m)) = Spawning ss" using r(2) ss by simp_all
  moreover have "N \<le> Suc m" using m(1) by simp
  ultimately obtain k where "Suc m \<le> k" "by k = Dispatcher" "scanner (\<sigma> k) = scanner (\<sigma> (Suc m))"
    by (rule_tac dispatcher_moves [OF sch fair N])
  with m(1) \<open>scanner (\<sigma> (Suc m)) = Spawning ss\<close> have k: "N \<le> k" "by k = Dispatcher" "scanner (\<sigma> k) = Spawning ss" by simp_all
  with sch have "astep te ads Dispatcher (\<sigma> k) (\<sigma> (Suc k))" by (metis schedule_def)
  with k(3) have b: "base (\<sigma> (Suc k)) = spawn ss (base (\<sigma> k))" by (auto elim!: astep_DispatcherE)
  have "sys_inv (base (\<sigma> k))" using inv(1) [of k] by (simp add: winv_def)
  from inv_spawn [OF this, of ss] have "workers (world (spawn ss (base (\<sigma> k)))) = workers (world (base (\<sigma> k))) \<union> set ss" by blast
  then have "i \<in> workers (world (base (\<sigma> (Suc k))))" using in_ss by (simp add: b)
  moreover have "fst ` set (gs (base (\<sigma> (Suc k)))) = workers (world (base (\<sigma> (Suc k))))"
    using inv(1) [of "Suc k"] unfolding winv_def sys_inv_def by blast
  ultimately show False using q [of "Suc k"] k(1) by simp
qed

section \<open>A fair schedule\<close>

text \<open>
  Fair schedules exist: let workers go first, then the signals that are owed, then the dispatcher. After finitely many
  steps nothing can move.
\<close>

fun workerTurn :: "'t template_engine \<Rightarrow> adapters \<Rightarrow> string \<Rightarrow> phase \<Rightarrow> (string \<times> phase) list \<Rightarrow> 'z wsys \<Rightarrow> 'z wsys" where
  "workerTurn te ads sid (PEmit c v) ys s = (case bindE (normalise (resultEvent c v)) (Ingest te) (world (base s)) of
     (r, w') \<Rightarrow> s\<lparr>base := (base s)\<lparr>world := w', gs := (sid, PLoop) # ys\<rparr>, waking := waking s + signalDue r\<rparr>)"
| "workerTurn te ads sid ph ys s = (case gstep te ads sid ph (world (base s)) of
     (q, w') \<Rightarrow> s\<lparr>base := (base s)\<lparr>world := w', gs := (case q of None \<Rightarrow> [] | Some ph' \<Rightarrow> [(sid, ph')]) @ ys\<rparr>\<rparr>)"

definition turn :: "'t template_engine \<Rightarrow> adapters \<Rightarrow> 'z wsys \<Rightarrow> actor \<times> 'z wsys" where
  "turn te ads s = (case gs (base s) of
     (sid, ph) # ys \<Rightarrow> (Worker sid, workerTurn te ads sid ph ys s)
   | [] \<Rightarrow> (case waking s of
       Suc n \<Rightarrow> (Signaller, (setWorld ((world (base s))\<lparr>wake := True\<rparr>) s)\<lparr>waking := n\<rparr>)
     | 0 \<Rightarrow> (case scanner s of
         Waiting f \<Rightarrow> if wake (world (base s)) then (Dispatcher, (setWorld ((world (base s))\<lparr>wake := False\<rparr>) s)\<lparr>scanner := Scanning\<rparr>)
           else if f then (Dispatcher, s\<lparr>scanner := Scanning\<rparr>) else (Rest, setWorld (world (base s)) s)
       | Scanning \<Rightarrow> (case PendingSessions (world (base s)) of (r, w') \<Rightarrow> (Dispatcher, (setWorld w' s)\<lparr>scanner := afterQuery r\<rparr>))
       | Spawning ss \<Rightarrow> (Dispatcher, s\<lparr>base := spawn ss (base s), scanner := Waiting False\<rparr>))))"

primrec turns :: "'t template_engine \<Rightarrow> adapters \<Rightarrow> 'z wsys \<Rightarrow> nat \<Rightarrow> 'z wsys" where
  "turns te ads s 0 = s"
| "turns te ads s (Suc n) = snd (turn te ads (turns te ads s n))"

lemma turn_astep: "astep te ads (fst (turn te ads s)) s (snd (turn te ads s))"
proof (cases "gs (base s)")
  case (Cons g ys)
  obtain sid ph where g: "g = (sid, ph)" by (cases g)
  show ?thesis
  proof (cases ph)
    case (PEmit c v)
    with Cons g as_emit [of s "[]" sid c v ys te _ _ ads] show ?thesis by (auto simp: turn_def split: prod.splits)
  qed (use Cons g as_worker [of s "[]" sid ph ys te ads] in \<open>auto simp: turn_def split: prod.splits\<close>)
next
  case Nil
  then show ?thesis
    by (auto simp: turn_def split: nat.split scanner.split prod.split intro: astep.intros)
qed

definition stir :: "'z wsys \<Rightarrow> nat" where
  \<comment> \<open>what the signals and the dispatcher have before them when no worker is left\<close>
  "stir s = 10 * waking s + (if wake (world (base s)) then 4 else 0) +
     (case scanner s of Waiting f \<Rightarrow> if f then 3 else 0 | Scanning \<Rightarrow> 2 | Spawning ss \<Rightarrow> 1)"

lemma stir_decreases:
  assumes "gs (base s) = []" and "gs (base (snd (turn te ads s))) = []" and "working (world (base s))" and "0 < stir s"
  shows "stir (snd (turn te ads s)) < stir s"
proof (cases "waking s")
  case 0
  show ?thesis
  proof (cases "scanner s")
    case (Waiting f)
    with assms 0 show ?thesis by (auto simp: turn_def stir_def setWorld_def split: if_splits)
  next
    case Scanning
    obtain ss where "PendingSessions (world (base s)) = (Inr ss, (world (base s))\<lparr>nfault := Suc (nfault (world (base s)))\<rparr>)"
      using assms(3) by (auto simp: PendingSessions_def Query_def Exec_def working_def healthy_def)
    with Scanning assms(1) 0 show ?thesis by (simp add: turn_def stir_def setWorld_def)
  next
    case (Spawning ss)
    with assms(1) 0 show ?thesis by (simp add: turn_def stir_def spawn_def split: prod.splits)
  qed
qed (use assms(1) in \<open>simp add: turn_def stir_def setWorld_def\<close>)

lemma turns_schedule: "schedule te ads (\<lambda>n. fst (turn te ads (turns te ads s n))) (turns te ads s)"
  by (simp add: schedule_def turn_astep)

lemma turns_stop:
  assumes "winv s" and "working (world (base s))"
  shows "\<exists>n. gs (base (turns te ads s n)) = [] \<and> stir (turns te ads s n) = 0"
proof -
  let ?\<sigma> = "turns te ads s" and ?by = "\<lambda>n. fst (turn te ads (turns te ads s n))"
  have s: "winv (?\<sigma> 0)" "working (world (base (?\<sigma> 0)))" using assms by simp_all
  obtain N where N: "\<And>n i. N \<le> n \<Longrightarrow> ?by n \<noteq> Worker i" by (rule workers_rest [OF turns_schedule s]) blast
  have g: "gs (base (?\<sigma> n)) = []" if "N \<le> n" for n
    using N [OF that, of "fst (hd (gs (base (?\<sigma> n))))"] by (cases "gs (base (?\<sigma> n))") (auto simp: turn_def)
  have "\<exists>m\<ge>n. stir (?\<sigma> m) = 0" if "N \<le> n" for n
    using that
  proof (induction "stir (?\<sigma> n)" arbitrary: n rule: less_induct)
    case less
    show ?case
    proof (cases "stir (?\<sigma> n) = 0")
      case False
      have "stir (?\<sigma> (Suc n)) < stir (?\<sigma> n)"
        using stir_decreases [of "?\<sigma> n" te ads] g [OF less(2)] g [of "Suc n"] run_inv [OF turns_schedule s, of n] False less(2) by simp
      from less(1) [OF this] less(2) show ?thesis by (meson Suc_leD le_SucI)
    qed auto
  qed
  with g show ?thesis by (meson order_refl order_trans)
qed

lemma stopped:
  assumes "gs (base s) = []" and "stir s = 0"
  shows "\<not> able a s" and "turn te ads s = (Rest, s)"
  using assms by (auto simp: stir_def turn_def setWorld_def split: scanner.splits if_splits) (cases a; auto)

theorem fair_schedule_exists:
  assumes "winv s" and "working (world (base s))"
  shows "weakly_fair (\<lambda>n. fst (turn te ads (turns te ads s n))) (turns te ads s)"
proof -
  obtain n where n: "gs (base (turns te ads s n)) = []" "stir (turns te ads s n) = 0" using turns_stop [OF assms] by blast
  have e: "turns te ads s m = turns te ads s n" if "n \<le> m" for m
    using that by (induction rule: dec_induct) (use stopped(2) [OF n, of te ads] in simp_all)
  have "\<not> able a (turns te ads s m)" if "n \<le> m" for a m unfolding e [OF that] by (rule stopped(1) [OF n])
  then show ?thesis unfolding weakly_fair_def by (metis max.cobounded1 max.cobounded2)
qed

section \<open>Properties\<close>

lemma restart_abandons_nothing:
  assumes "winv s" and "healthy (world (base s))" and "ctxErr (world (base s)) = (\<lambda>_. False)" and "chainOneShot (db (world (base s)))"
  shows "\<exists>t. wstep te ads s t \<and> working (world (base t)) \<and> abandoned t = {}"
proof -
  obtain t w where "wstep te ads s t" "base t = \<lparr>world = w, gs = []\<rparr>" "ready w"
    "\<forall>c\<in>set (continuations (db w)). c_State c \<noteq> ContinuationRunning"
    using restart_step [OF assms, of te ads] by blast
  then show ?thesis by (intro exI [of _ t]) (auto simp: abandoned_def runningIDs_def ready_def working_def)
qed



end
