(* ===== verification/Timestamp.thy ===== *)
theory Timestamp
  imports GoStrings "HOL-Library.Product_Lexorder"
begin

text \<open>
  The text of the time columns, \<^verbatim>\<open>ts\<close> and \<^verbatim>\<open>tsFormat\<close> in
  \<^verbatim>\<open>src/internal/store/store.go\<close>, and why the other theories may keep times as
  numbers: the database compares and sorts the text, and the order of the text is the order of time.

  A time counts nanoseconds from Go's zero time, January 1 of year 1, in UTC, as everywhere in this
  development; the calendar is the Gregorian one of Go's \<open>time\<close> package.
\<close>

section \<open>The calendar\<close>

definition isLeap :: "nat \<Rightarrow> bool" where
  "isLeap y \<longleftrightarrow> y mod 4 = 0 \<and> (y mod 100 \<noteq> 0 \<or> y mod 400 = 0)"

definition yearDays :: "nat \<Rightarrow> nat" where
  "yearDays y = (if isLeap y then 366 else 365)"

definition monthLengths :: "nat \<Rightarrow> nat list" where
  "monthLengths y = [31, if isLeap y then 29 else 28, 31, 30, 31, 30, 31, 31, 30, 31, 30, 31]"

lemma yearDays_pos [simp]: "0 < yearDays y"
  by (simp add: yearDays_def)

function yearLoop :: "nat \<Rightarrow> nat \<Rightarrow> nat \<times> nat" where
  \<comment> \<open>the year of a day counted from the first of year \<open>y\<close>, and the day in it, from 0\<close>
  "yearLoop y n = (if n < yearDays y then (y, n) else yearLoop (Suc y) (n - yearDays y))"
  by auto
termination
proof (relation "measure snd")
  fix y n
  assume "\<not> n < yearDays y"
  with yearDays_pos [of y] have "n - yearDays y < n" by linarith
  then show "((Suc y, n - yearDays y), y, n) \<in> measure snd" by simp
qed simp

declare yearLoop.simps [simp del]

fun monthLoop :: "nat \<Rightarrow> nat list \<Rightarrow> nat \<Rightarrow> nat \<times> nat" where
  \<comment> \<open>the month and the day in it, both from 1\<close>
  "monthLoop m [] n = (m, Suc n)"
| "monthLoop m (k # ks) n = (if n < k then (m, Suc n) else monthLoop (Suc m) ks (n - k))"

definition Date :: "nat \<Rightarrow> nat \<times> nat \<times> nat" where
  "Date days = (case yearLoop 1 days of (y, n) \<Rightarrow> (y, monthLoop 1 (monthLengths y) n))"

definition Year :: "time \<Rightarrow> nat" where
  "Year t = fst (Date (nat t div 86400000000000))"

section \<open>The text\<close>

definition pad :: "nat \<Rightarrow> nat \<Rightarrow> string" where
  \<comment> \<open>a number with leading zeros, at least \<open>w\<close> digits long\<close>
  "pad w n = replicate (w - length (natStr n)) CHR ''0'' @ natStr n"

definition ts :: "time \<Rightarrow> string" where
  \<comment> \<open>the layout \<open>2006-01-02T15:04:05.000000000Z07:00\<close> of a time in UTC from year 1 on\<close>
  "ts t =
     (let ns = nat t; s = ns div 1000000000; mi = s div 60; h = mi div 60 in
      case Date (h div 24) of (y, m, d) \<Rightarrow>
        pad 4 y @ ''-'' @ pad 2 m @ ''-'' @ pad 2 d @ ''T'' @
        pad 2 (h mod 24) @ '':'' @ pad 2 (mi mod 60) @ '':'' @ pad 2 (s mod 60) @ ''.'' @
        pad 9 (ns mod 1000000000) @ ''Z'')"

section \<open>Padded numbers are ordered as text\<close>

fun digits :: "nat \<Rightarrow> nat \<Rightarrow> string" where
  \<comment> \<open>the last \<open>w\<close> digits\<close>
  "digits 0 n = []"
| "digits (Suc w) n = digits w (n div 10) @ [''0123456789'' ! (n mod 10)]"

lemma length_digits [simp]: "length (digits w n) = w"
  by (induction w n rule: digits.induct) auto

lemma digits_zero: "digits w 0 = replicate w CHR ''0''"
  by (induction w) (simp_all flip: replicate_append_same)

lemma natStr_digits: "n < 10 ^ w \<Longrightarrow> 0 < w \<Longrightarrow> length (natStr n) \<le> w \<and> pad w n = digits w n"
proof (induction w arbitrary: n)
  case (Suc w)
  show ?case
  proof (cases "n < 10")
    case True
    then have "natStr n = [''0123456789'' ! n]" by (subst natStr.simps) simp
    with True show ?thesis by (simp add: pad_def digits_zero)
  next
    case False
    then have s: "natStr n = natStr (n div 10) @ [''0123456789'' ! (n mod 10)]" by (subst natStr.simps) simp
    have "w \<noteq> 0" using False Suc.prems by (cases w) auto
    moreover have "n div 10 < 10 ^ w" using Suc.prems by (simp add: div_less_iff_less_mult mult.commute)
    ultimately show ?thesis using Suc.IH [of "n div 10"] s by (simp add: pad_def)
  qed
qed simp

lemma digit_less: "a < 10 \<Longrightarrow> b < 10 \<Longrightarrow> ''0123456789'' ! a < ''0123456789'' ! b \<longleftrightarrow> a < b"
proof -
  have "of_char (''0123456789'' ! k) = 48 + k" if "k < 10" for k :: nat
  proof -
    from that have "k \<in> {0,1,2,3,4,5,6,7,8,9}" by auto
    then show ?thesis by auto
  qed
  then show "a < 10 \<Longrightarrow> b < 10 \<Longrightarrow> ?thesis" by (simp add: less_char_def)
qed

lemma append_less:
  fixes xs us :: "'a::linorder list"
  assumes "length xs = length us"
  shows "xs @ ys < us @ vs \<longleftrightarrow> xs < us \<or> xs = us \<and> ys < vs"
  using assms by (induction xs us rule: list_induct2) auto

lemma radix_less:
  fixes a b :: nat
  shows "a < b \<longleftrightarrow> a div k < b div k \<or> a div k = b div k \<and> a mod k < b mod k"
proof (cases "k = 0")
  case False
  then show ?thesis
    by (metis div_le_mono div_mult_mod_eq leD le_eq_less_or_eq nat_add_left_cancel_less not_le_imp_less)
qed simp

lemma digits_less: "a < 10 ^ w \<Longrightarrow> b < 10 ^ w \<Longrightarrow> digits w a < digits w b \<longleftrightarrow> a < b"
proof (induction w arbitrary: a b)
  case (Suc w)
  have d: "a div 10 < 10 ^ w" "b div 10 < 10 ^ w"
    using Suc.prems by (simp_all add: div_less_iff_less_mult mult.commute)
  note IH = Suc.IH [OF d] Suc.IH [OF d(2) d(1)]
  have "digits w (a div 10) = digits w (b div 10) \<longleftrightarrow> a div 10 = b div 10"
    using IH by (metis less_irrefl linorder_cases)
  with IH(1) show ?case
    by (simp add: append_less digit_less radix_less [of a b 10])
qed simp

lemma pad_less:
  assumes "a < 10 ^ w" and "b < 10 ^ w" and "0 < w"
  shows "pad w a @ xs < pad w b @ ys \<longleftrightarrow> a < b \<or> a = b \<and> xs < ys"
proof -
  have "digits w a = digits w b \<longleftrightarrow> a = b"
    using digits_less [OF assms(1,2)] digits_less [OF assms(2,1)] by (metis less_irrefl linorder_cases)
  with assms show ?thesis by (simp add: natStr_digits append_less digits_less)
qed

section \<open>Dates are ordered as days\<close>

lemma yearLoop_bounds: "yearLoop y n = (a, x) \<Longrightarrow> y \<le> a \<and> x < yearDays a"
  by (induction y n rule: yearLoop.induct) (subst (asm) (2) yearLoop.simps, auto split: if_splits)

lemma yearLoop_less: "n < n' \<Longrightarrow> yearLoop y n < yearLoop y n'"
proof (induction y n arbitrary: n' rule: yearLoop.induct)
  case (1 y n)
  show ?case
  proof (cases "n' < yearDays y")
    case True
    with 1(2) show ?thesis by (simp add: yearLoop.simps [of y])
  next
    case False
    then have l: "yearLoop y n' = yearLoop (Suc y) (n' - yearDays y)" by (simp add: yearLoop.simps [of y])
    show ?thesis
    proof (cases "n < yearDays y")
      case True
      obtain a x where "yearLoop (Suc y) (n' - yearDays y) = (a, x)" by (cases "yearLoop (Suc y) (n' - yearDays y)")
      with yearLoop_bounds [OF this] True l show ?thesis by (simp add: yearLoop.simps [of y n])
    next
      case F: False
      with 1(1) [OF F, of "n' - yearDays y"] 1(2) l show ?thesis by (simp add: yearLoop.simps [of y n] diff_less_mono)
    qed
  qed
qed

lemma monthLoop_ge: "monthLoop m ks n = (a, d) \<Longrightarrow> m \<le> a"
  by (induction m ks n rule: monthLoop.induct) (auto split: if_splits)

lemma monthLoop_bounds: "n < sum_list ks \<Longrightarrow> \<forall>k\<in>set ks. k \<le> B \<Longrightarrow> monthLoop m ks n = (a, d) \<Longrightarrow> a < m + length ks \<and> d \<le> B"
  by (induction m ks n rule: monthLoop.induct) (auto split: if_splits)

lemma monthLoop_less: "n < n' \<Longrightarrow> monthLoop m ks n < monthLoop m ks n'"
proof (induction m ks n arbitrary: n' rule: monthLoop.induct)
  case (2 m k ks n)
  show ?case
  proof (cases "n < k")
    case True
    obtain a d where "monthLoop (Suc m) ks (n' - k) = (a, d)" by (cases "monthLoop (Suc m) ks (n' - k)")
    with monthLoop_ge [OF this] True 2(2) show ?thesis by simp
  next
    case False
    with 2(1) [OF False, of "n' - k"] 2(2) show ?thesis by (simp add: diff_less_mono)
  qed
qed simp

lemma sum_monthLengths: "sum_list (monthLengths y) = yearDays y"
  by (simp add: monthLengths_def yearDays_def)

lemma Date_bounds:
  assumes "Date n = (y, m, d)"
  shows "m \<le> 12 \<and> d \<le> 31"
proof -
  obtain x where x: "yearLoop 1 n = (y, x)" "monthLoop 1 (monthLengths y) x = (m, d)"
    using assms by (auto simp: Date_def split: prod.splits)
  have "x < sum_list (monthLengths y)" using yearLoop_bounds [OF x(1)] by (simp add: sum_monthLengths)
  moreover have "\<forall>k\<in>set (monthLengths y). k \<le> 31" "length (monthLengths y) = 12" by (simp_all add: monthLengths_def)
  ultimately show ?thesis using monthLoop_bounds [OF _ _ x(2), of 31] by simp
qed

lemma Date_less: "Date a < Date b \<longleftrightarrow> a < b"
proof -
  have mono: "Date a < Date b" if "a < b" for a b
  proof -
    obtain y n y' n' where s: "yearLoop 1 a = (y, n)" "yearLoop 1 b = (y', n')"
      by (cases "yearLoop 1 a"; cases "yearLoop 1 b")
    with yearLoop_less [OF that, of 1] monthLoop_less [of n n' 1 "monthLengths y"] show ?thesis by (auto simp: Date_def)
  qed
  show ?thesis using mono [of a b] mono [of b a] by (metis less_asym linorder_cases order_less_irrefl)
qed

section \<open>Timestamps are ordered as times\<close>

lemma ts_chain:
  assumes "Date a = (y, m, d)" and "y \<le> 9999" and "Date b = (y', m', d')" and "y' \<le> 9999"
  shows "pad 4 y @ ''-'' @ pad 2 m @ ''-'' @ pad 2 d @ xs < pad 4 y' @ ''-'' @ pad 2 m' @ ''-'' @ pad 2 d' @ ys \<longleftrightarrow>
    a < b \<or> a = b \<and> xs < ys"
proof -
  have "(y, m, d) < (y', m', d') \<longleftrightarrow> a < b" "(y, m, d) = (y', m', d') \<longleftrightarrow> a = b"
    using Date_less [of a b] Date_less [of b a] assms(1,3) by (simp, metis linorder_cases order_less_irrefl)
  moreover have "m \<le> 12" "d \<le> 31" "m' \<le> 12" "d' \<le> 31"
    using Date_bounds [OF assms(1)] Date_bounds [OF assms(3)] by simp_all
  ultimately show ?thesis using assms(2,4) by (auto simp: pad_less)
qed

lemma time_chain:
  fixes n k :: nat
  defines "s \<equiv> n div 1000000000" and "s' \<equiv> k div 1000000000"
  shows "n < k \<longleftrightarrow> s div 60 div 60 div 24 < s' div 60 div 60 div 24 \<or> s div 60 div 60 div 24 = s' div 60 div 60 div 24 \<and>
    (s div 60 div 60 mod 24 < s' div 60 div 60 mod 24 \<or> s div 60 div 60 mod 24 = s' div 60 div 60 mod 24 \<and>
    (s div 60 mod 60 < s' div 60 mod 60 \<or> s div 60 mod 60 = s' div 60 mod 60 \<and>
    (s mod 60 < s' mod 60 \<or> s mod 60 = s' mod 60 \<and> n mod 1000000000 < k mod 1000000000)))"
proof -
  have eq: "x = z \<longleftrightarrow> x div r = z div r \<and> x mod r = z mod r" for x z r :: nat by (metis div_mult_mod_eq)
  show ?thesis
    unfolding radix_less [of n k 1000000000] radix_less [of s s' 60] radix_less [of "s div 60" "s' div 60" 60]
      radix_less [of "s div 60 div 60" "s' div 60 div 60" 24] eq [of s s' 60] eq [of "s div 60" "s' div 60" 60]
      eq [of "s div 60 div 60" "s' div 60 div 60" 24] s_def [symmetric] s'_def [symmetric]
    by blast
qed

lemma yearLoop_le: "yearLoop y n = (a, x) \<Longrightarrow> 365 * a \<le> 365 * y + n"
proof (induction y n rule: yearLoop.induct)
  case (1 y n)
  show ?case
  proof (cases "n < yearDays y")
    case True
    with 1(2) show ?thesis by (simp add: yearLoop.simps [of y])
  next
    case False
    moreover have "365 \<le> yearDays y" by (simp add: yearDays_def)
    ultimately show ?thesis using 1 by (simp add: yearLoop.simps [of y n])
  qed
qed

lemma Year_le: "nat t div 86400000000000 \<le> 365 * n \<Longrightarrow> Year t \<le> Suc n"
  using yearLoop_le [of 1 "nat t div 86400000000000"]
  by (cases "yearLoop 1 (nat t div 86400000000000)") (auto simp: Year_def Date_def)

lemma ts_less:
  assumes "0 \<le> t" and "0 \<le> u" and "Year t \<le> 9999" and "Year u \<le> 9999"
  shows "ts t < ts u \<longleftrightarrow> t < u"
proof -
  let ?day = "\<lambda>n. n div 1000000000 div 60 div 60 div 24"
  obtain y m d y' m' d' where D: "Date (?day (nat t)) = (y, m, d)" "Date (?day (nat u)) = (y', m', d')"
    by (cases "Date (?day (nat t))"; cases "Date (?day (nat u))")
  have "y \<le> 9999" "y' \<le> 9999" using assms(3,4) D by (simp_all add: Year_def flip: div_mult2_eq)
  note chain = ts_chain [OF D(1) this(1) D(2) this(2)]
  have "ts t < ts u \<longleftrightarrow> nat t < nat u"
    unfolding time_chain [of "nat t" "nat u"] ts_def Let_def D prod.case chain by (simp add: pad_less)
  also have "\<dots> \<longleftrightarrow> t < u" using assms(1,2) by auto
  finally show ?thesis .
qed

lemma ts_inj:
  assumes "0 \<le> t" and "0 \<le> u" and "Year t \<le> 9999" and "Year u \<le> 9999"
  shows "ts t = ts u \<longleftrightarrow> t = u"
  using ts_less [OF assms] ts_less [OF assms(2,1,4,3)] by (metis less_irrefl linorder_cases)

lemma sort_key_cong_le:
  assumes "\<forall>x\<in>set xs. \<forall>y\<in>set xs. f x \<le> f y \<longleftrightarrow> g x \<le> g y"
  shows "sort_key f xs = sort_key g xs"
proof -
  have ins: "insort_key f x ys = insort_key g x ys" if "\<forall>y\<in>set ys. f x \<le> f y \<longleftrightarrow> g x \<le> g y" for x ys
    using that by (induction ys) auto
  from assms show ?thesis
    by (induction xs) (auto intro!: ins)
qed

text \<open>
  The database may compare times as text. For times of the years 1 to 9999, comparing the texts of two time columns
  byte by byte is comparing the times, and rows sorted by the text of their time and then by their identifier are the
  rows sorted by time and identifier: so \<open>ORDER BY created_at\<close> and the comparisons with a cut-off or an
  expiry do what the other theories model on numbers.
\<close>

theorem ts_order:
  assumes "\<forall>t\<in>T. 0 \<le> t \<and> Year t \<le> 9999"
  shows "(\<forall>t\<in>T. \<forall>u\<in>T. (ts t < ts u \<longleftrightarrow> t < u) \<and> (ts t = ts u \<longleftrightarrow> t = u)) \<and>
    (\<forall>rows. fst ` set rows \<subseteq> T \<longrightarrow>
      sort_key (\<lambda>(t, i :: string). (ts t, i)) rows = sort_key (\<lambda>(t, i). (t, i)) rows)"
proof -
  have o: "\<forall>t\<in>T. \<forall>u\<in>T. (ts t < ts u \<longleftrightarrow> t < u) \<and> (ts t = ts u \<longleftrightarrow> t = u)"
    using assms ts_less ts_inj by blast
  have "sort_key (\<lambda>(t, i :: string). (ts t, i)) rows = sort_key (\<lambda>(t, i). (t, i)) rows" if "fst ` set rows \<subseteq> T" for rows
  proof (intro sort_key_cong_le ballI)
    fix x y
    assume "x \<in> set rows" "y \<in> set rows"
    moreover obtain t i u j where xy: "x = (t, i)" "y = (u, j)" by (cases x; cases y)
    ultimately have "t \<in> T" "u \<in> T" using that by (auto dest: imageI [where f = fst])
    then have "ts t < ts u \<longleftrightarrow> t < u" "ts u < ts t \<longleftrightarrow> u < t" using o by blast+
    then show "(case x of (t, i) \<Rightarrow> (ts t, i)) \<le> (case y of (t, i) \<Rightarrow> (ts t, i)) \<longleftrightarrow>
        (case x of (t, i) \<Rightarrow> (t, i)) \<le> (case y of (t, i) \<Rightarrow> (t, i))"
      by (simp add: xy less_eq_prod_def flip: not_less)
  qed
  with o show ?thesis by blast
qed

theorem ts_order_witness:
  "ts 63000000000000000000 < ts 63000000000000000001"
proof -
  have "Year 63000000000000000000 \<le> 9999" "Year 63000000000000000001 \<le> 9999"
    by (rule order_trans [OF Year_le [of _ 9998]]; simp)+
  with ts_order [of "{63000000000000000000, 63000000000000000001}"] show ?thesis by simp
qed

end
