(* ===== verification/ParseTime.thy ===== *)
theory ParseTime
  imports Timestamp "HOL-Library.Monad_Syntax"
begin

text \<open>
  Reading the time columns back: \<^verbatim>\<open>parseTS\<close> in \<^verbatim>\<open>src/internal/store/store.go\<close> with the
  strict parser that Go's \<open>time\<close> package tries first for RFC 3339. That parser is written out,
  with fractions and zone offsets; the lenient one that the package falls back to (one-digit hours, a comma before
  the fraction) is the argument \<open>lenient\<close>. What \<open>ts\<close> writes is read back by the strict parser.
\<close>

section \<open>The parser\<close>

fun yearStart :: "nat \<Rightarrow> int" where
  \<comment> \<open>days from the first of year 1 to the first of a year\<close>
  "yearStart 0 = - 366"
| "yearStart (Suc y) = yearStart y + int (yearDays y)"

definition daysIn :: "nat \<Rightarrow> nat \<Rightarrow> nat" where
  "daysIn m y = monthLengths y ! (m - 1)"

definition dateDays :: "nat \<Rightarrow> nat \<Rightarrow> nat \<Rightarrow> int" where
  "dateDays y m d = yearStart y + int (sum_list (take (m - 1) (monthLengths y))) + int d - 1"

definition isDigit :: "char \<Rightarrow> bool" where
  "isDigit c \<longleftrightarrow> digitVal c \<noteq> None"

definition digitsVal :: "string \<Rightarrow> nat" where
  "digitsVal s = foldl (\<lambda>x c. 10 * x + nat (the (digitVal c))) 0 s"

definition parseUint :: "string \<Rightarrow> nat \<Rightarrow> nat \<Rightarrow> nat option" where
  "parseUint s lo hi = (if list_all isDigit s \<and> lo \<le> digitsVal s \<and> digitsVal s \<le> hi then Some (digitsVal s) else None)"

definition parseNanoseconds :: "string \<Rightarrow> nat" where
  \<comment> \<open>digits after the ninth are cut off\<close>
  "parseNanoseconds ds = (let k = take 9 ds in digitsVal k * 10 ^ (9 - length k))"

definition parseFraction :: "string \<Rightarrow> nat \<times> string" where
  "parseFraction s =
     (if 2 \<le> length s \<and> s ! 0 = CHR ''.'' \<and> isDigit (s ! 1)
      then (parseNanoseconds (takeWhile isDigit (tl s)), dropWhile isDigit (tl s)) else (0, s))"

definition parseZone :: "string \<Rightarrow> int option" where
  \<comment> \<open>seconds east of UTC\<close>
  "parseZone s =
     (if s = ''Z'' then Some 0
      else if length s \<noteq> 6 then None
      else do {
        h \<leftarrow> parseUint (take 2 (drop 1 s)) 0 23;
        m \<leftarrow> parseUint (take 2 (drop 4 s)) 0 59;
        if s ! 3 \<noteq> CHR '':'' then None
        else if s ! 0 = CHR ''+'' then Some (int ((h * 60 + m) * 60))
        else if s ! 0 = CHR ''-'' then Some (- int ((h * 60 + m) * 60))
        else None })"

definition parseRFC3339 :: "string \<Rightarrow> time option" where
  "parseRFC3339 s =
     (if length s < 19 then None
      else do {
        year \<leftarrow> parseUint (take 4 s) 0 9999;
        month \<leftarrow> parseUint (take 2 (drop 5 s)) 1 12;
        day \<leftarrow> parseUint (take 2 (drop 8 s)) 1 (daysIn month year);
        hour \<leftarrow> parseUint (take 2 (drop 11 s)) 0 23;
        mi \<leftarrow> parseUint (take 2 (drop 14 s)) 0 59;
        sec \<leftarrow> parseUint (take 2 (drop 17 s)) 0 59;
        if s ! 4 = CHR ''-'' \<and> s ! 7 = CHR ''-'' \<and> s ! 10 = CHR ''T'' \<and> s ! 13 = CHR '':'' \<and> s ! 16 = CHR '':''
        then (case parseFraction (drop 19 s) of (nsec, rest) \<Rightarrow> do {
          off \<leftarrow> parseZone rest;
          Some ((((dateDays year month day * 24 + int hour) * 60 + int mi) * 60 + int sec - off) * 1000000000 + int nsec) })
        else None })"

definition parseTS :: "(string \<Rightarrow> time option) \<Rightarrow> string \<Rightarrow> time" where
  \<comment> \<open>an unreadable text gives the zero time, not an error\<close>
  "parseTS lenient v =
     (case (case parseRFC3339 v of Some t \<Rightarrow> Some t | None \<Rightarrow> lenient v) of None \<Rightarrow> 0 | Some t \<Rightarrow> t)"

section \<open>Numbers are read back\<close>

lemma digits_isDigit: "list_all isDigit (digits w n)"
  by (induction w n rule: digits.induct) (auto simp: isDigit_def digitVal_digit)

lemma digitsVal_digits: "n < 10 ^ w \<Longrightarrow> digitsVal (digits w n) = n"
proof (induction w n rule: digits.induct)
  case (2 w n)
  then have "digitsVal (digits w (n div 10)) = n div 10" by (simp add: div_less_iff_less_mult mult.commute)
  then show ?case by (simp add: digitsVal_def digitVal_digit)
qed (simp add: digitsVal_def)

lemma parseUint_digits: "n < 10 ^ w \<Longrightarrow> lo \<le> n \<Longrightarrow> n \<le> hi \<Longrightarrow> parseUint (digits w n) lo hi = Some n"
  by (simp add: parseUint_def digits_isDigit digitsVal_digits)

lemma parseFraction_digits:
  assumes "n < 1000000000"
  shows "parseFraction (CHR ''.'' # digits 9 n @ ''Z'') = (n, ''Z'')"
proof -
  have all: "\<forall>c\<in>set (digits 9 n). isDigit c" using digits_isDigit [of 9 n] by (simp add: list_all_iff)
  have nz: "\<not> isDigit CHR ''Z''" by (simp add: isDigit_def digitVal_def)
  obtain c cs where c: "digits 9 n = c # cs" by (cases "digits 9 n") (use length_digits [of 9 n] in auto)
  have t: "takeWhile isDigit (digits 9 n @ ''Z'') = digits 9 n" "dropWhile isDigit (digits 9 n @ ''Z'') = ''Z''"
    using all nz by (simp_all add: takeWhile_append dropWhile_append)
  have "isDigit c" using all c by simp
  then have "parseFraction (CHR ''.'' # digits 9 n @ ''Z'') = (parseNanoseconds (digits 9 n), ''Z'')"
    using t by (simp add: parseFraction_def c)
  then show ?thesis using digitsVal_digits [of n 9] assms by (simp add: parseNanoseconds_def)
qed

section \<open>Dates are read back\<close>

lemma yearLoop_start: "yearLoop y n = (a, x) \<Longrightarrow> yearStart a + int x = yearStart y + int n"
proof (induction y n rule: yearLoop.induct)
  case (1 y n)
  show ?case
  proof (cases "n < yearDays y")
    case True
    with 1(2) show ?thesis by (simp add: yearLoop.simps [of y])
  next
    case False
    with 1 show ?thesis by (simp add: yearLoop.simps [of y n])
  qed
qed

lemma monthLoop_start:
  "n < sum_list ks \<Longrightarrow> monthLoop m ks n = (a, d) \<Longrightarrow>
    m \<le> a \<and> a < m + length ks \<and> 1 \<le> d \<and> d \<le> ks ! (a - m) \<and> n + 1 = sum_list (take (a - m) ks) + d"
proof (induction m ks n rule: monthLoop.induct)
  case (2 m k ks n)
  show ?case
  proof (cases "n < k")
    case True
    with 2(3) show ?thesis by auto
  next
    case False
    with 2 have "Suc m \<le> a \<and> a < Suc m + length ks \<and> 1 \<le> d \<and> d \<le> ks ! (a - Suc m) \<and>
        n - k + 1 = sum_list (take (a - Suc m) ks) + d" by simp
    moreover from this have "a - m = Suc (a - Suc m)" by linarith
    ultimately show ?thesis using False by (simp, linarith)
  qed
qed simp

lemma Date_days:
  assumes "Date n = (y, m, d)"
  shows "1 \<le> m \<and> m \<le> 12 \<and> 1 \<le> d \<and> d \<le> daysIn m y \<and> dateDays y m d = int n"
proof -
  obtain x where x: "yearLoop 1 n = (y, x)" "monthLoop 1 (monthLengths y) x = (m, d)"
    using assms by (auto simp: Date_def split: prod.splits)
  have "x < sum_list (monthLengths y)" using yearLoop_bounds [OF x(1)] by (simp add: sum_monthLengths)
  note ml = monthLoop_start [OF this x(2)]
  have "yearStart 1 = 0" by (simp add: yearDays_def isLeap_def)
  then have "yearStart y + int x = int n" using yearLoop_start [OF x(1)] by simp
  moreover have "length (monthLengths y) = 12" by (simp add: monthLengths_def)
  ultimately show ?thesis using ml by (auto simp: dateDays_def daysIn_def)
qed

section \<open>What is written is read back\<close>

lemma nat_time_parts:
  fixes n :: nat
  defines "s \<equiv> n div 1000000000"
  shows "(((s div 60 div 60 div 24 * 24 + s div 60 div 60 mod 24) * 60 + s div 60 mod 60) * 60 + s mod 60) * 1000000000 +
    n mod 1000000000 = n"
  unfolding s_def by simp

lemma parse_ts:
  assumes t: "0 \<le> t" and y: "Year t \<le> 9999"
  shows "parseRFC3339 (ts t) = Some t"
proof -
  define n where "n = nat t"
  define s where "s = n div 1000000000"
  define h where "h = s div 60 div 60"
  obtain yr mo da where D: "Date (h div 24) = (yr, mo, da)" by (cases "Date (h div 24)")
  have "yr \<le> 9999" using y D by (simp add: Year_def h_def s_def n_def flip: div_mult2_eq)
  note dd = Date_days [OF D] Date_bounds [OF D]
  let ?t = "digits 4 yr @ ''-'' @ digits 2 mo @ ''-'' @ digits 2 da @ ''T'' @ digits 2 (h mod 24) @ '':'' @
      digits 2 (s div 60 mod 60) @ '':'' @ digits 2 (s mod 60) @ ''.'' @ digits 9 (n mod 1000000000) @ ''Z''"
  have "ts t = ?t"
    using \<open>yr \<le> 9999\<close> dd D by (simp add: ts_def Let_def n_def [symmetric] s_def [symmetric] h_def [symmetric] natStr_digits)
  moreover have "parseFraction (drop 19 ?t) = (n mod 1000000000, ''Z'')"
    using parseFraction_digits [of "n mod 1000000000"] by simp
  ultimately have "parseRFC3339 (ts t) =
      Some ((((int (h div 24) * 24 + int (h mod 24)) * 60 + int (s div 60 mod 60)) * 60 + int (s mod 60)) * 1000000000 +
        int (n mod 1000000000))"
    using \<open>yr \<le> 9999\<close> dd by (simp add: parseRFC3339_def parseUint_digits nth_append parseZone_def)
  also have "\<dots> = Some (int n)"
    using arg_cong [OF nat_time_parts [of n], of int] unfolding h_def s_def by (simp only: of_nat_add of_nat_mult of_nat_numeral)
  finally show ?thesis using t by (simp add: n_def)
qed

lemma parseTS_ts: "0 \<le> t \<Longrightarrow> Year t \<le> 9999 \<Longrightarrow> parseTS lenient (ts t) = t"
  by (simp add: parseTS_def parse_ts)

end
