(* ===== verification/Rows.thy ===== *)
theory Rows
  imports Ingest Retention ParseTime
begin

text \<open>
  The rows behind the tables: what \<^verbatim>\<open>src/internal/store\<close> binds to the placeholders of its statements and
  how the \<open>scan\<close> functions read it back. The other theories keep a row as the Go value it is scanned into; here
  are the columns of the schema, with times as text, booleans as 0 and 1, JSON text, and nullable columns as options, and the queries
  with their \<open>WHERE\<close> and \<open>ORDER BY\<close> clauses on those columns. The theorems show that the two agree.

  JSON is an argument: \<open>json.Marshal\<close> of a map of strings and of a watch configuration cannot fail, so the encoders are
  total; that a text is read back is a hypothesis about the values stored (\<open>storable\<close>), as Go's encoder replaces
  bytes that are not UTF-8.
\<close>

section \<open>The columns\<close>

record event_row =
  er_id :: string
  er_type :: string
  er_source :: string
  er_payload :: string
  er_created_at :: string

record rule_row =
  rr_id :: string
  rr_event_type :: string
  rr_event_source :: string
  rr_action_kind :: string
  rr_session_id :: string
  rr_prompt_template :: string
  rr_label :: string
  rr_one_shot :: int
  rr_consumed :: int
  rr_expires_at :: "string option"
  rr_created_at :: string

record session_row =
  sr_session_id :: string
  sr_agent :: string
  sr_repo_path :: string
  sr_state :: string
  sr_created_at :: string
  sr_updated_at :: string

record cont_row =
  cr_id :: string
  cr_rule_id :: string
  cr_event_id :: string
  cr_session_id :: string
  cr_prompt :: string
  cr_label :: string
  cr_state :: string
  cr_command :: string
  cr_exit_code :: "int option"
  cr_output_summary :: string
  cr_created_at :: string
  cr_updated_at :: string

record watch_row =
  wr_id :: string
  wr_type :: string
  wr_target :: string
  wr_config :: string
  wr_created_at :: string

record tables =
  t_events :: "event_row list"
  t_rules :: "rule_row list"
  t_sessions :: "session_row list"
  t_continuations :: "cont_row list"
  t_watches :: "watch_row list"

record column_codec =
  co_encPayload :: "(string \<rightharpoonup> string) \<Rightarrow> string"
  co_decPayload :: "string \<Rightarrow> error + (string \<rightharpoonup> string)"
  co_encConfig :: "Config \<Rightarrow> string"
  co_decConfig :: "string \<Rightarrow> error + Config"
  co_lenient :: "string \<Rightarrow> time option"
    \<comment> \<open>the fallback of \<open>time.Parse\<close>\<close>

section \<open>Writing\<close>

definition boolInt :: "bool \<Rightarrow> int" where
  "boolInt b = (if b then 1 else 0)"

definition eventRow :: "column_codec \<Rightarrow> Event \<Rightarrow> event_row" where
  "eventRow cc ev = \<lparr>er_id = ev_ID ev, er_type = ev_Type ev, er_source = ev_Source ev,
     er_payload = co_encPayload cc (ev_Payload ev), er_created_at = ts (ev_Timestamp ev)\<rparr>"

definition ruleRow :: "Rule \<Rightarrow> rule_row" where
  "ruleRow r = \<lparr>rr_id = r_ID r, rr_event_type = sel_Type (r_Selector r), rr_event_source = sel_Source (r_Selector r),
     rr_action_kind = r_ActionKind r, rr_session_id = r_SessionID r, rr_prompt_template = r_PromptTemplate r,
     rr_label = r_Label r, rr_one_shot = boolInt (r_OneShot r), rr_consumed = boolInt (r_Consumed r),
     rr_expires_at = (case r_ExpiresAt r of None \<Rightarrow> None | Some e \<Rightarrow> Some (ts e)), rr_created_at = ts (r_CreatedAt r)\<rparr>"

definition sessionRow :: "Session \<Rightarrow> session_row" where
  "sessionRow s = \<lparr>sr_session_id = s_SessionID s, sr_agent = s_Agent s, sr_repo_path = s_RepoPath s,
     sr_state = s_State s, sr_created_at = ts (s_CreatedAt s), sr_updated_at = ts (s_UpdatedAt s)\<rparr>"

definition contRow :: "Continuation \<Rightarrow> cont_row" where
  "contRow c = \<lparr>cr_id = c_ID c, cr_rule_id = c_RuleID c, cr_event_id = c_EventID c, cr_session_id = c_SessionID c,
     cr_prompt = c_Prompt c, cr_label = c_Label c, cr_state = c_State c, cr_command = c_Command c,
     cr_exit_code = c_ExitCode c, cr_output_summary = c_OutputSummary c, cr_created_at = ts (c_CreatedAt c),
     cr_updated_at = ts (c_UpdatedAt c)\<rparr>"

definition watchRow :: "column_codec \<Rightarrow> Watch \<Rightarrow> watch_row" where
  "watchRow cc w = \<lparr>wr_id = w_ID w, wr_type = w_Type w, wr_target = w_Target w,
     wr_config = co_encConfig cc (w_Config w), wr_created_at = ts (w_CreatedAt w)\<rparr>"

definition rowsOf :: "column_codec \<Rightarrow> database \<Rightarrow> tables" where
  "rowsOf cc d = \<lparr>t_events = map (eventRow cc) (events d), t_rules = map ruleRow (rules d),
     t_sessions = map sessionRow (sessions d), t_continuations = map contRow (continuations d),
     t_watches = map (watchRow cc) (watches d)\<rparr>"

section \<open>Scanning\<close>

definition scanEvent :: "column_codec \<Rightarrow> event_row \<Rightarrow> error + Event" where
  "scanEvent cc row = (case co_decPayload cc (er_payload row) of
     Inl e \<Rightarrow> Inl e
   | Inr p \<Rightarrow> Inr \<lparr>ev_ID = er_id row, ev_Type = er_type row, ev_Source = er_source row, ev_Payload = p,
       ev_Timestamp = parseTS (co_lenient cc) (er_created_at row)\<rparr>)"

definition scanRule :: "column_codec \<Rightarrow> rule_row \<Rightarrow> error + Rule" where
  "scanRule cc row = Inr \<lparr>r_ID = rr_id row,
     r_Selector = \<lparr>sel_Type = rr_event_type row, sel_Source = rr_event_source row\<rparr>,
     r_ActionKind = rr_action_kind row, r_SessionID = rr_session_id row, r_PromptTemplate = rr_prompt_template row,
     r_Label = rr_label row, r_OneShot = (rr_one_shot row = 1), r_Consumed = (rr_consumed row = 1),
     r_ExpiresAt = (case rr_expires_at row of None \<Rightarrow> None | Some e \<Rightarrow> Some (parseTS (co_lenient cc) e)),
     r_CreatedAt = parseTS (co_lenient cc) (rr_created_at row)\<rparr>"

definition scanSession :: "column_codec \<Rightarrow> session_row \<Rightarrow> error + Session" where
  "scanSession cc row = Inr \<lparr>s_SessionID = sr_session_id row, s_Agent = sr_agent row, s_RepoPath = sr_repo_path row,
     s_State = sr_state row, s_CreatedAt = parseTS (co_lenient cc) (sr_created_at row),
     s_UpdatedAt = parseTS (co_lenient cc) (sr_updated_at row)\<rparr>"

definition scanContinuation :: "column_codec \<Rightarrow> cont_row \<Rightarrow> error + Continuation" where
  "scanContinuation cc row = Inr \<lparr>c_ID = cr_id row, c_RuleID = cr_rule_id row, c_EventID = cr_event_id row,
     c_SessionID = cr_session_id row, c_Prompt = cr_prompt row, c_Label = cr_label row, c_State = cr_state row,
     c_Command = cr_command row, c_ExitCode = cr_exit_code row, c_OutputSummary = cr_output_summary row,
     c_CreatedAt = parseTS (co_lenient cc) (cr_created_at row), c_UpdatedAt = parseTS (co_lenient cc) (cr_updated_at row)\<rparr>"

definition scanWatch :: "column_codec \<Rightarrow> watch_row \<Rightarrow> error + Watch" where
  "scanWatch cc row = (case co_decConfig cc (wr_config row) of
     Inl e \<Rightarrow> Inl e
   | Inr cfg \<Rightarrow> Inr \<lparr>w_ID = wr_id row, w_Type = wr_type row, w_Target = wr_target row, w_Config = cfg,
       w_CreatedAt = parseTS (co_lenient cc) (wr_created_at row)\<rparr>)"

fun scanAll :: "('r \<Rightarrow> error + 'a) \<Rightarrow> 'r list \<Rightarrow> error + 'a list" where
  \<comment> \<open>\<open>for rows.Next()\<close>: the first row that does not scan ends the call\<close>
  "scanAll scan [] = Inr []"
| "scanAll scan (row # rows) = (case scan row of
     Inl e \<Rightarrow> Inl e
   | Inr x \<Rightarrow> (case scanAll scan rows of Inl e \<Rightarrow> Inl e | Inr xs \<Rightarrow> Inr (x # xs)))"

section \<open>The queries\<close>

definition activeRow :: "time \<Rightarrow> rule_row \<Rightarrow> bool" where
  "activeRow now row \<longleftrightarrow> rr_consumed row = 0 \<and>
     (case rr_expires_at row of None \<Rightarrow> True | Some e \<Rightarrow> ts now < e)"

definition listEventRows :: "column_codec \<Rightarrow> string \<Rightarrow> int \<Rightarrow> tables \<Rightarrow> error + Event list" where
  "listEventRows cc evType limit t =
     (let limit = (if limit \<le> 0 then 100 else limit) in
      scanAll (scanEvent cc) (take (nat limit) (rev (sort_key (\<lambda>e. (er_created_at e, er_id e))
        (filter (\<lambda>e. evType \<noteq> [] \<longrightarrow> er_type e = evType) (t_events t))))))"

definition listRuleRows :: "column_codec \<Rightarrow> bool \<Rightarrow> time \<Rightarrow> tables \<Rightarrow> error + Rule list" where
  "listRuleRows cc includeInactive now t =
     scanAll (scanRule cc) (sort_key rr_created_at
       (filter (\<lambda>r. includeInactive \<or> activeRow now r) (t_rules t)))"

definition matchRows :: "column_codec \<Rightarrow> Event \<Rightarrow> time \<Rightarrow> tables \<Rightarrow> error + Rule list" where
  "matchRows cc ev now t =
     scanAll (scanRule cc) (filter (\<lambda>r. rr_event_type r = ev_Type ev \<and>
       (rr_event_source r = [] \<or> rr_event_source r = ev_Source ev) \<and> activeRow now r) (t_rules t))"

definition getSessionRow :: "column_codec \<Rightarrow> string \<Rightarrow> tables \<Rightarrow> error + Session option" where
  "getSessionRow cc i t = (case find (\<lambda>s. sr_session_id s = i) (t_sessions t) of
     None \<Rightarrow> Inr None
   | Some row \<Rightarrow> (case scanSession cc row of Inl e \<Rightarrow> Inl e | Inr s \<Rightarrow> Inr (Some s)))"

definition listSessionRows :: "column_codec \<Rightarrow> tables \<Rightarrow> error + Session list" where
  "listSessionRows cc t = scanAll (scanSession cc) (sort_key sr_created_at (t_sessions t))"

definition pendingSessionRows :: "tables \<Rightarrow> string list" where
  "pendingSessionRows t = sort (remdups (map cr_session_id
     (filter (\<lambda>c. cr_state c = ''pending'') (t_continuations t))))"

definition nextPendingRow :: "column_codec \<Rightarrow> string \<Rightarrow> tables \<Rightarrow> error + Continuation option" where
  "nextPendingRow cc sid t =
     (case sort_key (\<lambda>c. (cr_created_at c, cr_id c))
         (filter (\<lambda>c. cr_session_id c = sid \<and> cr_state c = ''pending'') (t_continuations t)) of
       [] \<Rightarrow> Inr None
     | row # _ \<Rightarrow> (case scanContinuation cc row of Inl e \<Rightarrow> Inl e | Inr c \<Rightarrow> Inr (Some c)))"

definition listContinuationRows :: "column_codec \<Rightarrow> string \<Rightarrow> tables \<Rightarrow> error + Continuation list" where
  "listContinuationRows cc state t =
     scanAll (scanContinuation cc) (sort_key (\<lambda>c. (cr_created_at c, cr_id c))
       (filter (\<lambda>c. state \<noteq> [] \<longrightarrow> cr_state c = state) (t_continuations t)))"

definition listWatchRows :: "column_codec \<Rightarrow> tables \<Rightarrow> error + Watch list" where
  "listWatchRows cc t = scanAll (scanWatch cc) (sort_key (\<lambda>w. (wr_created_at w, wr_id w)) (t_watches t))"

section \<open>The statements that change rows\<close>

definition pruneEventRows :: "time \<Rightarrow> tables \<Rightarrow> tables" where
  \<comment> \<open>\<open>DELETE FROM events WHERE created_at < ?\<close>, of \<open>PruneEvents\<close> and of the sweep\<close>
  "pruneEventRows before t = t\<lparr>t_events := delete_where (\<lambda>e. er_created_at e < ts before) (t_events t)\<rparr>"

definition insertEventRow :: "event_row \<Rightarrow> tables \<Rightarrow> tables" where
  "insertEventRow row t = t\<lparr>t_events := fst (insert_or_ignore (\<lambda>x y. er_id x = er_id y) row (t_events t))\<rparr>"

definition consumeRuleRow :: "string \<Rightarrow> tables \<Rightarrow> tables" where
  "consumeRuleRow i t = t\<lparr>t_rules := update_where (\<lambda>r. rr_id r = i) (\<lambda>r. r\<lparr>rr_consumed := 1\<rparr>) (t_rules t)\<rparr>"

definition upsertSessionRow :: "session_row \<Rightarrow> tables \<Rightarrow> tables" where
  \<comment> \<open>\<open>ON CONFLICT(session_id) DO UPDATE\<close>\<close>
  "upsertSessionRow new t = t\<lparr>t_sessions := upsert (\<lambda>x y. sr_session_id x = sr_session_id y)
     (\<lambda>old. old\<lparr>sr_agent := sr_agent new, sr_repo_path := sr_repo_path new, sr_updated_at := sr_updated_at new\<rparr>)
     new (t_sessions t)\<rparr>"

definition setSessionRow :: "string \<Rightarrow> string \<Rightarrow> time \<Rightarrow> tables \<Rightarrow> tables" where
  "setSessionRow i st now t = t\<lparr>t_sessions := update_where (\<lambda>s. sr_session_id s = i)
     (\<lambda>s. s\<lparr>sr_state := st, sr_updated_at := ts now\<rparr>) (t_sessions t)\<rparr>"

definition insertContRow :: "cont_row \<Rightarrow> tables \<Rightarrow> tables \<times> nat" where
  \<comment> \<open>\<open>INSERT OR IGNORE\<close> of \<open>Ingest\<close>, with the affected rows\<close>
  "insertContRow row t = (case insert_or_ignore (\<lambda>x y. cr_id x = cr_id y \<or>
       (cr_rule_id x = cr_rule_id y \<and> cr_event_id x = cr_event_id y)) row (t_continuations t) of
     (cs, n) \<Rightarrow> (t\<lparr>t_continuations := cs\<rparr>, n))"

definition claimRow :: "string \<Rightarrow> time \<Rightarrow> tables \<Rightarrow> tables" where
  "claimRow i now t = t\<lparr>t_continuations := update_where (\<lambda>c. cr_id c = i \<and> cr_state c = ''pending'')
     (\<lambda>c. c\<lparr>cr_state := ''running'', cr_updated_at := ts now\<rparr>) (t_continuations t)\<rparr>"

definition resultRow :: "string \<Rightarrow> string \<Rightarrow> string \<Rightarrow> int option \<Rightarrow> string \<Rightarrow> time \<Rightarrow> tables \<Rightarrow> tables" where
  "resultRow i state command exit summary now t = t\<lparr>t_continuations := update_where (\<lambda>c. cr_id c = i)
     (\<lambda>c. c\<lparr>cr_state := state, cr_command := command, cr_exit_code := exit, cr_output_summary := summary,
        cr_updated_at := ts now\<rparr>) (t_continuations t)\<rparr>"

definition resetRows :: "time \<Rightarrow> tables \<Rightarrow> tables" where
  "resetRows now t = t\<lparr>t_continuations := update_where (\<lambda>c. cr_state c = ''running'')
     (\<lambda>c. c\<lparr>cr_state := ''pending'', cr_updated_at := ts now\<rparr>) (t_continuations t)\<rparr>"

definition sweepSessionRows :: "time \<Rightarrow> time \<Rightarrow> tables \<Rightarrow> tables" where
  "sweepSessionRows now cutoff t = t\<lparr>t_sessions := delete_where (\<lambda>s. sr_updated_at s < ts cutoff \<and>
     sr_state s \<noteq> ''running'' \<and> sr_session_id s \<notin> set (map rr_session_id (filter (activeRow now) (t_rules t)))) (t_sessions t)\<rparr>"

definition sweepContRows :: "time \<Rightarrow> tables \<Rightarrow> tables" where
  "sweepContRows cutoff t = t\<lparr>t_continuations := delete_where (\<lambda>c.
     (cr_state c = ''completed'' \<or> cr_state c = ''failed'') \<and> cr_updated_at c < ts cutoff) (t_continuations t)\<rparr>"

section \<open>Values that survive the columns\<close>

definition okTime :: "time \<Rightarrow> bool" where
  "okTime t \<longleftrightarrow> 0 \<le> t \<and> Year t \<le> 9999"

definition okEvent :: "column_codec \<Rightarrow> Event \<Rightarrow> bool" where
  "okEvent cc ev \<longleftrightarrow> okTime (ev_Timestamp ev) \<and> co_decPayload cc (co_encPayload cc (ev_Payload ev)) = Inr (ev_Payload ev)"

definition okRule :: "Rule \<Rightarrow> bool" where
  "okRule r \<longleftrightarrow> okTime (r_CreatedAt r) \<and> (case r_ExpiresAt r of None \<Rightarrow> True | Some e \<Rightarrow> okTime e)"

definition okSession :: "Session \<Rightarrow> bool" where
  "okSession s \<longleftrightarrow> okTime (s_CreatedAt s) \<and> okTime (s_UpdatedAt s)"

definition okCont :: "Continuation \<Rightarrow> bool" where
  "okCont c \<longleftrightarrow> okTime (c_CreatedAt c) \<and> okTime (c_UpdatedAt c)"

definition okWatch :: "column_codec \<Rightarrow> Watch \<Rightarrow> bool" where
  "okWatch cc w \<longleftrightarrow> okTime (w_CreatedAt w) \<and> co_decConfig cc (co_encConfig cc (w_Config w)) = Inr (w_Config w)"

definition storable :: "column_codec \<Rightarrow> database \<Rightarrow> bool" where
  "storable cc d \<longleftrightarrow> list_all (okEvent cc) (events d) \<and> list_all okRule (rules d) \<and> list_all okSession (sessions d) \<and>
     list_all okCont (continuations d) \<and> list_all (okWatch cc) (watches d)"

section \<open>Rows are read back\<close>

lemma ts_less_ok: "okTime t \<Longrightarrow> okTime u \<Longrightarrow> ts t < ts u \<longleftrightarrow> t < u"
  by (simp add: okTime_def ts_less)

lemma ts_le_ok: "okTime t \<Longrightarrow> okTime u \<Longrightarrow> ts t \<le> ts u \<longleftrightarrow> t \<le> u"
  by (simp add: ts_less_ok flip: not_less)

lemma sort_text:
  assumes "\<And>x. x \<in> set xs \<Longrightarrow> okTime (f x)"
  shows "sort_key (\<lambda>x. ts (f x)) xs = sort_key f xs"
    and "sort_key (\<lambda>x. (ts (f x), g x :: string)) xs = sort_key (\<lambda>x. (f x, g x)) xs"
proof -
  have le: "ts (f x) \<le> ts (f y) \<longleftrightarrow> f x \<le> f y" "ts (f x) < ts (f y) \<longleftrightarrow> f x < f y" if "x \<in> set xs" "y \<in> set xs" for x y
    using assms that by (simp_all add: ts_le_ok ts_less_ok)
  then show "sort_key (\<lambda>x. ts (f x)) xs = sort_key f xs" by (intro sort_key_cong_le) blast
  show "sort_key (\<lambda>x. (ts (f x), g x)) xs = sort_key (\<lambda>x. (f x, g x)) xs"
    using le by (intro sort_key_cong_le ballI) (simp add: less_eq_prod_def)
qed

lemma parse_ok: "okTime t \<Longrightarrow> parseTS lenient (ts t) = t"
  by (simp add: okTime_def parseTS_ts)

lemma sort_key_map: "sort_key f (map g xs) = map g (sort_key (\<lambda>x. f (g x)) xs)"
proof -
  have "insort_key f (g x) (map g ys) = map g (insort_key (\<lambda>x. f (g x)) x ys)" for x ys
    by (induction ys) auto
  then show ?thesis by (induction xs) auto
qed

text \<open>What a table relies on: a value that is good is read back from its row. Then a query on the rows, whatever its condition and
  its order, is the query on the values.\<close>

locale table_codec =
  fixes row :: "'a \<Rightarrow> 'r" and scan :: "'r \<Rightarrow> error + 'a" and good :: "'a \<Rightarrow> bool"
  assumes read_back: "good x \<Longrightarrow> scan (row x) = Inr x"
begin

lemma scan_rows: "list_all good xs \<Longrightarrow> scanAll scan (map row xs) = Inr xs"
  by (induction xs) (auto simp: read_back)

lemma filter_rows:
  assumes "list_all good xs" and "\<And>x. good x \<Longrightarrow> P' (row x) = P x"
  shows "filter P' (map row xs) = map row (filter P xs)"
  using assms by (induction xs) auto

lemma list_all_filter: "list_all good xs \<Longrightarrow> list_all good (filter P xs)"
  by (simp add: list_all_iff)

lemma query_rows:
  assumes "list_all good xs" and "\<And>x. good x \<Longrightarrow> P' (row x) = P x"
    and "\<And>ys. list_all good ys \<Longrightarrow> sort_key (\<lambda>x. k' (row x)) ys = sort_key k ys"
  shows "sort_key k' (filter P' (map row xs)) = map row (sort_key k (filter P xs))"
    and "scanAll scan (sort_key k' (filter P' (map row xs))) = Inr (sort_key k (filter P xs))"
    and "list_all good (sort_key k (filter P xs))"
proof -
  show g: "list_all good (sort_key k (filter P xs))" using assms(1) by (simp add: list_all_iff)
  show s: "sort_key k' (filter P' (map row xs)) = map row (sort_key k (filter P xs))"
    using assms(3) [OF list_all_filter [OF assms(1)]] filter_rows [of xs P' P, OF assms(1)] assms(2) by (simp add: sort_key_map)
  show "scanAll scan (sort_key k' (filter P' (map row xs))) = Inr (sort_key k (filter P xs))"
    unfolding s by (rule scan_rows [OF g])
qed

lemma find_rows:
  assumes "list_all good xs" and "\<And>x. good x \<Longrightarrow> P' (row x) = P x"
  shows "find P' (map row xs) = map_option row (find P xs)" and "find P xs = Some x \<Longrightarrow> scan (row x) = Inr x"
  using assms by (induction xs) (auto simp: read_back split: if_splits)

end

interpretation ev_rows: table_codec "eventRow cc" "scanEvent cc" "okEvent cc" for cc
  by unfold_locales (simp add: scanEvent_def eventRow_def okEvent_def parse_ok)

interpretation rule_rows: table_codec ruleRow "scanRule cc" okRule for cc
  by unfold_locales (auto simp: scanRule_def ruleRow_def okRule_def parse_ok boolInt_def split: option.splits)

interpretation session_rows: table_codec sessionRow "scanSession cc" okSession for cc
  by unfold_locales (simp add: scanSession_def sessionRow_def okSession_def parse_ok)

interpretation cont_rows: table_codec contRow "scanContinuation cc" okCont for cc
  by unfold_locales (simp add: scanContinuation_def contRow_def okCont_def parse_ok)

interpretation watch_rows: table_codec "watchRow cc" "scanWatch cc" "okWatch cc" for cc
  by unfold_locales (simp add: scanWatch_def watchRow_def okWatch_def parse_ok)

lemma active_row: "okTime now \<Longrightarrow> okRule r \<Longrightarrow> activeRow now (ruleRow r) \<longleftrightarrow> rule_active now r"
  by (auto simp: activeRow_def rule_active_def ruleRow_def boolInt_def okRule_def ts_less_ok split: option.splits)

lemma row_columns [simp]:
  "er_id (eventRow cc ev) = ev_ID ev" "er_type (eventRow cc ev) = ev_Type ev" "er_created_at (eventRow cc ev) = ts (ev_Timestamp ev)"
  "rr_id (ruleRow r) = r_ID r" "rr_event_type (ruleRow r) = sel_Type (r_Selector r)"
  "rr_event_source (ruleRow r) = sel_Source (r_Selector r)" "rr_session_id (ruleRow r) = r_SessionID r"
  "rr_created_at (ruleRow r) = ts (r_CreatedAt r)"
  "sr_session_id (sessionRow s) = s_SessionID s" "sr_state (sessionRow s) = s_State s"
  "sr_created_at (sessionRow s) = ts (s_CreatedAt s)" "sr_updated_at (sessionRow s) = ts (s_UpdatedAt s)"
  "cr_id (contRow c) = c_ID c" "cr_rule_id (contRow c) = c_RuleID c" "cr_event_id (contRow c) = c_EventID c"
  "cr_session_id (contRow c) = c_SessionID c" "cr_state (contRow c) = c_State c"
  "cr_created_at (contRow c) = ts (c_CreatedAt c)" "cr_updated_at (contRow c) = ts (c_UpdatedAt c)"
  "wr_id (watchRow cc w) = w_ID w" "wr_created_at (watchRow cc w) = ts (w_CreatedAt w)"
  by (simp_all add: eventRow_def ruleRow_def sessionRow_def contRow_def watchRow_def)

lemma rowsOf_tables [simp]:
  "t_events (rowsOf cc d) = map (eventRow cc) (events d)" "t_rules (rowsOf cc d) = map ruleRow (rules d)"
  "t_sessions (rowsOf cc d) = map sessionRow (sessions d)" "t_continuations (rowsOf cc d) = map contRow (continuations d)"
  "t_watches (rowsOf cc d) = map (watchRow cc) (watches d)"
  by (simp_all add: rowsOf_def)

lemma storable_tables:
  "storable cc d \<Longrightarrow> list_all (okEvent cc) (events d) \<and> list_all okRule (rules d) \<and> list_all okSession (sessions d) \<and>
     list_all okCont (continuations d) \<and> list_all (okWatch cc) (watches d)"
  by (simp add: storable_def)

lemma storableD:
  assumes "storable cc d"
  shows "x1 \<in> set (events d) \<Longrightarrow> okEvent cc x1" "x2 \<in> set (rules d) \<Longrightarrow> okRule x2" "x3 \<in> set (sessions d) \<Longrightarrow> okSession x3"
    "x4 \<in> set (continuations d) \<Longrightarrow> okCont x4" "x5 \<in> set (watches d) \<Longrightarrow> okWatch cc x5"
  using assms by (auto simp: storable_def list_all_iff)

lemma sort_good:
  "list_all (okEvent cc) es \<Longrightarrow> sort_key (\<lambda>e. (er_created_at (eventRow cc e), er_id (eventRow cc e))) es = sort_key (\<lambda>e. (ev_Timestamp e, ev_ID e)) es"
  "list_all okRule rs \<Longrightarrow> sort_key (\<lambda>r. rr_created_at (ruleRow r)) rs = sort_key r_CreatedAt rs"
  "list_all okSession ss \<Longrightarrow> sort_key (\<lambda>s. sr_created_at (sessionRow s)) ss = sort_key s_CreatedAt ss"
  "list_all okCont cs \<Longrightarrow> sort_key (\<lambda>c. (cr_created_at (contRow c), cr_id (contRow c))) cs = sort_key (\<lambda>c. (c_CreatedAt c, c_ID c)) cs"
  "list_all (okWatch cc) ws \<Longrightarrow> sort_key (\<lambda>w. (wr_created_at (watchRow cc w), wr_id (watchRow cc w))) ws = sort_key (\<lambda>w. (w_CreatedAt w, w_ID w)) ws"
  unfolding row_columns
  by (intro sort_text; simp add: list_all_iff okEvent_def okRule_def okSession_def okCont_def okWatch_def)+

lemma read_events:
  assumes "storable cc d"
  shows "listEventRows cc ty n (rowsOf cc d) = Inr (take (nat (if n \<le> 0 then 100 else n))
    (rev (sort_key (\<lambda>e. (ev_Timestamp e, ev_ID e)) (filter (\<lambda>e. ty \<noteq> [] \<longrightarrow> ev_Type e = ty) (events d)))))"
proof -
  have g: "list_all (okEvent cc) (events d)" using storable_tables [OF assms] by simp
  note q = ev_rows.query_rows [OF g _ sort_good(1), of "\<lambda>e. ty \<noteq> [] \<longrightarrow> er_type e = ty" "\<lambda>e. ty \<noteq> [] \<longrightarrow> ev_Type e = ty"]
  have "list_all (okEvent cc) (take k (rev (sort_key (\<lambda>e. (ev_Timestamp e, ev_ID e)) (filter (\<lambda>e. ty \<noteq> [] \<longrightarrow> ev_Type e = ty) (events d)))))" for k
    using q(3) by (auto simp: list_all_iff dest: in_set_takeD)
  then show ?thesis using q(1) by (simp add: listEventRows_def Let_def rev_map take_map ev_rows.scan_rows)
qed

lemma read_rules:
  assumes "storable cc d" and "okTime now"
  shows "listRuleRows cc b now (rowsOf cc d) = Inr (sort_key r_CreatedAt (filter (\<lambda>r. b \<or> rule_active now r) (rules d)))"
    and "matchRows cc ev now (rowsOf cc d) = Inr (filter (ruleQuery ev now) (rules d))"
proof -
  have g: "list_all okRule (rules d)" using storable_tables [OF assms(1)] by simp
  show "listRuleRows cc b now (rowsOf cc d) = Inr (sort_key r_CreatedAt (filter (\<lambda>r. b \<or> rule_active now r) (rules d)))"
    unfolding listRuleRows_def rowsOf_tables by (rule rule_rows.query_rows(2) [OF g _ sort_good(2)]) (simp_all add: active_row [OF assms(2)])
  show "matchRows cc ev now (rowsOf cc d) = Inr (filter (ruleQuery ev now) (rules d))"
    unfolding matchRows_def rowsOf_tables
    by (subst rule_rows.filter_rows [OF g, where P = "ruleQuery ev now"])
      (simp_all add: active_row [OF assms(2)] ruleQuery_def rule_rows.scan_rows rule_rows.list_all_filter g)
qed

lemma read_sessions:
  assumes "storable cc d"
  shows "listSessionRows cc (rowsOf cc d) = Inr (sort_key s_CreatedAt (sessions d))"
    and "getSessionRow cc i (rowsOf cc d) = Inr (find (\<lambda>s. s_SessionID s = i) (sessions d))"
proof -
  have g: "list_all okSession (sessions d)" using storable_tables [OF assms] by simp
  show "listSessionRows cc (rowsOf cc d) = Inr (sort_key s_CreatedAt (sessions d))"
    using session_rows.query_rows(2) [OF g _ sort_good(3), of "\<lambda>_. True" "\<lambda>_. True" cc] by (simp add: listSessionRows_def)
  note f = session_rows.find_rows [OF g, of "\<lambda>s. sr_session_id s = i" "\<lambda>s. s_SessionID s = i"]
  show "getSessionRow cc i (rowsOf cc d) = Inr (find (\<lambda>s. s_SessionID s = i) (sessions d))"
    using f by (cases "find (\<lambda>s. s_SessionID s = i) (sessions d)") (simp_all add: getSessionRow_def)
qed

lemma read_conts:
  assumes "storable cc d"
  shows "listContinuationRows cc st (rowsOf cc d) = Inr (sort_key (\<lambda>c. (c_CreatedAt c, c_ID c))
      (filter (\<lambda>c. st \<noteq> [] \<longrightarrow> c_State c = st) (continuations d)))"
    and "nextPendingRow cc sid (rowsOf cc d) = Inr (case sort_key (\<lambda>c. (c_CreatedAt c, c_ID c)) (pendingOf sid d) of
      [] \<Rightarrow> None | c # _ \<Rightarrow> Some c)"
    and "pendingSessionRows (rowsOf cc d) = sort (remdups (map c_SessionID
      (filter (\<lambda>c. c_State c = ContinuationPending) (continuations d))))"
proof -
  have g: "list_all okCont (continuations d)" using storable_tables [OF assms] by simp
  show "listContinuationRows cc st (rowsOf cc d) = Inr (sort_key (\<lambda>c. (c_CreatedAt c, c_ID c))
      (filter (\<lambda>c. st \<noteq> [] \<longrightarrow> c_State c = st) (continuations d)))"
    unfolding listContinuationRows_def rowsOf_tables by (rule cont_rows.query_rows(2) [OF g _ sort_good(4)]) simp_all
  have p: "pendingOf sid d = filter (\<lambda>c. c_SessionID c = sid \<and> c_State c = ''pending'') (continuations d)"
    by (simp add: pendingOf_def ContinuationPending_def)
  note q = cont_rows.query_rows [OF g _ sort_good(4), of "\<lambda>c. cr_session_id c = sid \<and> cr_state c = ''pending''"
      "\<lambda>c. c_SessionID c = sid \<and> c_State c = ''pending''", folded p]
  show "nextPendingRow cc sid (rowsOf cc d) = Inr (case sort_key (\<lambda>c. (c_CreatedAt c, c_ID c)) (pendingOf sid d) of
      [] \<Rightarrow> None | c # _ \<Rightarrow> Some c)"
    using q(1,3) by (auto simp: nextPendingRow_def cont_rows.read_back split: list.split)
  show "pendingSessionRows (rowsOf cc d) = sort (remdups (map c_SessionID
      (filter (\<lambda>c. c_State c = ContinuationPending) (continuations d))))"
    by (simp add: pendingSessionRows_def filter_map comp_def ContinuationPending_def)
qed

lemma read_watches:
  assumes "storable cc d"
  shows "listWatchRows cc (rowsOf cc d) = Inr (sort_key (\<lambda>w. (w_CreatedAt w, w_ID w)) (watches d))"
proof -
  have g: "list_all (okWatch cc) (watches d)" using storable_tables [OF assms] by simp
  show ?thesis
    using watch_rows.query_rows(2) [OF g _ sort_good(5), of "\<lambda>_. True" "\<lambda>_. True"] by (simp add: listWatchRows_def)
qed

section \<open>Statements on rows are the statements of the model\<close>

lemma map_tables:
  "fst (insert_or_ignore conf' (f x) (map f xs)) = map f (fst (insert_or_ignore conf x xs))"
  "snd (insert_or_ignore conf' (f x) (map f xs)) = snd (insert_or_ignore conf x xs)"
  if "\<And>y. conf' (f y) (f x) = conf y x" for x xs
  using that by (simp_all add: insert_or_ignore_def list_ex_iff)

lemma map_update_where:
  "(\<And>x. x \<in> set xs \<Longrightarrow> P' (f x) = P x) \<Longrightarrow> (\<And>x. g' (f x) = f (g x)) \<Longrightarrow> update_where P' g' (map f xs) = map f (update_where P g xs)"
  by (simp add: update_where_def)

lemma map_delete_where:
  "(\<And>x. x \<in> set xs \<Longrightarrow> P' (f x) = P x) \<Longrightarrow> delete_where P' (map f xs) = map f (delete_where P xs)"
  by (simp add: delete_where_def filter_map comp_def cong: filter_cong)

lemma map_upsert:
  "(\<And>y. conf' (f y) (f x) = conf y x) \<Longrightarrow> (\<And>y. g' (f y) = f (g y)) \<Longrightarrow> upsert conf' g' (f x) (map f xs) = map f (upsert conf g x xs)"
  by (simp add: upsert_def list_ex_iff map_update_where)

lemma write_events:
  "rowsOf cc (d\<lparr>events := fst (insert_or_ignore conf_event ev (events d))\<rparr>) = insertEventRow (eventRow cc ev) (rowsOf cc d)"
  "storable cc d \<Longrightarrow> okTime before \<Longrightarrow>
    rowsOf cc (d\<lparr>events := delete_where (\<lambda>e. ev_Timestamp e < before) (events d)\<rparr>) = pruneEventRows before (rowsOf cc d)"
proof -
  show "rowsOf cc (d\<lparr>events := fst (insert_or_ignore conf_event ev (events d))\<rparr>) = insertEventRow (eventRow cc ev) (rowsOf cc d)"
    by (simp add: rowsOf_def insertEventRow_def map_tables(1) [where conf = conf_event] conf_event_def)
  assume a: "storable cc d" "okTime before"
  have "delete_where (\<lambda>e. er_created_at e < ts before) (map (eventRow cc) (events d)) =
      map (eventRow cc) (delete_where (\<lambda>e. ev_Timestamp e < before) (events d))"
    using storableD(1) [OF a(1)] a(2) by (intro map_delete_where) (auto simp: ts_less_ok okEvent_def)
  then show "rowsOf cc (d\<lparr>events := delete_where (\<lambda>e. ev_Timestamp e < before) (events d)\<rparr>) = pruneEventRows before (rowsOf cc d)"
    by (simp add: rowsOf_def pruneEventRows_def)
qed

lemma write_rules_sessions:
  "rowsOf cc (d\<lparr>rules := update_where (\<lambda>r. r_ID r = i) (\<lambda>r. r\<lparr>r_Consumed := True\<rparr>) (rules d)\<rparr>) = consumeRuleRow i (rowsOf cc d)"
  "rowsOf cc (upsertSession s d) = upsertSessionRow (sessionRow s) (rowsOf cc d)"
  "rowsOf cc (d\<lparr>sessions := update_where (\<lambda>s. s_SessionID s = i) (\<lambda>s. s\<lparr>s_State := st, s_UpdatedAt := now\<rparr>) (sessions d)\<rparr>) =
    setSessionRow i st now (rowsOf cc d)"
proof -
  have "update_where (\<lambda>r. rr_id r = i) (\<lambda>r. r\<lparr>rr_consumed := 1\<rparr>) (map ruleRow (rules d)) =
      map ruleRow (update_where (\<lambda>r. r_ID r = i) (\<lambda>r. r\<lparr>r_Consumed := True\<rparr>) (rules d))"
    by (rule map_update_where) (simp_all add: ruleRow_def boolInt_def)
  then show "rowsOf cc (d\<lparr>rules := update_where (\<lambda>r. r_ID r = i) (\<lambda>r. r\<lparr>r_Consumed := True\<rparr>) (rules d)\<rparr>) = consumeRuleRow i (rowsOf cc d)"
    by (simp add: rowsOf_def consumeRuleRow_def)
  have "upsert (\<lambda>x y. sr_session_id x = sr_session_id y)
      (\<lambda>old. old\<lparr>sr_agent := sr_agent (sessionRow s), sr_repo_path := sr_repo_path (sessionRow s), sr_updated_at := sr_updated_at (sessionRow s)\<rparr>)
      (sessionRow s) (map sessionRow (sessions d)) =
      map sessionRow (upsert conf_session (\<lambda>old. old\<lparr>s_Agent := s_Agent s, s_RepoPath := s_RepoPath s, s_UpdatedAt := s_UpdatedAt s\<rparr>) s (sessions d))"
    by (rule map_upsert) (simp_all add: sessionRow_def conf_session_def)
  then show "rowsOf cc (upsertSession s d) = upsertSessionRow (sessionRow s) (rowsOf cc d)"
    by (simp add: rowsOf_def upsertSessionRow_def upsertSession_def)
  have "update_where (\<lambda>s. sr_session_id s = i) (\<lambda>s. s\<lparr>sr_state := st, sr_updated_at := ts now\<rparr>) (map sessionRow (sessions d)) =
      map sessionRow (update_where (\<lambda>s. s_SessionID s = i) (\<lambda>s. s\<lparr>s_State := st, s_UpdatedAt := now\<rparr>) (sessions d))"
    by (rule map_update_where) (simp_all add: sessionRow_def)
  then show "rowsOf cc (d\<lparr>sessions := update_where (\<lambda>s. s_SessionID s = i) (\<lambda>s. s\<lparr>s_State := st, s_UpdatedAt := now\<rparr>) (sessions d)\<rparr>) =
      setSessionRow i st now (rowsOf cc d)"
    by (simp add: rowsOf_def setSessionRow_def)
qed

lemma cont_update:
  assumes "\<And>c. P' (contRow c) = P c" and "\<And>c. g' (contRow c) = contRow (g c)"
  shows "rowsOf cc (d\<lparr>continuations := update_where P g (continuations d)\<rparr>) =
    (rowsOf cc d)\<lparr>t_continuations := update_where P' g' (t_continuations (rowsOf cc d))\<rparr>"
  using map_update_where [of "continuations d" P' contRow P g' g] assms by (simp add: rowsOf_def)

lemma write_conts:
  "rowsOf cc (d\<lparr>continuations := update_where (claimable i) (\<lambda>c. c\<lparr>c_State := ContinuationRunning, c_UpdatedAt := now\<rparr>) (continuations d)\<rparr>) =
    claimRow i now (rowsOf cc d)"
  "rowsOf cc (d\<lparr>continuations := update_where (\<lambda>c. c_ID c = i) (\<lambda>c. c\<lparr>c_State := state, c_Command := command, c_ExitCode := exit,
      c_OutputSummary := summary, c_UpdatedAt := now\<rparr>) (continuations d)\<rparr>) = resultRow i state command exit summary now (rowsOf cc d)"
  "rowsOf cc (d\<lparr>continuations := update_where (\<lambda>c. c_State c = ContinuationRunning)
      (\<lambda>c. c\<lparr>c_State := ContinuationPending, c_UpdatedAt := now\<rparr>) (continuations d)\<rparr>) = resetRows now (rowsOf cc d)"
  unfolding claimRow_def resultRow_def resetRows_def
  by (rule cont_update; simp add: contRow_def claimable_def ContinuationPending_def ContinuationRunning_def)+

lemma write_sweep:
  assumes ok: "storable cc d" and t: "okTime now" "okTime sc" "okTime cc'"
  shows "rowsOf cc (d\<lparr>sessions := delete_where (sweepSession now sc (rules d)) (sessions d)\<rparr>) = sweepSessionRows now sc (rowsOf cc d)"
    and "rowsOf cc (d\<lparr>continuations := delete_where (sweepCont cc') (continuations d)\<rparr>) = sweepContRows cc' (rowsOf cc d)"
proof -
  have "filter (activeRow now \<circ> ruleRow) (rules d) = filter (rule_active now) (rules d)"
    using storableD(2) [OF ok] active_row [OF t(1)] by (intro filter_cong) auto
  then have r: "map rr_session_id (filter (activeRow now) (map ruleRow (rules d))) = map r_SessionID (filter (rule_active now) (rules d))"
    by (simp add: filter_map comp_def)
  have "delete_where (\<lambda>s. sr_updated_at s < ts sc \<and> sr_state s \<noteq> ''running'' \<and>
      sr_session_id s \<notin> set (map rr_session_id (filter (activeRow now) (map ruleRow (rules d))))) (map sessionRow (sessions d)) =
      map sessionRow (delete_where (sweepSession now sc (rules d)) (sessions d))"
    using storableD(3) [OF ok] t unfolding r
    by (intro map_delete_where) (auto simp: sweepSession_def ts_less_ok okSession_def SessionRunning_def)
  then show "rowsOf cc (d\<lparr>sessions := delete_where (sweepSession now sc (rules d)) (sessions d)\<rparr>) = sweepSessionRows now sc (rowsOf cc d)"
    by (simp add: rowsOf_def sweepSessionRows_def)
  have "delete_where (\<lambda>c. (cr_state c = ''completed'' \<or> cr_state c = ''failed'') \<and> cr_updated_at c < ts cc') (map contRow (continuations d)) =
      map contRow (delete_where (sweepCont cc') (continuations d))"
    using storableD(4) [OF ok] t
    by (intro map_delete_where) (auto simp: sweepCont_def ts_less_ok okCont_def ContinuationCompleted_def ContinuationFailed_def)
  then show "rowsOf cc (d\<lparr>continuations := delete_where (sweepCont cc') (continuations d)\<rparr>) = sweepContRows cc' (rowsOf cc d)"
    by (simp add: rowsOf_def sweepContRows_def)
qed

section \<open>Values stay storable\<close>

lemma storable_upd:
  "storable cc d \<Longrightarrow> list_all (okEvent cc) es \<Longrightarrow> storable cc (d\<lparr>events := es\<rparr>)"
  "storable cc d \<Longrightarrow> list_all okRule rs \<Longrightarrow> storable cc (d\<lparr>rules := rs\<rparr>)"
  "storable cc d \<Longrightarrow> list_all okSession ss \<Longrightarrow> storable cc (d\<lparr>sessions := ss\<rparr>)"
  "storable cc d \<Longrightarrow> list_all okCont cs \<Longrightarrow> storable cc (d\<lparr>continuations := cs\<rparr>)"
  "storable cc d \<Longrightarrow> list_all (okWatch cc) ws \<Longrightarrow> storable cc (d\<lparr>watches := ws\<rparr>)"
  by (simp_all add: storable_def)

lemma ok_statements:
  "list_all P xs \<Longrightarrow> list_all P (delete_where Q xs)"
  "list_all P xs \<Longrightarrow> P x \<Longrightarrow> list_all P (fst (insert_or_ignore conf x xs))"
  "list_all P xs \<Longrightarrow> (\<And>x. P x \<Longrightarrow> P (f x)) \<Longrightarrow> list_all P (update_where Q f xs)"
  "list_all P xs \<Longrightarrow> P x \<Longrightarrow> (\<And>x. P x \<Longrightarrow> P (f x)) \<Longrightarrow> list_all P (upsert conf f x xs)"
  by (auto simp: list_all_iff delete_where_def insert_or_ignore_def update_where_def upsert_def)

lemma swept_steps:
  "swept now p d = (let d1 = d\<lparr>sessions := delete_where (sweepSession now (now - SessionIdle p) (rules d)) (sessions d)\<rparr>;
     d2 = d1\<lparr>continuations := delete_where (sweepCont (now - ContinuationAge p)) (continuations d1)\<rparr>
     in d2\<lparr>events := delete_where (\<lambda>e. ev_Timestamp e < now - EventAge p) (events d2)\<rparr>)"
  by (simp add: swept_def Let_def delete_sweeps sweepEvent_def [symmetric, abs_def])

lemma rows_swept:
  assumes ok: "storable cc d" and t: "okTime now" "okTime (now - SessionIdle p)" "okTime (now - ContinuationAge p)" "okTime (now - EventAge p)"
  shows "storable cc (swept now p d) \<and> rowsOf cc (swept now p d) =
    pruneEventRows (now - EventAge p) (sweepContRows (now - ContinuationAge p) (sweepSessionRows now (now - SessionIdle p) (rowsOf cc d)))"
proof -
  let ?d1 = "d\<lparr>sessions := delete_where (sweepSession now (now - SessionIdle p) (rules d)) (sessions d)\<rparr>"
  let ?d2 = "?d1\<lparr>continuations := delete_where (sweepCont (now - ContinuationAge p)) (continuations ?d1)\<rparr>"
  have ok1: "storable cc ?d1" and ok2: "storable cc ?d2"
    using storable_tables [OF ok] by (auto intro!: storable_upd ok ok_statements)
  have "swept now p d = ?d2\<lparr>events := delete_where (\<lambda>e. ev_Timestamp e < now - EventAge p) (events ?d2)\<rparr>"
    by (simp add: swept_steps Let_def)
  moreover have "storable cc (?d2\<lparr>events := delete_where (\<lambda>e. ev_Timestamp e < now - EventAge p) (events ?d2)\<rparr>)"
    using storable_tables [OF ok2] by (intro storable_upd ok2 ok_statements) simp
  moreover note write_events(2) [OF ok2 t(4)] write_sweep(2) [OF ok1 t(1,3,3)] write_sweep(1) [OF ok t(1,2,2)]
  ultimately show ?thesis by simp
qed

lemma storable_statements:
  assumes ok: "storable cc d"
  shows "okEvent cc ev \<Longrightarrow> storable cc (d\<lparr>events := fst (insert_or_ignore conf_event ev (events d))\<rparr>)"
    "storable cc (d\<lparr>events := delete_where P (events d)\<rparr>)"
    "storable cc (d\<lparr>rules := update_where (\<lambda>r. r_ID r = i) (\<lambda>r. r\<lparr>r_Consumed := True\<rparr>) (rules d)\<rparr>)"
    "okCont c \<Longrightarrow> storable cc (d\<lparr>continuations := fst (insert_or_ignore conf_cont c (continuations d))\<rparr>)"
    "(\<And>c. okCont c \<Longrightarrow> okCont (f c)) \<Longrightarrow> storable cc (d\<lparr>continuations := update_where Q f (continuations d)\<rparr>)"
    "okTime now \<Longrightarrow> storable cc (d\<lparr>sessions := update_where (\<lambda>s. s_SessionID s = i)
       (\<lambda>s. s\<lparr>s_State := st, s_UpdatedAt := now\<rparr>) (sessions d)\<rparr>)"
    "okSession s \<Longrightarrow> storable cc (upsertSession s d)"
  using storable_tables [OF ok]
  by (auto simp: okRule_def okSession_def upsertSession_def intro!: storable_upd ok ok_statements)

lemma write_insert_cont:
  "insertContRow (contRow c) (rowsOf cc d) = (rowsOf cc (d\<lparr>continuations := fst (insert_or_ignore conf_cont c (continuations d))\<rparr>),
     snd (insert_or_ignore conf_cont c (continuations d)))"
  by (auto simp: insertContRow_def rowsOf_def insert_or_ignore_def list_ex_iff conf_cont_def)

section \<open>Properties\<close>

text \<open>
  (C23) The queries on the text columns. On a database of storable values every query of the store, run on the
  columns with its \<open>WHERE\<close> and \<open>ORDER BY\<close> clauses on text and scanned row by row, gives what the method gives in the
  model on values: the events, the rules of an event, the active rules, sessions, continuations and
  watches, the pending sessions and the next continuation to run. No row fails to scan.
\<close>

theorem queries_on_columns:
  fixes w :: "'z st"
  assumes ok: "storable cc (db w)" and now: "okTime (clock w (nclock w))"
  shows "(ListEvents ty n w = (Inr es, w1) \<longrightarrow> listEventRows cc ty n (rowsOf cc (db w)) = Inr es) \<and>
    (ListRules b w = (Inr rs, w2) \<longrightarrow> listRuleRows cc b (clock w (nclock w)) (rowsOf cc (db w)) = Inr rs) \<and>
    matchRows cc ev (clock w (nclock w)) (rowsOf cc (db w)) = Inr (filter (ruleQuery ev (clock w (nclock w))) (rules (db w))) \<and>
    (ListSessions w = (Inr ss, w3) \<longrightarrow> listSessionRows cc (rowsOf cc (db w)) = Inr ss) \<and>
    (GetSession i w = (Inr s, w4) \<longrightarrow> getSessionRow cc i (rowsOf cc (db w)) = Inr s) \<and>
    (ListContinuations st w = (Inr cs, w5) \<longrightarrow> listContinuationRows cc st (rowsOf cc (db w)) = Inr cs) \<and>
    (NextPendingForSession i w = (Inr c, w6) \<longrightarrow> nextPendingRow cc i (rowsOf cc (db w)) = Inr c) \<and>
    (PendingSessions w = (Inr is, w7) \<longrightarrow> pendingSessionRows (rowsOf cc (db w)) = is) \<and>
    (ListWatches w = (Inr ws, w8) \<longrightarrow> listWatchRows cc (rowsOf cc (db w)) = Inr ws)"
proof -
  have "rs = sort_key r_CreatedAt (filter (\<lambda>r. b \<or> rule_active (clock w (nclock w)) r) (rules (db w)))"
    if "ListRules b w = (Inr rs, w2)"
    using that by (cases b) (auto simp: ListRules_def bindE_Inr_iff Now_def dest!: Query_Inr)
  note rules = this
  show ?thesis
    using read_rules [OF ok now]
    by (intro conjI impI)
      (auto simp: ListEvents_def ListSessions_def GetSession_def ListContinuations_def NextPendingForSession_def PendingSessions_def
        ListWatches_def Let_def read_events [OF ok] read_sessions [OF ok] read_conts [OF ok] read_watches [OF ok]
        dest!: rules Query_Inr)
qed

definition exColumns :: column_codec where
  \<comment> \<open>a codec for the empty payload and one configuration\<close>
  "exColumns = \<lparr>co_encPayload = (\<lambda>_. ''{}''), co_decPayload = (\<lambda>_. Inr Map.empty), co_encConfig = (\<lambda>_. ''{}''),
     co_decConfig = (\<lambda>_. Inr \<lparr>Interval = 0, StabilityThreshold = 0\<rparr>), co_lenient = (\<lambda>_. None)\<rparr>"

lemma okTime_small: "0 \<le> t \<Longrightarrow> t < 86400000000000 \<Longrightarrow> okTime t"
  unfolding okTime_def by (auto intro!: order_trans [OF Year_le [of t 0]] simp: div_eq_0_iff nat_less_iff)

theorem queries_on_columns_witness:
  "storable exColumns (db exW) \<and>
   matchRows exColumns exEvent 10 (rowsOf exColumns (db exW)) = Inr (filter (ruleQuery exEvent 10) (rules (db exW))) \<and>
   pendingSessionRows (rowsOf exColumns (db exW)) = []"
proof -
  have s: "storable exColumns (db exW)"
    by (simp add: storable_def exDB_def okRule_def okSession_def exRule_def exSession_def okTime_small)
  have t: "okTime (clock exW (nclock exW))" by (simp add: okTime_small)
  have "PendingSessions exW = (Inr [], snd (PendingSessions exW))"
    by (simp add: PendingSessions_def Query_def Exec_def exDB_def)
  with queries_on_columns [OF s t, of _ _ _ _ _ _ _ exEvent] s show ?thesis by auto
qed



end
