(* ===== verification/Migrate.thy ===== *)
theory Migrate
  imports Prelude GoStrings
begin

text \<open>
  Opening the database file, \<^verbatim>\<open>Open\<close>, \<^verbatim>\<open>migrate\<close> and \<^verbatim>\<open>Close\<close> in
  \<^verbatim>\<open>src/internal/store/store.go\<close>: the schema is created where it is missing, and a
  database of an earlier version gets the column that was added. The catalog of the database
  maps its tables to their columns; \<open>CREATE TABLE IF NOT EXISTS\<close> leaves a table that exists as it is. Each call may
  fail; a schema script that fails has run up to some statement.
\<close>

section \<open>The catalog\<close>

type_synonym catalog = "string \<rightharpoonup> string list"

definition schemaTables :: "(string \<times> string list) list" where
  "schemaTables =
     [(''events'', [''id'', ''type'', ''source'', ''payload'', ''created_at'']),
      (''rules'', [''id'', ''event_type'', ''event_source'', ''action_kind'', ''session_id'', ''prompt_template'', ''label'',
         ''one_shot'', ''consumed'', ''expires_at'', ''created_at'']),
      (''sessions'', [''session_id'', ''agent'', ''repo_path'', ''state'', ''created_at'', ''updated_at'']),
      (''continuations'', [''id'', ''rule_id'', ''event_id'', ''session_id'', ''prompt'', ''label'', ''state'', ''command'',
         ''exit_code'', ''output_summary'', ''created_at'', ''updated_at'']),
      (''watches'', [''id'', ''type'', ''target'', ''config'', ''created_at''])]"

definition createTable :: "string \<times> string list \<Rightarrow> catalog \<Rightarrow> catalog" where
  "createTable t cat = (case cat (fst t) of None \<Rightarrow> cat(fst t \<mapsto> snd t) | Some _ \<Rightarrow> cat)"

definition addLabelColumn :: "catalog \<Rightarrow> string + catalog" where
  "addLabelColumn cat = (case cat ''continuations'' of
     None \<Rightarrow> Inl ''no such table: continuations''
   | Some cols \<Rightarrow>
       if ''label'' \<in> set cols then Inl ''duplicate column name: label''
       else Inr (cat(''continuations'' \<mapsto> cols @ [''label''])))"

section \<open>Opening\<close>

record open_faults =
  of_open :: "string option"     \<comment> \<open>\<open>sql.Open\<close>\<close>
  of_schema :: "(string \<times> nat) option"
    \<comment> \<open>the schema script fails, after so many of its tables\<close>
  of_alter :: "string option"    \<comment> \<open>\<open>ALTER TABLE\<close> fails for a reason of its own\<close>

definition migrate :: "open_faults \<Rightarrow> catalog \<Rightarrow> (error + unit) \<times> catalog" where
  "migrate f cat = (case of_schema f of
     Some (e, k) \<Rightarrow> (Inl (SqlError e), fold createTable (take k schemaTables) cat)
   | None \<Rightarrow>
       (let cat1 = fold createTable schemaTables cat in
        case (case of_alter f of Some e \<Rightarrow> Inl e | None \<Rightarrow> addLabelColumn cat1) of
          Inl e \<Rightarrow> if Contains e ''duplicate column name'' then (Inr (), cat1) else (Inl (SqlError e), cat1)
        | Inr cat2 \<Rightarrow> (Inr (), cat2)))"

definition OpenStore :: "open_faults \<Rightarrow> catalog \<Rightarrow> (error + unit) \<times> catalog \<times> bool" where
  \<comment> \<open>the last component: whether a handle is open afterwards\<close>
  "OpenStore f cat = (case of_open f of
     Some e \<Rightarrow> (Inl (SqlError e), cat, False)
   | None \<Rightarrow> (case migrate f cat of
       (Inl e, cat') \<Rightarrow> (Inl e, cat', False)
     | (Inr _, cat') \<Rightarrow> (Inr (), cat', True)))"

section \<open>Facts\<close>

definition earlierVersion :: "catalog \<Rightarrow> bool" where
  \<comment> \<open>every table of the schema is missing, complete, or the continuations before they had a label\<close>
  "earlierVersion cat \<longleftrightarrow> (\<forall>(n, cols)\<in>set schemaTables. case cat n of
     None \<Rightarrow> True
   | Some cs \<Rightarrow> set cols - (if n = ''continuations'' then {''label''} else {}) \<subseteq> set cs)"

definition current :: "catalog \<Rightarrow> bool" where
  "current cat \<longleftrightarrow> (\<forall>(n, cols)\<in>set schemaTables. case cat n of None \<Rightarrow> False | Some cs \<Rightarrow> set cols \<subseteq> set cs)"

lemma createTable_other: "n \<noteq> fst t \<Longrightarrow> createTable t cat n = cat n"
  by (simp add: createTable_def split: option.split)

lemma createTable_keeps: "cat n = Some cs \<Longrightarrow> createTable t cat n = Some cs"
  by (auto simp: createTable_def split: option.split)

lemma fold_createTable_keeps: "cat n = Some cs \<Longrightarrow> fold createTable ts cat n = Some cs"
  by (induction ts arbitrary: cat) (auto simp: createTable_keeps)

lemma fold_createTable_new:
  "distinct (map fst ts) \<Longrightarrow> (n, cols) \<in> set ts \<Longrightarrow> cat n = None \<Longrightarrow> fold createTable ts cat n = Some cols"
proof (induction ts arbitrary: cat)
  case (Cons t ts)
  show ?case
  proof (cases "t = (n, cols)")
    case True
    with Cons.prems(3) have "createTable t cat n = Some cols" by (simp add: createTable_def)
    then show ?thesis by (simp add: fold_createTable_keeps)
  next
    case False
    with Cons.prems(2) False have "n \<in> fst ` set ts" by (auto intro: rev_image_eqI)
    with Cons.prems(1) have "fst t \<noteq> n" by auto
    with Cons False show ?thesis by (simp add: createTable_other)
  qed
qed simp

lemma schema_names: "distinct (map fst schemaTables)"
  by (simp add: schemaTables_def)

lemma created_tables:
  assumes "(n, cols) \<in> set schemaTables"
  shows "fold createTable schemaTables cat n = (case cat n of None \<Rightarrow> Some cols | Some cs \<Rightarrow> Some cs)"
  using fold_createTable_new [OF schema_names assms] fold_createTable_keeps by (auto split: option.split)

lemma duplicate_tolerated: "Contains ''duplicate column name: label'' ''duplicate column name''"
  by code_simp

lemma addLabel_keeps: "addLabelColumn cat = Inr cat' \<Longrightarrow> cat n = Some cs \<Longrightarrow> \<exists>cs'. cat' n = Some cs' \<and> set cs \<subseteq> set cs'"
  by (auto simp: addLabelColumn_def split: option.splits if_splits)

lemma migrate_keeps:
  assumes "migrate f cat = (r, cat')" and "cat n = Some cs"
  shows "\<exists>cs'. cat' n = Some cs' \<and> set cs \<subseteq> set cs'"
proof -
  have k: "fold createTable ts cat n = Some cs" for ts using assms(2) by (rule fold_createTable_keeps)
  show ?thesis
  proof (cases "of_schema f")
    case None
    with assms(1) k show ?thesis
      by (auto simp: migrate_def Let_def split: option.splits sum.splits if_splits dest: addLabel_keeps)
  qed (use assms(1) k in \<open>auto simp: migrate_def\<close>)
qed

lemma current_fixed:
  assumes "current cat"
  shows "fold createTable schemaTables cat = cat" and "\<exists>cols. cat ''continuations'' = Some cols \<and> ''label'' \<in> set cols"
proof -
  have "createTable t cat = cat" if "t \<in> set schemaTables" for t
    using assms that by (cases t) (auto simp: current_def createTable_def split: option.splits)
  then have "set ts \<subseteq> set schemaTables \<Longrightarrow> fold createTable ts cat = cat" for ts
    by (induction ts) auto
  then show "fold createTable schemaTables cat = cat" by simp
  show "\<exists>cols. cat ''continuations'' = Some cols \<and> ''label'' \<in> set cols"
    using assms by (auto simp: current_def schemaTables_def split: option.splits)
qed

definition noFault :: open_faults where
  "noFault = \<lparr>of_open = None, of_schema = None, of_alter = None\<rparr>"

lemma migrate_current: "current cat \<Longrightarrow> migrate noFault cat = (Inr (), cat)"
  using current_fixed [of cat] duplicate_tolerated by (auto simp: migrate_def noFault_def addLabelColumn_def)

lemma created_columns:
  assumes "earlierVersion cat" and "(n, cols) \<in> set schemaTables"
  shows "\<exists>cs. fold createTable schemaTables cat n = Some cs \<and>
    set cols - (if n = ''continuations'' then {''label''} else {}) \<subseteq> set cs"
  using assms created_tables [OF assms(2)] by (fastforce simp: earlierVersion_def split: option.splits)

lemma migrate_earlier:
  assumes "earlierVersion cat"
  shows "\<exists>cat'. migrate noFault cat = (Inr (), cat') \<and> current cat'"
proof -
  let ?c = "fold createTable schemaTables cat"
  note cc = created_columns [OF assms]
  have "''continuations'' \<in> fst ` set schemaTables" by (simp add: schemaTables_def)
  then obtain cols0 where "(''continuations'', cols0) \<in> set schemaTables" by auto
  then obtain cs where cs: "?c ''continuations'' = Some cs" using cc by blast
  show ?thesis
  proof (cases "''label'' \<in> set cs")
    case True
    have "case ?c n of None \<Rightarrow> False | Some cs \<Rightarrow> set cols \<subseteq> set cs" if "(n, cols) \<in> set schemaTables" for n cols
      using cc [OF that] cs True by (auto split: if_splits)
    then have "current ?c" by (auto simp: current_def)
    with True cs duplicate_tolerated show ?thesis by (auto simp: migrate_def noFault_def addLabelColumn_def)
  next
    case False
    let ?d = "?c(''continuations'' \<mapsto> cs @ [''label''])"
    have "case ?d n of None \<Rightarrow> False | Some cs \<Rightarrow> set cols \<subseteq> set cs" if "(n, cols) \<in> set schemaTables" for n cols
      using cc [OF that] cs by (auto split: if_splits)
    then have "current ?d" by (auto simp: current_def)
    with False cs show ?thesis by (auto simp: migrate_def noFault_def addLabelColumn_def)
  qed
qed

section \<open>What opening a store guarantees\<close>

text \<open>
  Opening without a failure brings a database of any earlier version to the current schema, and
  opening it again changes nothing. Whatever fails, no column is lost, and a handle is left open exactly when the call succeeds.
\<close>

theorem open_migrates:
  "(case OpenStore f cat of (r, cat', h) \<Rightarrow> h = (r = Inr ()) \<and>
      (\<forall>n cs. cat n = Some cs \<longrightarrow> (\<exists>cs'. cat' n = Some cs' \<and> set cs \<subseteq> set cs'))) \<and>
   (earlierVersion cat \<longrightarrow> (\<exists>cat'. OpenStore noFault cat = (Inr (), cat', True) \<and> current cat' \<and>
      OpenStore noFault cat' = (Inr (), cat', True)))"
proof -
  have "case OpenStore f cat of (r, cat', h) \<Rightarrow> h = (r = Inr ()) \<and>
      (\<forall>n cs. cat n = Some cs \<longrightarrow> (\<exists>cs'. cat' n = Some cs' \<and> set cs \<subseteq> set cs'))"
    using migrate_keeps [of f cat] by (auto simp: OpenStore_def split: option.splits prod.splits sum.splits)
  moreover have "\<exists>cat'. OpenStore noFault cat = (Inr (), cat', True) \<and> current cat' \<and> OpenStore noFault cat' = (Inr (), cat', True)"
    if e: "earlierVersion cat"
  proof -
    obtain cat' where c: "migrate noFault cat = (Inr (), cat')" "current cat'" using migrate_earlier [OF e] by blast
    with migrate_current [OF c(2)] show ?thesis by (auto simp: OpenStore_def noFault_def)
  qed
  ultimately show ?thesis by blast
qed

theorem open_migrates_witness:
  "\<exists>cat'. OpenStore noFault [''continuations'' \<mapsto> [''id'', ''rule_id'', ''event_id'', ''session_id'', ''prompt'', ''state'', ''command'',
       ''exit_code'', ''output_summary'', ''created_at'', ''updated_at'']] = (Inr (), cat', True) \<and> current cat'"
proof -
  have "earlierVersion [''continuations'' \<mapsto> [''id'', ''rule_id'', ''event_id'', ''session_id'', ''prompt'', ''state'', ''command'',
       ''exit_code'', ''output_summary'', ''created_at'', ''updated_at'']]"
    by (simp add: earlierVersion_def schemaTables_def) (simp add: Diff_subset_conv insert_commute)
  with open_migrates show ?thesis by blast
qed

end
