(* ===== verification/Workflow.thy ===== *)
theory Workflow
  imports Rpc
begin

text \<open>
  Workflow files, \<^verbatim>\<open>src/internal/workflow/workflow.go\<close>, and the calls of the daemon that install one
  (the command that makes them is in \<^theory_text>\<open>Apply\<close>).

  A workflow is a list of steps that is compiled to one-shot rules, chained through the
  \<open>continuation.completed\<close> events of the dispatcher. The YAML decoder is a parameter of
  \<open>Parse\<close>; nothing is assumed of it.
\<close>

section \<open>The file\<close>

record Selector =
  on_Type :: string
  on_Source :: string

record Step =
  stp_Label :: string
  stp_On :: Selector
  stp_Prompt :: string

record Workflow =
  wk_Session :: string
  wk_Agent :: string
  wk_Repo :: string
  wk_Steps :: "Step list"

definition stepLabel :: "nat \<Rightarrow> Step \<Rightarrow> Step" where
  \<comment> \<open>a missing label defaults to the step's position, counted from 1\<close>
  "stepLabel i s = (if stp_Label s = [] then s\<lparr>stp_Label := ''step-'' @ Itoa (int i + 1)\<rparr> else s)"

definition stepCheck :: "'t template_engine \<Rightarrow> Step \<Rightarrow> error option" where
  "stepCheck te s =
     (if on_Type (stp_On s) = []
      then Some (GoError (''workflow: step '' @ goQuote (stp_Label s) @ '': on.type is required''))
      else if stp_Prompt s = []
      then Some (GoError (''workflow: step '' @ goQuote (stp_Label s) @ '': prompt is required''))
      else (case ValidatePromptTemplate te (stp_Prompt s) of
        Some e \<Rightarrow> Some (GoError (''workflow: step '' @ goQuote (stp_Label s) @ '': bad prompt template: '' @ Error e))
      | None \<Rightarrow> None))"

fun parseSteps :: "'t template_engine \<Rightarrow> nat \<Rightarrow> string list \<Rightarrow> Step list \<Rightarrow> error + Step list" where
  \<comment> \<open>the loop over the steps, from index \<open>i\<close>, with the labels seen so far\<close>
  "parseSteps te i seen [] = Inr []"
| "parseSteps te i seen (s # ss) =
     (let s = stepLabel i s in
      if stp_Label s \<in> set seen then Inl (GoError (''workflow: duplicate label '' @ goQuote (stp_Label s)))
      else (case stepCheck te s of
        Some e \<Rightarrow> Inl e
      | None \<Rightarrow> (case parseSteps te (Suc i) (stp_Label s # seen) ss of
          Inl e \<Rightarrow> Inl e
        | Inr ss' \<Rightarrow> Inr (s # ss'))))"

definition Parse :: "'t template_engine \<Rightarrow> (string \<Rightarrow> error + Workflow) \<Rightarrow> string \<Rightarrow> error + Workflow" where
  "Parse te yaml data = (case yaml data of
     Inl e \<Rightarrow> Inl (GoError (''workflow: bad field or syntax: '' @ Error e))
   | Inr w \<Rightarrow>
       if wk_Session w = [] then Inl (GoError ''workflow: session is required'')
       else if wk_Agent w = [] then Inl (GoError ''workflow: agent is required'')
       else if wk_Steps w = [] then Inl (GoError ''workflow: at least one step is required'')
       else (case parseSteps te 0 [] (wk_Steps w) of
         Inl e \<Rightarrow> Inl e
       | Inr ss \<Rightarrow> Inr (w\<lparr>wk_Steps := ss\<rparr>)))"

definition Rules :: "Workflow \<Rightarrow> Rule list" where
  "Rules w = map (\<lambda>s. \<lparr>r_ID = [], r_Selector = \<lparr>sel_Type = on_Type (stp_On s), sel_Source = on_Source (stp_On s)\<rparr>,
     r_ActionKind = ActionContinueSession, r_SessionID = wk_Session w, r_PromptTemplate = stp_Prompt s,
     r_Label = stp_Label s, r_OneShot = True, r_Consumed = False, r_ExpiresAt = None, r_CreatedAt = 0\<rparr>)
     (wk_Steps w)"

section \<open>The calls that install a workflow\<close>

definition applyParams :: "Workflow \<Rightarrow> string \<Rightarrow> Rule \<Rightarrow> RuleParams" where
  \<comment> \<open>the parameters of \<open>rule.add\<close>; the first one registers the session\<close>
  "applyParams w repo r = \<lparr>ru_Type = sel_Type (r_Selector r), ru_Source = sel_Source (r_Selector r),
     ru_SessionID = r_SessionID r, ru_Agent = wk_Agent w, ru_RepoPath = repo,
     ru_Prompt = r_PromptTemplate r, ru_Label = r_Label r, ru_OneShot = True, ru_ExpiresAt = []\<rparr>"

section \<open>What a parsed workflow is\<close>

definition labelled :: "nat \<Rightarrow> Step list \<Rightarrow> Step list" where
  "labelled i ss = map (\<lambda>(k, s). stepLabel k s) (enumerate i ss)"

lemma labelled_simps [simp]:
  "labelled i [] = []" "labelled i (s # ss) = stepLabel i s # labelled (Suc i) ss"
  by (simp_all add: labelled_def)

lemma labelled_Nil_iff [simp]: "labelled i ss = [] \<longleftrightarrow> ss = []"
  by (cases ss) simp_all

definition stepOk :: "'t template_engine \<Rightarrow> Step \<Rightarrow> bool" where
  "stepOk te s \<longleftrightarrow> on_Type (stp_On s) \<noteq> [] \<and> stp_Prompt s \<noteq> [] \<and> ValidatePromptTemplate te (stp_Prompt s) = None"

lemma stepCheck_None: "stepCheck te s = None \<longleftrightarrow> stepOk te s"
  by (auto simp: stepCheck_def stepOk_def split: option.split)

lemma case_sum_Inr_iff:
  "(case m of Inl e \<Rightarrow> Inl e | Inr y \<Rightarrow> f y) = Inr z \<longleftrightarrow> (\<exists>y. m = Inr y \<and> f y = Inr z)"
  by (cases m) auto

lemma case_option_Inr_iff:
  "(case m of Some e \<Rightarrow> Inl e | None \<Rightarrow> n) = Inr z \<longleftrightarrow> m = None \<and> n = Inr z"
  by (cases m) auto

lemma parseSteps_Inr:
  "parseSteps te i seen ss = Inr ss' \<longleftrightarrow> ss' = labelled i ss \<and> distinct (map stp_Label ss') \<and>
     (\<forall>s\<in>set ss'. stp_Label s \<notin> set seen) \<and> list_all (stepOk te) ss'"
proof (induction ss arbitrary: i seen ss')
  case (Cons s ss)
  show ?case
    by (auto simp: Let_def stepCheck_None Cons.IH case_sum_Inr_iff case_option_Inr_iff) (metis image_eqI)+
qed auto

text \<open>
  (C33) What \<open>Parse\<close> accepts. A document is accepted exactly when it decodes, names a session and an agent,
  has at least one step, every step has an event type, a prompt and a template that parses, and the labels,
  a missing one being \<open>step-N\<close> for the N-th step, are pairwise different; the result is the decoded
  workflow with those labels and nothing else changed.
\<close>

theorem workflow_parse_iff:
  "Parse te yaml data = Inr w \<longleftrightarrow> (\<exists>w0. yaml data = Inr w0 \<and> w = w0\<lparr>wk_Steps := labelled 0 (wk_Steps w0)\<rparr> \<and>
     wk_Session w \<noteq> [] \<and> wk_Agent w \<noteq> [] \<and> wk_Steps w \<noteq> [] \<and>
     distinct (map stp_Label (wk_Steps w)) \<and> list_all (stepOk te) (wk_Steps w))"
proof (cases "yaml data")
  case (Inr w0)
  then show ?thesis
    by (auto simp: Parse_def parseSteps_Inr case_sum_Inr_iff)
qed (simp add: Parse_def)

section \<open>Installing a workflow\<close>

text \<open>
  What the command does to the daemon when no call is lost: the rules are added one after the other, and the
  first error removes the added ones. The command itself, over the socket, is in \<^theory_text>\<open>Apply\<close>.
\<close>

fun removeRules :: "string list \<Rightarrow> ('z dm, unit) io" where
  "removeRules [] = returnE ()"
| "removeRules (i # is) = tryE (RemoveRule i) (\<lambda>_. removeRules is)"

fun addRules :: "'t template_engine \<Rightarrow> rpc_env \<Rightarrow> Workflow \<Rightarrow> string \<Rightarrow> string list \<Rightarrow> Rule list \<Rightarrow> ('z dm, unit) io" where
  "addRules te env w repo created [] = returnE ()"
| "addRules te env w repo created (r # rs) =
     tryE (ruleAddP te env (applyParams w repo r)) (\<lambda>res. case res of
       Inl e \<Rightarrow> bindE (removeRules created) (\<lambda>_. throwE e)
     | Inr rule \<Rightarrow> addRules te env w repo (created @ [r_ID rule]) rs)"

text \<open>
  The command is atomic as long as at most one statement of the database fails during it: the failing call
  is the one that is answered with an error, and the statements of the rollback are the healthy ones after it.
\<close>

definition oneFault :: "('d, 'z) conn_scheme \<Rightarrow> bool" where
  "oneFault w \<longleftrightarrow> (\<exists>k. \<forall>n. n \<noteq> k \<longrightarrow> fault w n = None)"

definition quiet :: "('d, 'z) conn_scheme \<Rightarrow> bool" where
  "quiet w \<longleftrightarrow> (\<forall>n\<ge>nfault w. fault w n = None)"

fun ruleIDs :: "(nat \<Rightarrow> byte) \<Rightarrow> nat \<Rightarrow> nat \<Rightarrow> string list" where
  \<comment> \<open>the identifiers the next \<open>n\<close> rules get\<close>
  "ruleIDs r k 0 = []"
| "ruleIDs r k (Suc n) = idAt ''rule'' r k # ruleIDs r (k + 6) n"

definition freshRuleIDs :: "nat \<Rightarrow> 'z dm \<Rightarrow> bool" where
  "freshRuleIDs n w \<longleftrightarrow> distinct (map r_ID (rules (db w)) @ ruleIDs (rand w) (nrand w) n)"

lemma healthy_oneFault: "healthy w \<Longrightarrow> oneFault w"
  by (simp add: healthy_def oneFault_def)

lemma oneFaultD: "oneFault w \<Longrightarrow> fault w n = Some e \<Longrightarrow> m \<noteq> n \<Longrightarrow> fault w m = None"
  by (metis oneFault_def option.distinct(1))

lemma AddRule_oneFault:
  assumes "AddRule r w = (res, w')" and "oneFault w" and "r_ID r = []"
    and "idAt ''rule'' (rand w) (nrand w) \<notin> r_ID ` set (rules (db w))"
  shows "case res of
      Inl e \<Rightarrow> db w' = db w \<and> quiet w'
    | Inr r' \<Rightarrow> rules (db w') = rules (db w) @ [r'] \<and> r_ID r' = idAt ''rule'' (rand w) (nrand w) \<and>
        fault w' = fault w \<and> rand w' = rand w \<and> nrand w' = nrand w + 6 \<and>
        r'\<lparr>r_ID := [], r_CreatedAt := 0\<rparr> = r\<lparr>r_CreatedAt := 0, r_Consumed := False,
          r_ActionKind := (if r_ActionKind r = [] then ActionContinueSession else r_ActionKind r)\<rparr>"
  using assms oneFaultD [OF assms(2)]
  by (auto simp: AddRule_def Let_def bindE_def NewID_run Now_def Exec_def insertRule_def insert_row_def
      list_ex_iff conf_rule_def quiet_def split: option.splits if_splits) (metis image_eqI)+

lemma RegisterSession_oneFault:
  assumes "RegisterSession s w = (res, w')" and "oneFault w"
  shows "rules (db w') = rules (db w) \<and> fault w' = fault w \<and> rand w' = rand w \<and> nrand w' = nrand w \<and>
    (\<forall>e. res = Inl e \<longrightarrow> quiet w')"
  using assms(1) oneFaultD [OF assms(2)]
  by (auto simp: RegisterSession_def Let_def GetSession_def Now_def Update_def Query_def Exec_def bindE_def
      upsertSession_def quiet_def split: option.splits if_splits)

lemma removeRules_quiet:
  assumes "quiet w"
  shows "\<exists>w'. removeRules is w = (Inr (), w') \<and> rules (db w') = filter (\<lambda>r. r_ID r \<notin> set is) (rules (db w))"
  using assms
proof (induction "is" arbitrary: w)
  case (Cons i "is")
  let ?w = "w\<lparr>db := (db w)\<lparr>rules := delete_where (\<lambda>r. r_ID r = i) (rules (db w))\<rparr>, nfault := Suc (nfault w)\<rparr>"
  have "RemoveRule i w = (Inr (), ?w)" and "quiet ?w"
    using Cons.prems by (simp_all add: RemoveRule_def Update_def Exec_def quiet_def)
  with Cons.IH [of ?w] show ?case by (auto simp: tryE_def delete_where_def intro: filter_cong)
qed simp

lemma ruleAddP_oneFault:
  fixes w :: "'z dm"
  assumes run: "ruleAddP te env p w = (res, w')" and one: "oneFault w"
    and v: "ruleValidate te env p = Inr t" and reg: "ru_Agent p \<noteq> []" "ru_RepoPath p \<noteq> []"
    and i: "idAt ''rule'' (rand w) (nrand w) \<notin> r_ID ` set (rules (db w))"
  shows "case res of
      Inl e \<Rightarrow> rules (db w') = rules (db w) \<and> quiet w'
    | Inr r' \<Rightarrow> rules (db w') = rules (db w) @ [r'] \<and> r_ID r' = idAt ''rule'' (rand w) (nrand w) \<and>
        oneFault w' \<and> rand w' = rand w \<and> nrand w' = nrand w + 6 \<and> r'\<lparr>r_ID := [], r_CreatedAt := 0\<rparr> = ruleOf p t"
proof -
  let ?s = "zeroSession\<lparr>s_SessionID := ru_SessionID p, s_Agent := ru_Agent p, s_RepoPath := ru_RepoPath p\<rparr>"
  obtain q and w1 :: "'z dm" where q: "RegisterSession ?s w = (q, w1)" by (cases "RegisterSession ?s w")
  note R = RegisterSession_oneFault [OF q one]
  show ?thesis
  proof (cases q)
    case (Inl e)
    with q v reg run have "res = Inl e" "w' = w1" by (auto simp: ruleAddP_def ruleSession_def fromSum_def bindE_def)
    with R Inl show ?thesis by auto
  next
    case (Inr u)
    with q v reg run have "AddRule (ruleOf p t) w1 = (res, w')" by (simp add: ruleAddP_def ruleSession_def fromSum_def bindE_def)
    moreover have "oneFault w1" using R one by (simp add: oneFault_def)
    ultimately show ?thesis
      using AddRule_oneFault [of "ruleOf p t" w1 res w'] R i one
      by (cases res) (auto simp: ruleOf_def ActionContinueSession_def oneFault_def)
  qed
qed

lemma freshRuleIDs_step:
  assumes "freshRuleIDs (Suc n) w" and "rules (db w1) = rules (db w) @ [r]"
    and "r_ID r = idAt ''rule'' (rand w) (nrand w)" and "rand w1 = rand w" and "nrand w1 = nrand w + 6"
  shows "freshRuleIDs n w1"
  using assms by (simp add: freshRuleIDs_def)

lemma freshRuleIDs_first:
  "freshRuleIDs (Suc n) w \<Longrightarrow> idAt ''rule'' (rand w) (nrand w) \<notin> r_ID ` set (rules (db w))"
  by (auto simp: freshRuleIDs_def)

definition installs :: "'t template_engine \<Rightarrow> rpc_env \<Rightarrow> Workflow \<Rightarrow> string \<Rightarrow> Rule \<Rightarrow> bool" where
  \<comment> \<open>the call for this rule passes the daemon's checks and yields this rule\<close>
  "installs te env wk repo r \<longleftrightarrow> ruleValidate te env (applyParams wk repo r) = Inr None \<and>
     ruleOf (applyParams wk repo r) None = r"

lemma addRules_outcome:
  fixes w :: "'z dm"
  assumes "addRules te env wk repo (map r_ID new) rs w = (res, w')" and "oneFault w"
    and "list_all (installs te env wk repo) rs" and "wk_Agent wk \<noteq> []" "repo \<noteq> []"
    and "freshRuleIDs (length rs) w" and "rules (db w) = old @ new"
  shows "case res of
      Inl e \<Rightarrow> rules (db w') = old
    | Inr _ \<Rightarrow> \<exists>added. rules (db w') = old @ new @ added \<and> map (\<lambda>r. r\<lparr>r_ID := [], r_CreatedAt := 0\<rparr>) added = rs"
  using assms
proof (induction rs arbitrary: w new)
  case (Cons r rs)
  let ?p = "applyParams wk repo r"
  obtain q and w1 :: "'z dm" where q: "ruleAddP te env ?p w = (q, w1)" by (cases "ruleAddP te env ?p w")
  have v: "ruleValidate te env ?p = Inr None" and r: "ruleOf ?p None = r" using Cons.prems(3) by (simp_all add: installs_def)
  have f: "freshRuleIDs (Suc (length rs)) w" using Cons.prems(6) by simp
  note A = ruleAddP_oneFault [OF q Cons.prems(2) v _ _ freshRuleIDs_first [OF f]]
  have ap: "ru_Agent ?p = wk_Agent wk" "ru_RepoPath ?p = repo" by (simp_all add: applyParams_def)
  show ?case
  proof (cases q)
    case (Inl e)
    with A ap Cons.prems have "rules (db w1) = old @ new" "quiet w1" by simp_all
    with removeRules_quiet [of w1 "map r_ID new"] obtain w2
      where "removeRules (map r_ID new) w1 = (Inr (), w2)" "rules (db w2) = filter (\<lambda>r. r_ID r \<notin> r_ID ` set new) (old @ new)" by auto
    moreover have "filter (\<lambda>r. r_ID r \<notin> r_ID ` set new) (old @ new) = old"
      using Cons.prems(6,7) by (auto simp: freshRuleIDs_def filter_empty_conv intro!: filter_True)
    ultimately show ?thesis using Cons.prems(1) q Inl by (auto simp: tryE_def bindE_def)
  next
    case (Inr r')
    with A ap Cons.prems r have w1: "rules (db w1) = old @ (new @ [r'])" "r_ID r' = idAt ''rule'' (rand w) (nrand w)" "oneFault w1"
      "rand w1 = rand w" "nrand w1 = nrand w + 6" "r'\<lparr>r_ID := [], r_CreatedAt := 0\<rparr> = r" by simp_all
    have "addRules te env wk repo (map r_ID (new @ [r'])) rs w1 = (res, w')"
      using Cons.prems(1) q Inr by (simp add: tryE_def)
    moreover have "freshRuleIDs (length rs) w1"
      by (rule freshRuleIDs_step [OF f, of _ r']) (use w1 Cons.prems(7) in simp_all)
    ultimately have "case res of Inl e \<Rightarrow> rules (db w') = old
      | Inr _ \<Rightarrow> \<exists>added. rules (db w') = old @ (new @ [r']) @ added \<and> map (\<lambda>r. r\<lparr>r_ID := [], r_CreatedAt := 0\<rparr>) added = rs"
      using Cons.IH [of "new @ [r']" w1] Cons.prems(3-5) w1 by simp
    note IH = this
    show ?thesis
    proof (cases res)
      case (Inr u)
      with IH obtain added where "rules (db w') = old @ (new @ [r']) @ added"
        "map (\<lambda>r. r\<lparr>r_ID := [], r_CreatedAt := 0\<rparr>) added = rs" by auto
      with Inr w1(6) show ?thesis by (simp add: exI [of _ "r' # added"])
    qed (use IH in simp)
  qed
qed auto

lemma addRules_healthy:
  fixes w :: "'z dm"
  assumes "healthy w" and "list_all (installs te env wk repo) rs" and "wk_Agent wk \<noteq> []" "repo \<noteq> []"
    and "freshRuleIDs (length rs) w"
  shows "\<exists>w'. addRules te env wk repo created rs w = (Inr (), w')"
  using assms
proof (induction rs arbitrary: w created)
  case (Cons r rs)
  let ?p = "applyParams wk repo r"
  have v: "ruleValidate te env ?p = Inr None" using Cons.prems(2) by (simp add: installs_def)
  have f: "freshRuleIDs (Suc (length rs)) w" using Cons.prems(5) by simp
  have ap: "ru_Agent ?p \<noteq> []" "ru_RepoPath ?p \<noteq> []" using Cons.prems(3,4) by (simp_all add: applyParams_def)
  obtain r' and w1 :: "'z dm" where q: "ruleAddP te env ?p w = (Inr r', w1)" and h: "healthy w1"
    using ruleAddP_healthy [OF v Cons.prems(1) freshRuleIDs_first [OF f] ap] by blast
  have "freshRuleIDs (length rs) w1"
    using ruleAddP_oneFault [OF q healthy_oneFault [OF Cons.prems(1)] v ap freshRuleIDs_first [OF f]]
    by (auto intro: freshRuleIDs_step [OF f])
  with Cons.IH [OF h] Cons.prems q show ?case by (simp add: tryE_def)
qed simp

lemma Parse_InrD:
  assumes "Parse te yaml data = Inr w"
  shows "wk_Session w \<noteq> [] \<and> wk_Agent w \<noteq> [] \<and> list_all (stepOk te) (wk_Steps w)"
  using assms by (auto simp: Parse_def parseSteps_Inr case_sum_Inr_iff split: sum.splits if_splits)

lemma installs_Rules:
  assumes "Parse te yaml data = Inr wk"
  shows "list_all (installs te env wk repo) (Rules wk) \<and> wk_Agent wk \<noteq> []"
  using Parse_InrD [OF assms]
  by (auto simp: installs_def Rules_def applyParams_def ruleOf_def ruleValidate_def list_all_iff stepOk_def)

section \<open>Chaining\<close>

text \<open>
  The steps of a workflow are chained by their labels. When a continuation with a label completes and its
  result is emitted, on a working database with fresh identifiers, every unconsumed rule without an expiry that
  waits for \<open>continuation.completed\<close> from that label gets a new continuation for its own session and under its own label,
  pending unless its prompt cannot be rendered, and the dispatcher is woken.
\<close>

theorem completed_step_fires_next:
  fixes w :: "'z ds"
  assumes run: "emitResult te c v w = (res, w')" and ok: "healthy w" "wf_st w" "wf_bus (bus w)"
    and v: "v_state v = ContinuationCompleted" and c: "c_Label c \<noteq> []"
    and r: "r \<in> set (rules (db w))" "r_Selector r = \<lparr>sel_Type = ''continuation.completed'', sel_Source = c_Label c\<rparr>"
      "\<not> r_Consumed r" "r_ExpiresAt r = None"
    and fresh: "idAt ''evt'' (rand w) (nrand w) \<notin> c_EventID ` set (continuations (db w))"
      "freshIDs (length (rules (db w))) (w\<lparr>nrand := nrand w + 6\<rparr>)"
  shows "\<exists>ev k. k \<in> set (continuations (db w')) \<and> k \<notin> set (continuations (db w)) \<and>
    ev_Type ev = ''continuation.completed'' \<and> ev_Source ev = c_Label c \<and>
    c_RuleID k = r_ID r \<and> c_SessionID k = r_SessionID r \<and> c_Label k = r_Label r \<and>
    (case RenderPrompt te r ev of
       Inl e \<Rightarrow> c_State k = ContinuationFailed
     | Inr prompt \<Rightarrow> c_State k = ContinuationPending \<and> c_Prompt k = prompt) \<and> wake w'"
proof -
  obtain q where e: "EngineIngest te (resultEvent c v) w = (q, w')"
    using run by (cases "EngineIngest te (resultEvent c v) w") (simp add: emitResult_def)
  have "ev_Type (resultEvent c v) = ''continuation.completed''" "ev_Source (resultEvent c v) = c_Label c"
    "ev_ID (resultEvent c v) = []" "ev_Timestamp (resultEvent c v) = 0"
    using v c by (simp_all add: resultEvent_def)
  moreover from this r(2) have "Matches (r_Selector r) (resultEvent c v)" by (simp add: Matches_def)
  ultimately obtain ev k where "k \<in> set (continuations (db w'))" "k \<notin> set (continuations (db w))" "firedBy te ev r k" "wake w'"
    "ev_Type ev = ''continuation.completed''" "ev_Source ev = c_Label c"
    using EngineIngest_fires [OF e _ _ ok r(1) _ r(3,4) fresh] by metis
  then show ?thesis unfolding firedBy_def by blast
qed

section \<open>A concrete workflow\<close>

definition exSteps :: "Step list" where
  \<comment> \<open>the second step has no label and waits for the first\<close>
  "exSteps = [\<lparr>stp_Label = ''migrate'', stp_On = \<lparr>on_Type = ''docker.healthy'', on_Source = ''db''\<rparr>, stp_Prompt = ''go''\<rparr>,
     \<lparr>stp_Label = [], stp_On = \<lparr>on_Type = ''continuation.completed'', on_Source = ''migrate''\<rparr>, stp_Prompt = ''test''\<rparr>]"

definition exYaml :: "string \<Rightarrow> error + Workflow" where
  "exYaml s = Inr \<lparr>wk_Session = ''s1'', wk_Agent = ''claude'', wk_Repo = ''/repo'', wk_Steps = exSteps\<rparr>"

definition exWorkflow :: Workflow where
  "exWorkflow = \<lparr>wk_Session = ''s1'', wk_Agent = ''claude'', wk_Repo = ''/repo'', wk_Steps = labelled 0 exSteps\<rparr>"

lemma exParse: "Parse exEngine exYaml [] = Inr exWorkflow"
  by code_simp

lemma exDaemon_freshRules: "freshRuleIDs (length (wk_Steps exWorkflow)) exDaemon"
  by code_simp

definition exChained :: daemon where
  "exChained = exDaemon\<lparr>db := exDB\<lparr>rules := map (\<lambda>r. r\<lparr>r_ID := ''rule-'' @ r_Label r\<rparr>) (Rules exWorkflow)\<rparr>\<rparr>"

lemma exChained_facts: "wf_db (db exChained)" "healthy exChained" "wf_bus (bus exChained)"
  "idAt ''evt'' (rand exChained) (nrand exChained) \<notin> c_EventID ` set (continuations (db exChained))"
  "freshIDs (length (rules (db exChained))) (exChained\<lparr>nrand := nrand exChained + 6\<rparr>)"
proof -
  show "wf_db (db exChained)" by code_simp
  show "freshIDs (length (rules (db exChained))) (exChained\<lparr>nrand := nrand exChained + 6\<rparr>)" by code_simp
qed (use exDaemon_facts in \<open>simp_all add: exChained_def exDB_def\<close>)

definition exCompleted :: Continuation where
  "exCompleted = newContinuation exEngine exEvent 1 ''cont-1'' ((exRule ''rule-migrate'' True)\<lparr>r_Label := ''migrate''\<rparr>)"

definition exVerdict :: verdict where
  "exVerdict = (failure [])\<lparr>v_state := ContinuationCompleted\<rparr>"

theorem completed_step_fires_next_witness:
  "\<exists>k. k \<in> set (continuations (db (snd (emitResult exEngine exCompleted exVerdict exChained)))) \<and>
     c_RuleID k = ''rule-step-2'' \<and> c_State k = ContinuationPending"
proof -
  let ?r = "(Rules exWorkflow ! 1)\<lparr>r_ID := ''rule-step-2''\<rparr>"
  have l: "c_Label exCompleted = ''migrate''" "v_state exVerdict = ContinuationCompleted"
    by (simp_all add: exCompleted_def exVerdict_def newContinuation_def Let_def exRule_def RenderPrompt_def exEngine_def)
  have r: "?r \<in> set (rules (db exChained))" "r_Selector ?r = \<lparr>sel_Type = ''continuation.completed'', sel_Source = c_Label exCompleted\<rparr>"
    "\<not> r_Consumed ?r" "r_ExpiresAt ?r = None"
    by code_simp+
  obtain res w' where e: "emitResult exEngine exCompleted exVerdict exChained = (res, w')"
    by (cases "emitResult exEngine exCompleted exVerdict exChained")
  have p: "RenderPrompt exEngine ?r ev = Inr ''test''" for ev
    by (simp add: RenderPrompt_def exEngine_def Rules_def exWorkflow_def exSteps_def stepLabel_def)
  from completed_step_fires_next [OF e exChained_facts(2) _ exChained_facts(3) l(2) _ r exChained_facts(4,5)] exChained_facts(1) l(1) p
  show ?thesis by (auto simp: e)
qed

end
