(* ===== verification/Chain.thy ===== *)
theory Chain
  imports Workflow
begin

text \<open>
  A workflow from its first event to its last step: the engine, the store and a worker of the dispatcher together.

  A chain is followed round by round. \<open>openStep\<close> is a rule that can fire for a session, \<open>bystander\<close> a rule that
  no result of the chain wakes, \<open>stage\<close> the state of the system in which exactly one
  continuation of the session is pending and the rest of the chain waits for it. A round of the worker runs it (\<open>stage_round\<close>); when
  it succeeds its completion fires exactly the next rule (\<open>completion_fires\<close>), when it fails nothing
  (\<open>failure_fires_none\<close>). \<open>ranInOrder\<close> says what a whole run of the worker did.
\<close>

section \<open>One event, one rule\<close>

lemma Ingest_one:
  fixes w :: "'z st"
  assumes h: "healthy w" and ev: "ev_ID ev \<noteq> []" and now: "now = clock w (nclock w)"
    and m: "filter (ruleQuery ev now) (rules (db w)) = [r]" and o: "r_OneShot r"
    and k: "k = newContinuation te ev now (idAt ''cont'' (rand w) (nrand w)) r"
    and new: "\<forall>x\<in>set (continuations (db w)). \<not> conf_cont x k"
  shows "\<exists>n. Ingest te ev w = (Inr \<lparr>ir_Event = ev, ir_Continuations = [k]\<rparr>, w\<lparr>db := (db w)
      \<lparr>events := fst (insert_or_ignore conf_event ev (events (db w))), continuations := continuations (db w) @ [k],
       rules := update_where (\<lambda>x. r_ID x = r_ID r) (\<lambda>x. x\<lparr>r_Consumed := True\<rparr>) (rules (db w))\<rparr>,
      nclock := Suc (nclock w), nrand := nrand w + 6, nfault := n\<rparr>)"
proof -
  let ?w1 = "w\<lparr>nfault := Suc (nfault w)\<rparr>"
  have "insert_or_ignore conf_cont k (continuations (db w)) = (continuations (db w) @ [k], 1)"
    using new by (simp add: insert_or_ignore_def list_ex_iff)
  then have "ingestBody te ev ?w1 = (Inr \<lparr>ir_Event = ev, ir_Continuations = [k]\<rparr>, w\<lparr>db := (db w)
      \<lparr>events := fst (insert_or_ignore conf_event ev (events (db w))), continuations := continuations (db w) @ [k],
       rules := update_where (\<lambda>x. r_ID x = r_ID r) (\<lambda>x. x\<lparr>r_Consumed := True\<rparr>) (rules (db w))\<rparr>,
      nclock := Suc (nclock w), nrand := nrand w + 6, nfault := nfault w + 5\<rparr>)"
    using h ev m o unfolding now
    by (simp add: ingestBody_def insertEventTx_def Now_def bindE_def NewID_run insertContinuation_def consumeRule_def
        Let_def k now)
  from with_tx_healthy [where body = "ingestBody te ev", OF h this] h show ?thesis by (auto simp: Ingest_def)
qed

lemma Ingest_none:
  fixes w :: "'z st"
  assumes h: "healthy w" and ev: "ev_ID ev \<noteq> []" and now: "now = clock w (nclock w)"
    and m: "filter (ruleQuery ev now) (rules (db w)) = []"
  shows "\<exists>n. Ingest te ev w = (Inr \<lparr>ir_Event = ev, ir_Continuations = []\<rparr>, w\<lparr>db := (db w)
      \<lparr>events := fst (insert_or_ignore conf_event ev (events (db w)))\<rparr>, nclock := Suc (nclock w), nfault := n\<rparr>)"
proof -
  have "ingestBody te ev (w\<lparr>nfault := Suc (nfault w)\<rparr>) = (Inr \<lparr>ir_Event = ev, ir_Continuations = []\<rparr>, w\<lparr>db := (db w)
      \<lparr>events := fst (insert_or_ignore conf_event ev (events (db w)))\<rparr>, nclock := Suc (nclock w), nfault := nfault w + 3\<rparr>)"
    using h ev m unfolding now
    by (simp add: ingestBody_def insertEventTx_def Now_def bindE_def)
  from with_tx_healthy [where body = "ingestBody te ev", OF h this] h show ?thesis by (auto simp: Ingest_def)
qed

text \<open>The same for the engine, for an event without identifier and time, as the program makes them.\<close>

definition stamped :: "'z rts \<Rightarrow> Event \<Rightarrow> Event" where
  "stamped w ev = ev\<lparr>ev_ID := idAt ''evt'' (rand w) (nrand w), ev_Timestamp := clock w (nclock w)\<rparr>"

lemma normalise_blank:
  fixes w :: "'z rts"
  assumes "ev_ID ev = []" and "ev_Timestamp ev = 0"
  shows "normalise ev w = (Inr (stamped w ev), w\<lparr>nrand := nrand w + 6, nclock := Suc (nclock w)\<rparr>)"
  using assms by (simp add: normalise_def NewID_run Now_def bindE_def stamped_def)

lemma EngineIngest_one:
  fixes w :: "'z rts"
  assumes h: "healthy w" "wf_bus (bus w)" and ev: "ev_ID ev = []" "ev_Timestamp ev = 0"
    and now: "now = clock w (Suc (nclock w))"
    and m: "filter (ruleQuery (stamped w ev) now) (rules (db w)) = [r]" and o: "r_OneShot r"
    and k: "k = newContinuation te (stamped w ev) now (idAt ''cont'' (rand w) (nrand w + 6)) r"
    and new: "\<forall>x\<in>set (continuations (db w)). \<not> conf_cont x k"
  shows "\<exists>n b p. wf_bus b \<and> EngineIngest te ev w = (Inr \<lparr>ir_Event = stamped w ev, ir_Continuations = [k]\<rparr>, w\<lparr>db := (db w)
      \<lparr>events := fst (insert_or_ignore conf_event (stamped w ev) (events (db w))), continuations := continuations (db w) @ [k],
       rules := update_where (\<lambda>x. r_ID x = r_ID r) (\<lambda>x. x\<lparr>r_Consumed := True\<rparr>) (rules (db w))\<rparr>,
      nclock := Suc (Suc (nclock w)), nrand := nrand w + 12, nfault := n, bus := b, pubs := p, wake := True\<rparr>)"
proof -
  let ?w1 = "w\<lparr>nrand := nrand w + 6, nclock := Suc (nclock w)\<rparr>"
  have id: "ev_ID (stamped w ev) \<noteq> []" by (simp add: stamped_def idAt_def)
  let ?d = "(db w)\<lparr>events := fst (insert_or_ignore conf_event (stamped w ev) (events (db w))), continuations := continuations (db w) @ [k],
       rules := update_where (\<lambda>x. r_ID x = r_ID r) (\<lambda>x. x\<lparr>r_Consumed := True\<rparr>) (rules (db w))\<rparr>"
  from Ingest_one [of ?w1 "stamped w ev" now r k te] id h m o k new now
  obtain n where i: "Ingest te (stamped w ev) ?w1 = (Inr \<lparr>ir_Event = stamped w ev, ir_Continuations = [k]\<rparr>,
      ?w1\<lparr>db := ?d, nclock := Suc (nclock ?w1), nrand := nrand ?w1 + 6, nfault := n\<rparr>)" (is "_ = (_, ?w2)") by auto
  have "wf_bus (bus ?w2)" using h by simp
  from busPublish_run [OF this, of "stamped w ev"] obtain b where b: "wf_bus b"
    "busPublish (stamped w ev) ?w2 = (Inr (), ?w2\<lparr>bus := b, pubs := pubs ?w2 @ [(stamped w ev, db ?w2)]\<rparr>)" by blast
  with i normalise_blank [OF ev, of w] show ?thesis
    by (intro exI [of _ n] exI [of _ b] exI [of _ "pubs ?w2 @ [(stamped w ev, db ?w2)]"])
      (simp add: EngineIngest_def bindE_def Wake_def modify_def)
qed

lemma EngineIngest_none:
  fixes w :: "'z rts"
  assumes h: "healthy w" "wf_bus (bus w)" and ev: "ev_ID ev = []" "ev_Timestamp ev = 0"
    and m: "filter (ruleQuery (stamped w ev) (clock w (Suc (nclock w)))) (rules (db w)) = []"
  shows "\<exists>n b p. wf_bus b \<and> EngineIngest te ev w = (Inr \<lparr>ir_Event = stamped w ev, ir_Continuations = []\<rparr>, w\<lparr>db := (db w)
      \<lparr>events := fst (insert_or_ignore conf_event (stamped w ev) (events (db w)))\<rparr>,
      nclock := Suc (Suc (nclock w)), nrand := nrand w + 6, nfault := n, bus := b, pubs := p\<rparr>)"
proof -
  let ?w1 = "w\<lparr>nrand := nrand w + 6, nclock := Suc (nclock w)\<rparr>"
  have id: "ev_ID (stamped w ev) \<noteq> []" by (simp add: stamped_def idAt_def)
  let ?d = "(db w)\<lparr>events := fst (insert_or_ignore conf_event (stamped w ev) (events (db w)))\<rparr>"
  from Ingest_none [of ?w1 "stamped w ev" _ te] id h m
  obtain n where i: "Ingest te (stamped w ev) ?w1 = (Inr \<lparr>ir_Event = stamped w ev, ir_Continuations = []\<rparr>,
      ?w1\<lparr>db := ?d, nclock := Suc (nclock ?w1), nfault := n\<rparr>)" (is "_ = (_, ?w2)") by auto
  have "wf_bus (bus ?w2)" using h by simp
  from busPublish_run [OF this, of "stamped w ev"] obtain b where b: "wf_bus b"
    "busPublish (stamped w ev) ?w2 = (Inr (), ?w2\<lparr>bus := b, pubs := pubs ?w2 @ [(stamped w ev, db ?w2)]\<rparr>)" by blast
  with i normalise_blank [OF ev, of w] show ?thesis
    by (intro exI [of _ n] exI [of _ b] exI [of _ "pubs ?w2 @ [(stamped w ev, db ?w2)]"])
      (simp add: EngineIngest_def bindE_def)
qed

section \<open>One successful run\<close>

definition agentOf :: "string \<Rightarrow> database \<Rightarrow> string option" where
  "agentOf sid d = map_option s_Agent (find (\<lambda>s. s_SessionID s = sid) (sessions d))"

lemma agentOf_state:
  "agentOf sid (d\<lparr>sessions := update_where P (\<lambda>s. s\<lparr>s_State := st, s_UpdatedAt := t\<rparr>) (sessions d)\<rparr>) = agentOf sid d"
proof -
  have "map_option s_Agent (find (\<lambda>s. s_SessionID s = sid) (update_where P (\<lambda>s. s\<lparr>s_State := st, s_UpdatedAt := t\<rparr>) ss)) =
      map_option s_Agent (find (\<lambda>s. s_SessionID s = sid) ss)" for ss
    by (induction ss) (auto simp: update_where_def)
  then show ?thesis by (simp add: agentOf_def)
qed

interpretation seg: segment_kept "\<lambda>w. nrand w = N \<and> rand w = r \<and> agentOf i (db w) = a" for N r i a
  by unfold_locales (auto simp: agentOf_state)

definition equipped :: "adapters \<Rightarrow> string \<Rightarrow> bool" where
  \<comment> \<open>the agent has an adapter at every run\<close>
  "equipped ads agent \<longleftrightarrow> (\<forall>n. map_of (ads n) agent \<noteq> None)"

definition succeeded :: "adapters \<Rightarrow> nat \<Rightarrow> Continuation \<times> Session \<Rightarrow> bool" where
  \<comment> \<open>the run with this number ended well\<close>
  "succeeded ads n cs = (case cs of (c, sess) \<Rightarrow> (case map_of (ads n) (s_Agent sess) of
     None \<Rightarrow> False
   | Some ad \<Rightarrow> snd (ad_Resume ad sess (c_Prompt c)) = None \<and> res_ExitCode (fst (ad_Resume ad sess (c_Prompt c))) = 0))"

abbreviation verdictState :: "bool \<Rightarrow> ContinuationState" where
  "verdictState ok \<equiv> (if ok then ContinuationCompleted else ContinuationFailed)"

lemma verdict_equipped:
  assumes "ready w" and "equipped ads agent" and "agentOf (c_SessionID c) (db w) = Some agent"
  shows "\<exists>v w1 sess. bindE (execLookup ads c) (\<lambda>l. case l of Inl v \<Rightarrow> returnE v | Inr sa \<Rightarrow> execRun c sa) w = (Inr v, w1) \<and>
    v_state v = verdictState (succeeded ads (length (runs w)) (c, sess)) \<and> runs w1 = runs w @ [(c, sess)] \<and> s_SessionID sess = c_SessionID c \<and> s_Agent sess = agent \<and>
    ready w1 \<and> continuations (db w1) = continuations (db w) \<and> rules (db w1) = rules (db w) \<and>
    nrand w1 = nrand w \<and> rand w1 = rand w \<and> (\<forall>i. agentOf i (db w1) = agentOf i (db w))"
proof -
  obtain sess where s: "find (\<lambda>s. s_SessionID s = c_SessionID c) (sessions (db w)) = Some sess" "s_Agent sess = agent"
    using assms(3) by (auto simp: agentOf_def)
  obtain ad where ad: "map_of (ads (length (runs w))) agent = Some ad" using assms(2) unfolding equipped_def by blast
  have "healthy w" using assms(1) by (simp add: ready_def)
  from verdict_completed_iff [OF this, of ads c] s ad obtain v w1 where
    v: "bindE (execLookup ads c) (\<lambda>l. case l of Inl v \<Rightarrow> returnE v | Inr sa \<Rightarrow> execRun c sa) w = (Inr v, w1)"
      "v_state v = ContinuationCompleted \<longleftrightarrow> succeeded ads (length (runs w)) (c, sess)" "runs w1 = runs w @ [(c, sess)]"
    by (auto simp: succeeded_def)
  moreover have "v_state v = verdictState (succeeded ads (length (runs w)) (c, sess))" using v(2) verdict_terminal [OF v(1)] by auto
  moreover have "nrand w1 = nrand w \<and> rand w1 = rand w \<and> agentOf i (db w1) = agentOf i (db w)" for i
    by (rule preservesD [OF seg.kept_verdict _ v(1)]) simp
  moreover have "s_SessionID sess = c_SessionID c" using s(1) by (auto simp: find_Some_iff)
  moreover note verdict_ready [OF assms(1) v(1)]
  ultimately show ?thesis using s(2) by blast
qed

lemma recordResult_exact:
  assumes "healthy w"
  shows "recordResult c v w = (Inr (), w\<lparr>db := (db w)\<lparr>continuations := update_where (\<lambda>x. c_ID x = c_ID c)
      (\<lambda>x. x\<lparr>c_State := v_state v, c_Command := v_command v, c_ExitCode := v_exitCode v,
          c_OutputSummary := v_summary v, c_UpdatedAt := clock w (nclock w)\<rparr>) (continuations (db w))\<rparr>,
    nclock := Suc (nclock w), nfault := Suc (nfault w)\<rparr>)"
  using assms by (simp add: recordResult_def UpdateContinuationResult_def Now_def bindE_def tryE_def)

lemma claim_exact:
  assumes "healthy w" and "fst (ClaimContinuation i w) = Inr True"
  shows "ClaimContinuation i w = (Inr True, w\<lparr>db := (db w)\<lparr>continuations := update_where (claimable i)
      (\<lambda>c. c\<lparr>c_State := ContinuationRunning, c_UpdatedAt := clock w (nclock w)\<rparr>) (continuations (db w))\<rparr>,
    nclock := Suc (nclock w), nfault := Suc (nfault w)\<rparr>)"
  using assms by (simp add: ClaimContinuation_def Now_def bindE_def)

text \<open>
  A round of a worker whose session's agent has an adapter: the one pending continuation is claimed, run and recorded by its outcome,
  and its result event reaches the engine in the state described here.
\<close>

definition afterRun :: "'z ds \<Rightarrow> Continuation \<Rightarrow> verdict \<Rightarrow> Session \<Rightarrow> 'z ds \<Rightarrow> bool" where
  "afterRun w c v sess w2 \<longleftrightarrow> ready w2 \<and> v_state v \<in> {ContinuationCompleted, ContinuationFailed} \<and> runs w2 = runs w @ [(c, sess)] \<and>
     rules (db w2) = rules (db w) \<and> nrand w2 = nrand w \<and> rand w2 = rand w \<and>
     (\<forall>i. agentOf i (db w2) = agentOf i (db w)) \<and>
     map c_ID (continuations (db w2)) = map c_ID (continuations (db w)) \<and>
     map c_RuleID (continuations (db w2)) = map c_RuleID (continuations (db w)) \<and>
     (\<exists>x\<in>set (continuations (db w2)). c_ID x = c_ID c \<and> c_State x = v_state v) \<and>
     pendingOf (c_SessionID c) (db w2) = filter (\<lambda>x. c_ID x \<noteq> c_ID c) (pendingOf (c_SessionID c) (db w))"

lemma update_where_proj: "(\<And>x. g (f x) = g x) \<Longrightarrow> map g (update_where P f xs) = map g xs"
  by (simp add: update_where_def)

lemma filter_update_where:
  assumes "\<And>x. \<not> Q (f x)"
  shows "filter Q (update_where (\<lambda>x. k x = a) f xs) = filter (\<lambda>x. k x \<noteq> a) (filter Q xs)"
  using assms by (induction xs) (auto simp: update_where_def)

lemma round_runs:
  fixes w :: "'z ds"
  assumes w: "ready w" and c: "c \<in> set (pendingOf sid (db w))"
    and claim: "ClaimContinuation (c_ID c) (w\<lparr>nfault := Suc (nfault w), nctx := Suc (nctx w)\<rparr>) = (Inr True, w1)"
    and run: "execute te ads c w1 = (Inr (), w')"
    and ok: "equipped ads agent" "agentOf sid (db w) = Some agent"
  shows "\<exists>v sess w2. afterRun w c v sess w2 \<and> v_state v = verdictState (succeeded ads (length (runs w)) (c, sess)) \<and> emitResult te c v w2 = (Inr (), w') \<and> s_SessionID sess = sid \<and> s_Agent sess = agent"
proof -
  have sid: "c_SessionID c = sid" and cm: "c \<in> set (continuations (db w))" "c_State c = ContinuationPending"
    using c by (simp_all add: pendingOf_def)
  let ?w0 = "w\<lparr>nfault := Suc (nfault w), nctx := Suc (nctx w)\<rparr>"
  let ?mark = "\<lambda>x. x\<lparr>c_State := ContinuationRunning, c_UpdatedAt := clock w (nclock w)\<rparr>"
  have w1: "w1 = ?w0\<lparr>db := (db w)\<lparr>continuations := update_where (claimable (c_ID c)) ?mark (continuations (db w))\<rparr>,
      nclock := Suc (nclock w), nfault := Suc (nfault ?w0)\<rparr>"
    using claim_exact [of ?w0 "c_ID c"] claim w by (simp add: ready_def)
  have r1: "ready w1"
    using w preservesD [OF wf_ClaimContinuation _ claim] by (simp add: ready_def w1 chainOneShot_def)
  let ?V = "bindE (execLookup ads c) (\<lambda>l. case l of Inl v \<Rightarrow> returnE v | Inr sa \<Rightarrow> execRun c sa)"
  have ag: "agentOf i (db w1) = agentOf i (db w)" for i by (simp add: w1 agentOf_def)
  have "runs w1 = runs w" by (simp add: w1)
  with verdict_equipped [OF r1 ok(1), of c] ok(2) ag sid obtain v w2 sess where
    v: "?V w1 = (Inr v, w2)" "v_state v = verdictState (succeeded ads (length (runs w)) (c, sess))" "runs w2 = runs w1 @ [(c, sess)]"
      "s_SessionID sess = sid" "s_Agent sess = agent" "ready w2" "continuations (db w2) = continuations (db w1)"
      "rules (db w2) = rules (db w1)" "nrand w2 = nrand w1" "rand w2 = rand w1"
      "\<forall>i. agentOf i (db w2) = agentOf i (db w1)" by auto
  have vt: "v_state v \<in> {ContinuationCompleted, ContinuationFailed}" using v(2) by simp
  have np: "v_state v \<noteq> ContinuationPending" using vt by auto
  have fin: "finish te c v w2 = (Inr (), w')"
    using run bindE_run(1) [of ?V w1 v w2 "finish te c"] v(1) by (simp add: execute_def bindE_assoc)
  let ?w2 = "w2\<lparr>nctx := Suc (nctx w2)\<rparr>"
  let ?fin = "\<lambda>x. x\<lparr>c_State := v_state v, c_Command := v_command v, c_ExitCode := v_exitCode v,
      c_OutputSummary := v_summary v, c_UpdatedAt := clock w2 (nclock w2)\<rparr>"
  have r2: "ready ?w2" using v(6) by (simp add: ready_def)
  let ?w3 = "?w2\<lparr>db := (db w2)\<lparr>continuations := update_where (\<lambda>x. c_ID x = c_ID c) ?fin (continuations (db w2))\<rparr>,
      nclock := Suc (nclock w2), nfault := Suc (nfault w2)\<rparr>"
  have rec: "recordResult c v ?w2 = (Inr (), ?w3)" using recordResult_exact [of ?w2 c v] r2 by (simp add: ready_def)
  have "emitResult te c v ?w3 = (Inr (), w')"
    using fin rec v(6) by (simp add: finish_def CtxErr_run bindE_def ready_def)
  moreover have r3: "ready ?w3" by (rule recordResult_ready [OF r2 vt rec])
  moreover have cs: "continuations (db ?w3) = update_where (\<lambda>x. c_ID x = c_ID c) ?fin (update_where (claimable (c_ID c)) ?mark (continuations (db w)))"
    by (simp add: v(7) w1)
  moreover have "\<exists>x\<in>set (continuations (db ?w3)). c_ID x = c_ID c \<and> c_State x = v_state v"
  proof -
    have "?fin (?mark c) \<in> set (continuations (db ?w3))"
      unfolding cs set_update_where by (intro image_eqI [of _ _ "?mark c"] image_eqI [of _ _ c]) (simp_all add: cm claimable_def)
    then show ?thesis by (rule rev_bexI) simp
  qed
  moreover have "pendingOf sid (db ?w3) = filter (\<lambda>x. c_ID x \<noteq> c_ID c) (pendingOf sid (db w))"
  proof -
    have "pendingOf sid (db ?w3) = filter (\<lambda>x. c_ID x \<noteq> c_ID c)
        (filter (\<lambda>x. c_SessionID x = sid \<and> c_State x = ContinuationPending) (update_where (claimable (c_ID c)) ?mark (continuations (db w))))"
      unfolding pendingOf_def cs by (rule filter_update_where) (simp add: np)
    also have "\<dots> = filter (\<lambda>x. c_ID x \<noteq> c_ID c) (pendingOf sid (db w))"
    proof -
      have "filter (\<lambda>x. c_ID x \<noteq> c_ID c) (filter (\<lambda>x. c_SessionID x = sid \<and> c_State x = ContinuationPending) (update_where (claimable (c_ID c)) ?mark cs)) =
          filter (\<lambda>x. c_ID x \<noteq> c_ID c) (filter (\<lambda>x. c_SessionID x = sid \<and> c_State x = ContinuationPending) cs)" for cs
        by (induction cs) (auto simp: update_where_def claimable_def)
      then show ?thesis by (simp add: pendingOf_def)
    qed
    finally show ?thesis .
  qed
  moreover have "map c_ID (continuations (db ?w3)) = map c_ID (continuations (db w))"
    "map c_RuleID (continuations (db ?w3)) = map c_RuleID (continuations (db w))"
    unfolding cs by (simp_all add: update_where_proj)
  ultimately have "afterRun w c v sess ?w3"
    using v(3-11) vt ag sid by (simp add: afterRun_def w1 agentOf_def)
  with \<open>emitResult te c v ?w3 = (Inr (), w')\<close> v(2,4,5) show ?thesis by blast
qed

section \<open>The stages of a chain\<close>

definition follows :: "Rule \<Rightarrow> Rule \<Rightarrow> bool" where
  "follows r s \<longleftrightarrow> r_Selector s = \<lparr>sel_Type = ''continuation.completed'', sel_Source = r_Label r\<rparr>"

definition openStep :: "'t template_engine \<Rightarrow> string \<Rightarrow> Rule \<Rightarrow> bool" where
  "openStep te sid r \<longleftrightarrow> r_SessionID r = sid \<and> r_OneShot r \<and> \<not> r_Consumed r \<and> r_ExpiresAt r = None \<and>
     (\<forall>ev. \<exists>p. RenderPrompt te r ev = Inr p)"

definition bystander :: "string set \<Rightarrow> Rule \<Rightarrow> bool" where
  \<comment> \<open>a rule that does not listen to the results of these labels\<close>
  "bystander labels r \<longleftrightarrow> r_Consumed r \<or> sel_Type (r_Selector r) \<notin> set resultTypes \<or>
     sel_Source (r_Selector r) \<noteq> [] \<and> sel_Source (r_Selector r) \<notin> labels"

fun contIDs :: "(nat \<Rightarrow> byte) \<Rightarrow> nat \<Rightarrow> nat \<Rightarrow> string list" where
  \<comment> \<open>the identifiers of the next \<open>n\<close> continuations, when each event creates one\<close>
  "contIDs r k 0 = []"
| "contIDs r k (Suc n) = idAt ''cont'' r (k + 6) # contIDs r (k + 12) n"

definition chainIDs :: "nat \<Rightarrow> 'z st \<Rightarrow> bool" where
  "chainIDs n w \<longleftrightarrow> distinct (map c_ID (continuations (db w)) @ contIDs (rand w) (nrand w) n)"

definition runOf :: "'t template_engine \<Rightarrow> Rule \<Rightarrow> Continuation \<Rightarrow> bool" where
  \<comment> \<open>the continuation was created for the rule by an event it matches, with the prompt rendered from that event\<close>
  "runOf te r c \<longleftrightarrow> c_RuleID c = r_ID r \<and> c_SessionID c = r_SessionID r \<and> c_Label c = r_Label r \<and>
     (\<exists>ev. Matches (r_Selector r) ev \<and> RenderPrompt te r ev = Inr (c_Prompt c))"

definition stage :: "'t template_engine \<Rightarrow> string \<Rightarrow> string \<Rightarrow> Rule \<Rightarrow> Continuation \<Rightarrow> Rule list \<Rightarrow> 'z ds \<Rightarrow> bool" where
  \<comment> \<open>the continuation of step \<open>r0\<close> is the only pending one of the session, and the steps \<open>R\<close> still wait\<close>
  "stage te sid agent r0 c R w \<longleftrightarrow> ready w \<and> pendingOf sid (db w) = [c] \<and> agentOf sid (db w) = Some agent \<and> runOf te r0 c \<and>
     successively follows (r0 # R) \<and> distinct (map r_Label (r0 # R)) \<and> [] \<notin> set (map r_Label (r0 # R)) \<and>
     (\<forall>r\<in>set R. r \<in> set (rules (db w)) \<and> openStep te sid r \<and> r_ID r \<notin> c_RuleID ` set (continuations (db w))) \<and>
     (\<forall>r\<in>set (rules (db w)). r \<in> set R \<or> bystander (set (map r_Label (r0 # R))) r) \<and>
     chainIDs (length R) w"

lemma chainIDs_step:
  assumes "chainIDs (Suc n) w" and "map c_ID (continuations (db w')) = map c_ID (continuations (db w)) @ [idAt ''cont'' (rand w) (nrand w + 6)]"
    and "rand w' = rand w" and "nrand w' = nrand w + 12"
  shows "chainIDs n w'"
  using assms unfolding chainIDs_def by simp

lemma chainIDs_first:
  "chainIDs (Suc n) w \<Longrightarrow> idAt ''cont'' (rand w) (nrand w + 6) \<notin> c_ID ` set (continuations (db w))"
  by (auto simp: chainIDs_def)

lemma filter_single:
  assumes "distinct xs" and "r \<in> set xs" and "\<And>x. x \<in> set xs \<Longrightarrow> P x \<longleftrightarrow> x = r"
  shows "filter P xs = [r]"
  using assms
proof (induction xs)
  case (Cons y ys)
  then show ?case by (cases "y = r") (auto simp: filter_empty_conv)
qed simp

lemma follows_later:
  "successively follows (r # R) \<Longrightarrow> x \<in> set R \<Longrightarrow> \<exists>y\<in>set (r # R). follows y x"
proof (induction R arbitrary: r)
  case (Cons s R)
  then show ?case by (cases "x = s") auto
qed simp

lemma bystander_silent:
  assumes "bystander L r" and "ev_Type ev \<in> set resultTypes" and "ev_Source ev \<in> L"
  shows "\<not> ruleQuery ev now r"
  using assms by (auto simp: bystander_def ruleQuery_def rule_active_def)

lemma bystander_mono: "bystander L r \<Longrightarrow> L' \<subseteq> L \<Longrightarrow> bystander L' r"
  by (auto simp: bystander_def)

text \<open>Which rules the completion of a step fires: the next step, and no other.\<close>

lemma completion_fires:
  assumes lab: "distinct (map r_Label (r0 # R))" "[] \<notin> set (map r_Label (r0 # R))" and f: "successively follows (r0 # R)"
    and rs: "distinct (rules d)" "\<forall>r\<in>set R. r \<in> set (rules d) \<and> openStep te sid r"
      "\<forall>r\<in>set (rules d). r \<in> set R \<or> bystander (set (map r_Label (r0 # R))) r"
    and ev: "ev_Type ev = ''continuation.completed''" "ev_Source ev = r_Label r0"
  shows "filter (ruleQuery ev now) (rules d) = (case R of [] \<Rightarrow> [] | r # _ \<Rightarrow> [r])"
proof (cases R)
  case Nil
  have "ev_Type ev \<in> set resultTypes" by (simp add: ev resultTypes_def)
  with Nil rs ev show ?thesis by (auto simp: filter_empty_conv dest!: bspec bystander_silent [where ev = ev and now = now])
next
  case (Cons r R')
  have "ruleQuery ev now x \<longleftrightarrow> x = r" if x: "x \<in> set (rules d)" for x
  proof (cases "x \<in> set R")
    case False
    with x rs(3) have "bystander (set (map r_Label (r0 # R))) x" by blast
    from bystander_silent [OF this] ev False Cons show ?thesis by (auto simp: resultTypes_def)
  next
    case True
    show ?thesis
    proof (cases "x = r")
      case True
      with f ev rs(2) Cons show ?thesis
        by (auto simp: follows_def openStep_def ruleQuery_def rule_active_def)
    next
      case False
      with True Cons have "x \<in> set R'" by simp
      with f Cons follows_later [of r R' x] obtain y where "y \<in> set R" "follows y x" by auto
      then have "sel_Source (r_Selector x) = r_Label y" "r_Label y \<noteq> r_Label r0" "r_Label y \<noteq> []"
        using lab by (auto simp: follows_def) (metis image_eqI)+
      with ev(2) False show ?thesis by (auto simp: ruleQuery_def)
    qed
  qed
  with rs(1,2) Cons show ?thesis by (simp add: filter_single)
qed

text \<open>A failed step fires none.\<close>

lemma failure_fires_none:
  assumes f: "successively follows (r0 # R)"
    and rs: "\<forall>r\<in>set (rules d). r \<in> set R \<or> bystander (set (map r_Label (r0 # R))) r"
    and ev: "ev_Type ev = ''continuation.failed''" "ev_Source ev = r_Label r0"
  shows "filter (ruleQuery ev now) (rules d) = []"
proof -
  have "\<not> ruleQuery ev now x" if x: "x \<in> set (rules d)" for x
  proof (cases "x \<in> set R")
    case True
    with follows_later [OF f] obtain y where "follows y x" by blast
    with ev(1) show ?thesis by (auto simp: follows_def ruleQuery_def)
  next
    case False
    with x rs have "bystander (set (map r_Label (r0 # R))) x" by blast
    from bystander_silent [OF this] ev show ?thesis by (simp add: resultTypes_def)
  qed
  then show ?thesis by (simp add: filter_empty_conv)
qed

section \<open>From stage to stage\<close>

lemma resultEvent_labelled:
  "c_Label c \<noteq> [] \<Longrightarrow> ev_Type (resultEvent c v) =
       (if v_state v = ContinuationCompleted then ''continuation.completed'' else ''continuation.failed'') \<and>
     ev_Source (resultEvent c v) = c_Label c \<and> ev_ID (resultEvent c v) = [] \<and> ev_Timestamp (resultEvent c v) = 0"
  by (simp add: resultEvent_def)

lemma stamped_sel [simp]: "ev_Type (stamped w ev) = ev_Type ev" "ev_Source (stamped w ev) = ev_Source ev"
  by (simp_all add: stamped_def)

lemma ready_conts_distinct:
  "ready w \<Longrightarrow> distinct (map c_ID (continuations (db w)))"
  by (auto simp: ready_def conf_cont_def intro: uniq_distinct dest: wf_db_uniqD(4))

lemma ready_rules_distinct:
  "ready w \<Longrightarrow> distinct (map r_ID (rules (db w)))"
  using wf_distinct_rules [of "db w" "\<lambda>_. True"] by (simp add: ready_def)

lemma newContinuation_runOf:
  assumes "openStep te sid r" and "Matches (r_Selector r) ev"
  shows "runOf te r (newContinuation te ev now i r) \<and> c_State (newContinuation te ev now i r) = ContinuationPending \<and>
    c_SessionID (newContinuation te ev now i r) = sid"
proof -
  obtain p where "RenderPrompt te r ev = Inr p" using assms(1) by (auto simp: openStep_def)
  with assms show ?thesis by (auto simp: runOf_def newContinuation_def openStep_def)
qed

definition consume :: "Rule list \<Rightarrow> Rule list \<Rightarrow> Rule list" where
  "consume R rs = map (\<lambda>x. if x \<in> set R then x\<lparr>r_Consumed := True\<rparr> else x) rs"

lemma consume_one:
  assumes "distinct (map r_ID rs)" and "r \<in> set rs"
  shows "update_where (\<lambda>x. r_ID x = r_ID r) (\<lambda>x. x\<lparr>r_Consumed := True\<rparr>) rs = consume [r] rs"
proof -
  have "r_ID x = r_ID r \<longleftrightarrow> x = r" if "x \<in> set rs" for x
    using assms that by (auto simp: distinct_map dest: inj_onD)
  then show ?thesis by (simp add: update_where_def consume_def cong: map_cong)
qed

lemma consume_comp:
  assumes "\<forall>x\<in>set (r # R). \<not> r_Consumed x"
  shows "consume R (consume [r] rs) = consume (r # R) rs"
  using assms by (auto simp: consume_def)

text \<open>The first event: with no other rule listening, it brings a chain to its first stage.\<close>

lemma stage_first:
  fixes w :: "'z ds"
  assumes w: "ready w" "pendingOf sid (db w) = []" "agentOf sid (db w) = Some agent"
    and ev: "ev_ID ev = []" "ev_Timestamp ev = 0"
    and m: "filter (ruleQuery (stamped w ev) (clock w (Suc (nclock w)))) (rules (db w)) = [r]"
    and chain: "successively follows (r # R)" "distinct (map r_Label (r # R))" "[] \<notin> set (map r_Label (r # R))"
      "\<forall>x\<in>set (r # R). x \<in> set (rules (db w)) \<and> openStep te sid x \<and> r_ID x \<notin> c_RuleID ` set (continuations (db w))"
      "\<forall>x\<in>set (rules (db w)). x \<in> set (r # R) \<or> bystander (set (map r_Label (r # R))) x"
    and ids: "chainIDs (Suc (length R)) w"
  shows "\<exists>res k w'. EngineIngest te ev w = (Inr res, w') \<and> stage te sid agent r k R w' \<and> runs w' = runs w \<and>
    rules (db w') = consume [r] (rules (db w)) \<and> continuations (db w') = continuations (db w) @ [k]"
proof -
  let ?now = "clock w (Suc (nclock w))" and ?ev = "stamped w ev"
  define k where k: "k = newContinuation te ?ev ?now (idAt ''cont'' (rand w) (nrand w + 6)) r"
  have r: "openStep te sid r" "r \<in> set (rules (db w))" "r_ID r \<notin> c_RuleID ` set (continuations (db w))" using chain(4) by simp_all
  have o: "r_OneShot r" using r(1) by (simp add: openStep_def)
  have new: "\<forall>x\<in>set (continuations (db w)). \<not> conf_cont x k"
    using chainIDs_first [OF ids] r(3) by (force simp: k conf_cont_def)
  have hb: "healthy w" "wf_bus (bus w)" using w(1) by (simp_all add: ready_def)
  from EngineIngest_one [OF hb ev refl m o k new] obtain n b p where b: "wf_bus b"
    and e: "EngineIngest te ev w = (Inr \<lparr>ir_Event = ?ev, ir_Continuations = [k]\<rparr>, w\<lparr>db := (db w)
      \<lparr>events := fst (insert_or_ignore conf_event ?ev (events (db w))), continuations := continuations (db w) @ [k],
       rules := update_where (\<lambda>x. r_ID x = r_ID r) (\<lambda>x. x\<lparr>r_Consumed := True\<rparr>) (rules (db w))\<rparr>,
      nclock := Suc (Suc (nclock w)), nrand := nrand w + 12, nfault := n, bus := b, pubs := p, wake := True\<rparr>)"
      (is "_ = (_, ?w')") by blast
  have dist: "distinct (map r_ID (rules (db w)))" by (rule ready_rules_distinct [OF w(1)])
  have rs: "rules (db ?w') = consume [r] (rules (db w))" by (simp add: consume_one [OF dist r(2)])
  have "r \<in> set (filter (ruleQuery ?ev ?now) (rules (db w)))" unfolding m by simp
  then have "Matches (r_Selector r) ?ev" by (simp add: ruleQuery_iff)
  note kr = newContinuation_runOf [OF r(1) this, of ?now "idAt ''cont'' (rand w) (nrand w + 6)", folded k]
  have rid: "c_RuleID k = r_ID r" "c_ID k = idAt ''cont'' (rand w) (nrand w + 6)" by (simp_all add: k)
  have wf': "wf_st ?w'" using preservesD [OF wf_EngineIngest _ e] w(1) by (simp add: ready_def)
  have "chainOneShot (db ?w')"
    using w(1) unfolding ready_def chainOneShot_def rs by (auto simp: consume_def list_all_iff)
  with wf' w(1) b have rdy: "ready ?w'" by (simp add: ready_def healthy_def)
  have notR: "x \<noteq> r" "r_ID x \<noteq> r_ID r" if "x \<in> set R" for x
  proof -
    show "x \<noteq> r" using that chain(2) by auto
    then show "r_ID x \<noteq> r_ID r" using that chain(4) dist by (auto simp: distinct_map dest: inj_onD)
  qed
  have "x \<in> set (rules (db ?w')) \<and> openStep te sid x \<and> r_ID x \<notin> c_RuleID ` set (continuations (db ?w'))" if "x \<in> set R" for x
    using that notR [OF that] chain(4) rid(1) unfolding rs by (auto simp: consume_def image_iff intro!: bexI [of _ x])
  moreover have "x \<in> set R \<or> bystander (set (map r_Label (r # R))) x" if "x \<in> set (rules (db ?w'))" for x
  proof -
    from that obtain y where y: "y \<in> set (rules (db w))" "x = (if y = r then y\<lparr>r_Consumed := True\<rparr> else y)"
      unfolding rs by (auto simp: consume_def)
    with chain(5) show ?thesis by (cases "y = r") (auto simp: bystander_def)
  qed
  moreover have "pendingOf sid (db ?w') = [k]" using w(2) kr by (simp add: pendingOf_def)
  moreover have "chainIDs (length R) ?w'" by (rule chainIDs_step [OF ids]) (simp_all add: rid)
  moreover have "agentOf sid (db ?w') = Some agent" using w(3) by (simp add: agentOf_def)
  ultimately have "stage te sid agent r k R ?w'"
    using rdy chain(1-3) kr by (simp add: stage_def)
  with e rs show ?thesis by (intro exI conjI) (assumption, simp_all)
qed

text \<open>
  One round at a stage: the step runs. If it succeeds, its completion brings the chain to the next stage or to its end;
  if it fails, the chain stops.
\<close>

lemma stage_round:
  fixes w :: "'z ds"
  assumes st: "stage te sid agent r0 c R w" and ok: "equipped ads agent"
  shows "\<exists>w' sess. workerIter te ads sid w = (Inr True, w') \<and> runs w' = runs w @ [(c, sess)] \<and>
    s_SessionID sess = sid \<and> s_Agent sess = agent \<and> ready w' \<and>
    (\<exists>x\<in>set (continuations (db w')). c_ID x = c_ID c \<and> c_State x = verdictState (succeeded ads (length (runs w)) (c, sess))) \<and>
    (if succeeded ads (length (runs w)) (c, sess) \<and> R \<noteq> []
     then rules (db w') = consume [hd R] (rules (db w)) \<and> (\<exists>k. stage te sid agent (hd R) k (tl R) w')
     else pendingOf sid (db w') = [] \<and> rules (db w') = rules (db w))"
proof -
  from st have s: "ready w" "pendingOf sid (db w) = [c]" "agentOf sid (db w) = Some agent" "runOf te r0 c"
    "successively follows (r0 # R)" "distinct (map r_Label (r0 # R))" "[] \<notin> set (map r_Label (r0 # R))"
    "\<forall>r\<in>set R. r \<in> set (rules (db w)) \<and> openStep te sid r \<and> r_ID r \<notin> c_RuleID ` set (continuations (db w))"
    "\<forall>r\<in>set (rules (db w)). r \<in> set R \<or> bystander (set (map r_Label (r0 # R))) r" "chainIDs (length R) w"
    by (simp_all add: stage_def)
  have c: "c \<in> set (pendingOf sid (db w))" "c_SessionID c = sid"
    using s(2) by (simp, metis (mono_tags, lifting) list.set_intros(1) mem_Collect_eq pendingOf_def set_filter)
  obtain w1 w' where it: "workerIter te ads sid w = (Inr True, w')"
    and claim: "ClaimContinuation (c_ID c) (w\<lparr>nfault := Suc (nfault w), nctx := Suc (nctx w)\<rparr>) = (Inr True, w1)"
    and run: "execute te ads c w1 = (Inr (), w')"
    using s(1,2) by (cases rule: workerIter_cases [of te ads sid w]) (auto simp: ready_def)
  from round_runs [OF s(1) c(1) claim run ok s(3)] obtain v sess w2 where a: "afterRun w c v sess w2"
    and v: "v_state v = verdictState (succeeded ads (length (runs w)) (c, sess))"
    and e: "emitResult te c v w2 = (Inr (), w')" and se: "s_SessionID sess = sid" "s_Agent sess = agent" by blast
  have r2: "ready w2" and runs2: "runs w2 = runs w @ [(c, sess)]"
    and f2: "rules (db w2) = rules (db w)" "nrand w2 = nrand w" "rand w2 = rand w" "agentOf sid (db w2) = Some agent"
      "map c_ID (continuations (db w2)) = map c_ID (continuations (db w))"
      "c_RuleID ` set (continuations (db w2)) = c_RuleID ` set (continuations (db w))"
    and done2: "\<exists>x\<in>set (continuations (db w2)). c_ID x = c_ID c \<and> c_State x = v_state v"
    and p2: "pendingOf sid (db w2) = []"
    using a s(2,3) c(2) unfolding afterRun_def by (auto simp flip: set_map)
  have lab: "c_Label c = r_Label r0" "c_Label c \<noteq> []" using s(4,7) by (auto simp: runOf_def)
  note rev = resultEvent_labelled [OF lab(2), of v]
  let ?ev = "stamped w2 (resultEvent c v)" and ?now = "clock w2 (Suc (nclock w2))"
  have hb: "healthy w2" "wf_bus (bus w2)" and rdy: "ready w'"
    using r2 emitResult_ready [OF r2 e] by (simp_all add: ready_def)
  show ?thesis
  proof (cases "succeeded ads (length (runs w)) (c, sess) \<and> R \<noteq> []")
    case False
    have m: "filter (ruleQuery ?ev ?now) (rules (db w2)) = []"
    proof (cases "succeeded ads (length (runs w)) (c, sess)")
      case True
      with False have "R = []" by simp
      moreover have "distinct (rules (db w2))" using ready_rules_distinct [OF r2] by (simp add: distinct_map)
      ultimately show ?thesis
        using completion_fires [OF s(6,7,5), of "db w2" te sid ?ev ?now] s(8,9) f2(1) rev lab v True by simp
    next
      case F: False
      show ?thesis by (rule failure_fires_none [OF s(5)]) (use s(9) f2(1) rev lab v F in auto)
    qed
    from EngineIngest_none [OF hb, of "resultEvent c v" te] rev m obtain res w3 where
      e3: "EngineIngest te (resultEvent c v) w2 = (Inr res, w3)" "runs w3 = runs w2" "rules (db w3) = rules (db w2)"
        "continuations (db w3) = continuations (db w2)" by fastforce
    with e have "w3 = w'" by (simp add: emitResult_def tryE_def)
    with False show ?thesis using it runs2 se done2 p2 e3 f2(1) v rdy by (auto simp: pendingOf_def)
  next
    case True
    then obtain r R' where R: "R = r # R'" by (cases R) auto
    have comp: "v_state v = ContinuationCompleted" using True v by simp
    have dr: "distinct (rules (db w2))" using ready_rules_distinct [OF r2] by (simp add: distinct_map)
    have m: "filter (ruleQuery ?ev ?now) (rules (db w2)) = (case R of [] \<Rightarrow> [] | r # _ \<Rightarrow> [r])"
      by (rule completion_fires [OF s(6,7,5) dr]) (use s(8,9) f2(1) rev lab comp in auto)
    have ch: "successively follows (r # R')" "distinct (map r_Label (r # R'))" "[] \<notin> set (map r_Label (r # R'))"
      using s(5-7) R by auto
    have "\<exists>res k w3. EngineIngest te (resultEvent c v) w2 = (Inr res, w3) \<and> stage te sid agent r k R' w3 \<and> runs w3 = runs w2 \<and>
        rules (db w3) = consume [r] (rules (db w2)) \<and> continuations (db w3) = continuations (db w2) @ [k]"
    proof (rule stage_first [OF r2 p2 f2(4) _ _ _ ch])
      show "\<forall>x\<in>set (rules (db w2)). x \<in> set (r # R') \<or> bystander (set (map r_Label (r # R'))) x"
        using s(9) f2(1) R by (auto intro: bystander_mono)
      show "chainIDs (Suc (length R')) w2" using s(10) f2 R by (simp add: chainIDs_def)
      show "\<forall>x\<in>set (r # R'). x \<in> set (rules (db w2)) \<and> openStep te sid x \<and> r_ID x \<notin> c_RuleID ` set (continuations (db w2))"
        using s(8) f2 R by simp
    qed (use rev m R in simp_all)
    then obtain res k w3 where e3: "EngineIngest te (resultEvent c v) w2 = (Inr res, w3)" "stage te sid agent r k R' w3"
      "runs w3 = runs w2" "rules (db w3) = consume [r] (rules (db w2))" "continuations (db w3) = continuations (db w2) @ [k]" by blast
    with e have "w3 = w'" by (simp add: emitResult_def tryE_def)
    with True show ?thesis using it runs2 se done2 e3 f2(1) R v rdy by auto
  qed
qed

text \<open>
  All stages: the worker of the session runs the steps in order up to the first that fails, and returns. The description of
  what has run, for the steps that were to run, from run number \<open>n\<close> on.
\<close>

fun ranInOrder :: "(nat \<Rightarrow> 'b \<Rightarrow> bool) \<Rightarrow> (nat \<Rightarrow> 'a \<Rightarrow> 'b \<Rightarrow> bool) \<Rightarrow> nat \<Rightarrow> 'a list \<Rightarrow> 'b list \<Rightarrow> bool" where
  "ranInOrder ok P n [] xs \<longleftrightarrow> xs = []"
| "ranInOrder ok P n (s # ss) xs \<longleftrightarrow> (case xs of
     [] \<Rightarrow> False
   | x # xs' \<Rightarrow> P n s x \<and> (if ok n x then ranInOrder ok P (Suc n) ss xs' else xs' = []))"

lemma ranInOrder_via:
  assumes "list_all2 Q rs ss" and "ranInOrder ok P n rs xs" and "\<And>n r s x. Q r s \<Longrightarrow> P n r x \<Longrightarrow> P' n s x"
  shows "ranInOrder ok P' n ss xs"
  using assms(1,2)
  by (induction arbitrary: n xs rule: list_all2_induct) (auto split: list.splits if_splits intro: assms(3))

definition ranFor :: "'t template_engine \<Rightarrow> adapters \<Rightarrow> string \<Rightarrow> string \<Rightarrow> database \<Rightarrow> nat \<Rightarrow> Rule \<Rightarrow> Continuation \<times> Session \<Rightarrow> bool" where
  \<comment> \<open>this run was for this rule, in its session and by its agent, and its row in \<open>d\<close> holds its outcome\<close>
  "ranFor te ads sid agent d n r cs \<longleftrightarrow> runOf te r (fst cs) \<and> s_SessionID (snd cs) = sid \<and> s_Agent (snd cs) = agent \<and>
     (\<exists>x\<in>set (continuations d). c_ID x = c_ID (fst cs) \<and> c_State x = verdictState (succeeded ads n cs))"

lemma chain_runs:
  fixes w :: "'z ds"
  assumes "stage te sid agent r0 c R w" and ok: "equipped ads agent"
  shows "\<exists>w' new. workerLoop te ads sid w = Some w' \<and> runs w' = runs w @ new \<and>
    ranInOrder (succeeded ads) (ranFor te ads sid agent (db w')) (length (runs w)) (r0 # R) new \<and>
    rules (db w') = consume (take (length new - 1) R) (rules (db w)) \<and> pendingOf sid (db w') = []"
  using assms(1)
proof (induction R arbitrary: r0 c w)
  case (Cons r R)
  from stage_round [OF Cons.prems ok] obtain w1 sess where raw: "workerIter te ads sid w = (Inr True, w1)" "runs w1 = runs w @ [(c, sess)]"
    "s_SessionID sess = sid" "s_Agent sess = agent" "ready w1"
    "\<exists>x\<in>set (continuations (db w1)). c_ID x = c_ID c \<and> c_State x = verdictState (succeeded ads (length (runs w)) (c, sess))"
    "if succeeded ads (length (runs w)) (c, sess) \<and> r # R \<noteq> []
     then rules (db w1) = consume [hd (r # R)] (rules (db w)) \<and> (\<exists>k. stage te sid agent (hd (r # R)) k (tl (r # R)) w1)
     else pendingOf sid (db w1) = [] \<and> rules (db w1) = rules (db w)" by blast
  note it = raw(1-6) raw(7) [unfolded list.sel]
  have ro: "runOf te r0 c" "\<forall>x\<in>set (r # R). \<not> r_Consumed x" using Cons.prems by (auto simp: stage_def openStep_def)
  show ?case
  proof (cases "succeeded ads (length (runs w)) (c, sess)")
    case True
    with it(7) obtain k where st: "stage te sid agent r k R w1" and rs: "rules (db w1) = consume [r] (rules (db w))" by auto
    from Cons.IH [OF st] obtain w' new where IH: "workerLoop te ads sid w1 = Some w'" "runs w' = runs w1 @ new"
      "ranInOrder (succeeded ads) (ranFor te ads sid agent (db w')) (length (runs w1)) (r # R) new"
      "rules (db w') = consume (take (length new - 1) R) (rules (db w1))" "pendingOf sid (db w') = []" by blast
    have "progress sid (db w1) (db w')" using wl.loop_returns [OF it(5), of te ads sid] IH(1) by auto
    then have "\<exists>x\<in>set (continuations (db w')). c_ID x = c_ID c \<and> c_State x = ContinuationCompleted"
      using it(6) True unfolding progress_def by fastforce
    then have "ranInOrder (succeeded ads) (ranFor te ads sid agent (db w')) (length (runs w)) (r0 # r # R) ((c, sess) # new)"
      using IH(3) it(2-4) ro(1) True by (simp add: ranFor_def)
    moreover have "workerLoop te ads sid w = Some w'" using it(1) IH(1) by (simp add: workerLoop.simps [of te ads sid w])
    moreover have "new \<noteq> []" using IH(3) by (auto split: list.splits)
    then have "rules (db w') = consume (take (length ((c, sess) # new) - 1) (r # R)) (rules (db w))"
      using ro(2) unfolding IH(4) rs by (cases new) (auto intro!: consume_comp dest!: in_set_takeD)
    ultimately show ?thesis using it IH by (intro exI [of _ w'] exI [of _ "(c, sess) # new"]) simp
  next
    case False
    with it(7) have p: "pendingOf sid (db w1) = []" "rules (db w1) = rules (db w)" by simp_all
    obtain w2 where w2: "workerIter te ads sid w1 = (Inr False, w2)" "db w2 = db w1" "runs w2 = runs w1"
      using it(5) p(1) by (cases rule: workerIter_cases [of te ads sid w1]) auto
    have "workerLoop te ads sid w = Some w2"
      using it(1) w2(1) by (simp add: workerLoop.simps [of te ads sid w] workerLoop.simps [of te ads sid w1])
    moreover have "ranInOrder (succeeded ads) (ranFor te ads sid agent (db w2)) (length (runs w)) (r0 # r # R) [(c, sess)]"
      using it(3,4,6) w2(2) False ro(1) by (simp add: ranFor_def)
    ultimately show ?thesis using it(2) w2 p False by (intro exI [of _ w2] exI [of _ "[(c, sess)]"]) (simp add: consume_def)
  qed
next
  case Nil
  from stage_round [OF Nil ok] obtain w1 sess where it: "workerIter te ads sid w = (Inr True, w1)" "runs w1 = runs w @ [(c, sess)]"
    "s_SessionID sess = sid" "s_Agent sess = agent" "ready w1"
    "\<exists>x\<in>set (continuations (db w1)). c_ID x = c_ID c \<and> c_State x = verdictState (succeeded ads (length (runs w)) (c, sess))"
    "pendingOf sid (db w1) = []" "rules (db w1) = rules (db w)" by auto
  obtain w2 where w2: "workerIter te ads sid w1 = (Inr False, w2)" "db w2 = db w1" "runs w2 = runs w1"
    using it(5,7) by (cases rule: workerIter_cases [of te ads sid w1]) auto
  have "workerLoop te ads sid w = Some w2"
    using it(1) w2(1) by (simp add: workerLoop.simps [of te ads sid w] workerLoop.simps [of te ads sid w1])
  moreover have "ranInOrder (succeeded ads) (ranFor te ads sid agent (db w2)) (length (runs w)) [r0] [(c, sess)]"
    using it(3,4,6) w2(2) Nil by (simp add: ranFor_def stage_def)
  ultimately show ?case using it w2 by (intro exI [of _ w2] exI [of _ "[(c, sess)]"]) (simp add: consume_def)
qed

section \<open>A workflow runs in order\<close>

definition linear :: "Workflow \<Rightarrow> bool" where
  \<comment> \<open>each step waits for the completion of the step before it\<close>
  "linear wk \<longleftrightarrow> successively (\<lambda>s t. stp_On t = \<lparr>on_Type = ''continuation.completed'', on_Source = stp_Label s\<rparr>) (wk_Steps wk)"

definition ruleFor :: "Workflow \<Rightarrow> Rule \<Rightarrow> Step \<Rightarrow> bool" where
  "ruleFor wk r s \<longleftrightarrow> r_Selector r = \<lparr>sel_Type = on_Type (stp_On s), sel_Source = on_Source (stp_On s)\<rparr> \<and>
     r_SessionID r = wk_Session wk \<and> r_PromptTemplate r = stp_Prompt s \<and> r_Label r = stp_Label s \<and>
     r_OneShot r \<and> \<not> r_Consumed r \<and> r_ExpiresAt r = None"

lemma map_eq_list_all2: "map f xs = map g ys \<longleftrightarrow> list_all2 (\<lambda>x y. f x = g y) xs ys"
  by (induction xs arbitrary: ys) (auto simp: Cons_eq_map_conv list_all2_Cons1)

lemma list_all2_join:
  assumes "list_all2 P xs ys" and "list_all2 Q xs zs" and "\<And>x y z. P x y \<Longrightarrow> Q x z \<Longrightarrow> S y z"
  shows "list_all2 S ys zs"
  using assms(1,2) by (auto simp: list_all2_conv_all_nth intro!: assms(3) [where x = "xs ! _"])

lemma installed_ruleFor:
  assumes "map (\<lambda>r. r\<lparr>r_ID := [], r_CreatedAt := 0\<rparr>) added = Rules wk"
  shows "list_all2 (ruleFor wk) added (wk_Steps wk)"
proof -
  let ?g = "\<lambda>s. \<lparr>r_ID = [], r_Selector = \<lparr>sel_Type = on_Type (stp_On s), sel_Source = on_Source (stp_On s)\<rparr>,
     r_ActionKind = ActionContinueSession, r_SessionID = wk_Session wk, r_PromptTemplate = stp_Prompt s,
     r_Label = stp_Label s, r_OneShot = True, r_Consumed = False, r_ExpiresAt = None, r_CreatedAt = 0\<rparr>"
  have "list_all2 (\<lambda>r s. r\<lparr>r_ID := [], r_CreatedAt := 0\<rparr> = ?g s) added (wk_Steps wk)"
    using assms by (simp add: Rules_def map_eq_list_all2)
  then show ?thesis
  proof (rule list_all2_mono)
    fix r :: Rule and s :: Step
    assume "r\<lparr>r_ID := [], r_CreatedAt := 0\<rparr> = ?g s"
    then show "ruleFor wk r s" by (cases r) (simp add: ruleFor_def)
  qed
qed

lemma ruleFor_labels: "list_all2 (ruleFor wk) rs ss \<Longrightarrow> map r_Label rs = map stp_Label ss"
  by (induction rule: list_all2_induct) (auto simp: ruleFor_def)

lemma ruleFor_follows:
  assumes "list_all2 (ruleFor wk) rs ss"
    and "successively (\<lambda>s t. stp_On t = \<lparr>on_Type = ''continuation.completed'', on_Source = stp_Label s\<rparr>) ss"
  shows "successively follows rs"
  using assms
proof (induction rule: list_all2_induct)
  case (Cons r rs s ss)
  then show ?case
    by (cases rs; cases ss) (auto simp: follows_def ruleFor_def)
qed simp

lemma RenderPrompt_Inr:
  "RenderPrompt te r ev = Inr p \<longleftrightarrow> (\<exists>t. t_parse te (r_PromptTemplate r) = Inr t \<and> t_execute te t ev = Inr p)"
  by (cases "t_parse te (r_PromptTemplate r)") (auto simp: RenderPrompt_def)

lemma Parse_labels: "Parse te yaml data = Inr wk \<Longrightarrow> [] \<notin> set (map stp_Label (wk_Steps wk)) \<and> distinct (map stp_Label (wk_Steps wk)) \<and> wk_Steps wk \<noteq> []"
proof -
  assume p: "Parse te yaml data = Inr wk"
  have "x \<in> set (labelled i ss) \<Longrightarrow> stp_Label x \<noteq> []" for x i ss
    by (induction ss arbitrary: i) (auto simp: stepLabel_def split: if_splits)
  with p show ?thesis by (fastforce simp: Parse_def parseSteps_Inr case_sum_Inr_iff split: sum.splits if_splits)
qed

definition ranStep :: "'t template_engine \<Rightarrow> adapters \<Rightarrow> Workflow \<Rightarrow> database \<Rightarrow> nat \<Rightarrow> Step \<Rightarrow> Continuation \<times> Session \<Rightarrow> bool" where
  \<comment> \<open>this run was for this step, in the workflow's session and by its agent, with the prompt rendered from an event the step waits for,
    and its row in \<open>d\<close> holds its outcome\<close>
  "ranStep te ads wk d n s cs \<longleftrightarrow> c_Label (fst cs) = stp_Label s \<and> s_SessionID (snd cs) = wk_Session wk \<and> s_Agent (snd cs) = wk_Agent wk \<and>
     (\<exists>t e. t_parse te (stp_Prompt s) = Inr t \<and> t_execute te t e = Inr (c_Prompt (fst cs)) \<and>
        ev_Type e = on_Type (stp_On s) \<and> on_Source (stp_On s) \<in> {[], ev_Source e}) \<and>
     (\<exists>x\<in>set (continuations d). c_ID x = c_ID (fst cs) \<and> c_State x = verdictState (succeeded ads n cs))"

lemma ranFor_step:
  assumes "ruleFor wk r s" and "ranFor te ads (wk_Session wk) (wk_Agent wk) d n r cs"
  shows "ranStep te ads wk d n s cs"
  using assms by (auto simp: ranStep_def ranFor_def ruleFor_def runOf_def Matches_def RenderPrompt_Inr split: if_splits)

lemma installed_openStep:
  assumes parse: "Parse te yaml data = Inr wk" and rf: "list_all2 (ruleFor wk) added (wk_Steps wk)"
    and prompts: "\<forall>s\<in>set (wk_Steps wk). \<forall>t ev. t_parse te (stp_Prompt s) = Inr t \<longrightarrow> \<not> isl (t_execute te t ev)"
    and x: "x \<in> set added"
  shows "openStep te (wk_Session wk) x"
proof -
  obtain s where s: "s \<in> set (wk_Steps wk)" "ruleFor wk x s"
    using rf x by (metis in_set_conv_nth list_all2_conv_all_nth)
  have "\<exists>t. t_parse te (stp_Prompt s) = Inr t"
    using Parse_InrD [OF parse] s(1)
    by (cases "t_parse te (stp_Prompt s)") (auto simp: list_all_iff stepOk_def ValidatePromptTemplate_def)
  then obtain t where t: "t_parse te (stp_Prompt s) = Inr t" by blast
  have "\<exists>p. RenderPrompt te x e = Inr p" for e
  proof -
    have "\<not> isl (t_execute te t e)" using prompts s(1) t by blast
    with s(2) t show ?thesis by (cases "t_execute te t e") (simp_all add: RenderPrompt_def ruleFor_def)
  qed
  with s(2) show ?thesis by (simp add: openStep_def ruleFor_def)
qed

lemma first_event_matches:
  assumes dist: "distinct (map r_ID (old @ r # R))" and r: "ruleFor wk r s" and f: "successively follows (r # R)"
    and ev: "ev_Type ev = on_Type (stp_On s)" "on_Source (stp_On s) \<in> {[], ev_Source ev}" "ev_Type ev \<noteq> ''continuation.completed''"
    and others: "\<forall>x\<in>set old. r_Consumed x \<or> \<not> Matches (r_Selector x) ev"
  shows "filter (ruleQuery (stamped w ev) now) (old @ r # R) = [r]"
proof (rule filter_single)
  show "distinct (old @ r # R)" using dist by (simp only: distinct_map)
  fix x
  assume x: "x \<in> set (old @ r # R)"
  consider "x \<in> set old" "x \<noteq> r" | "x = r" | "x \<in> set R" "x \<noteq> r"
    using x dist by (auto simp: distinct_map)
  then show "ruleQuery (stamped w ev) now x \<longleftrightarrow> x = r"
  proof cases
    case 1
    with others show ?thesis by (auto simp: ruleQuery_def rule_active_def Matches_def)
  next
    case 2
    with r ev show ?thesis by (auto simp: ruleQuery_def rule_active_def ruleFor_def)
  next
    case 3
    with f follows_later [of r R x] have "sel_Type (r_Selector x) = ''continuation.completed''" by (auto simp: follows_def)
    with ev(3) 3 show ?thesis by (auto simp: ruleQuery_def)
  qed
qed simp

lemma consume_prefix:
  assumes "distinct (old @ added)"
  shows "consume (take n added) (old @ added) = old @ map (\<lambda>r. r\<lparr>r_Consumed := True\<rparr>) (take n added) @ drop n added"
proof -
  have d: "distinct (old @ take n added @ drop n added)" using assms by simp
  have "consume T (A @ T @ B) = A @ map (\<lambda>r. r\<lparr>r_Consumed := True\<rparr>) T @ B" if "distinct (A @ T @ B)" for A T B
    using that by (auto simp: consume_def intro!: map_idI)
  from this [OF d] show ?thesis by simp
qed


section \<open>A concrete run\<close>

definition exFirst :: Event where
  "exFirst = \<lparr>ev_ID = [], ev_Type = ''docker.healthy'', ev_Source = ''db'', ev_Payload = Map.empty, ev_Timestamp = 0\<rparr>"

lemma exChained_ready: "ready exChained"
proof -
  have "chainOneShot (db exChained)" by code_simp
  then show ?thesis using exChained_facts by (simp add: ready_def exChained_def exDaemon_def)
qed

lemma exClaude: "equipped (\<lambda>_. daemonRegistry (exProc 0)) ''claude''"
  "s_Agent sess = ''claude'' \<Longrightarrow> succeeded (\<lambda>_. daemonRegistry (exProc 0)) n (c, sess)"
  by (simp_all add: equipped_def succeeded_def daemonRegistry_def Claude_def ClaudeResume_def runCLI_def exProc_def Let_def)


end
