(* ===== verification/Client.thy ===== *)
theory Client
  imports Lifecycle
begin

text \<open>
  The client side of the daemon's socket: one call, the event stream and the automatic
  start of the daemon (\<^verbatim>\<open>src/internal/client/client.go\<close>,
  \<^verbatim>\<open>ensure.go\<close>), and the version check of \<^verbatim>\<open>src/cmd/runtimepulse/main.go\<close>.

  A client talks to the daemon whose state is the state of the call: \<open>Call\<close> runs one
  round of \<open>handleConn\<close> on it. What the socket does is the record \<open>wire\<close>: dialling,
  sending and receiving may each fail, and when receiving fails the request has been served
  all the same. JSON is a parameter: \<open>encoder\<close> renders the parameters of each method, and the
  daemon's \<open>codec\<close> reads them.
\<close>

section \<open>Calls\<close>

record wire =
  dialErr :: "error option"
  sendErr :: "error option"
  recvErr :: "error option"

record encoder =
  enc_inject :: "InjectParams \<Rightarrow> string"
  enc_events :: "string \<times> int \<Rightarrow> string"
  enc_rule :: "RuleParams \<Rightarrow> string"
  enc_all :: "bool \<Rightarrow> string"
  enc_id :: "string \<Rightarrow> string"
  enc_session :: "Session \<Rightarrow> string"
  enc_state :: "string \<Rightarrow> string"
  enc_run :: "string \<times> string \<Rightarrow> string"
  enc_watch :: "WatchParams \<Rightarrow> string"

record 't Client =
  \<comment> \<open>the connection to a daemon, and the daemon's parameters\<close>
  cl_te :: "'t template_engine"
  cl_env :: rpc_env
  cl_cd :: codec
  cl_en :: encoder
  cl_wire :: wire

definition failIf :: "error option \<Rightarrow> ('s, unit) io" where
  "failIf e = fromSum (case e of Some x \<Rightarrow> Inl x | None \<Rightarrow> Inr ())"

definition readResponse :: "wire \<Rightarrow> (rpc_result \<Rightarrow> error + 'a) \<Rightarrow> 'a \<Rightarrow> response list \<Rightarrow> error + 'a" where
  \<comment> \<open>the answer is decoded into \<open>out\<close>, whose value is \<open>zero\<close> before\<close>
  "readResponse wi decode zero rs = (case recvErr wi of
     Some e \<Rightarrow> Inl e
   | None \<Rightarrow> (case rs of
       [] \<Rightarrow> Inl (GoError ''EOF'')
     | resp # _ \<Rightarrow>
         if rs_Error resp \<noteq> [] then Inl (GoError (rs_Error resp))
         else (case rs_Result resp of None \<Rightarrow> Inr zero | Some x \<Rightarrow> decode x)))"

definition Call :: "'t Client \<Rightarrow> string \<Rightarrow> string \<Rightarrow> (rpc_result \<Rightarrow> error + 'a) \<Rightarrow> 'a \<Rightarrow> ('z dm, 'a) io" where
  \<comment> \<open>for every method but \<open>events.follow\<close>, which is called by \<open>Follow\<close> only\<close>
  "Call c method params decode zero =
     bindE (failIf (dialErr (cl_wire c))) (\<lambda>_.
     bindE (failIf (sendErr (cl_wire c))) (\<lambda>_ w.
     case handleConn (cl_te c) (cl_env c) (cl_cd c) [(\<lparr>rq_ID = 1, rq_Method = method, rq_Params = params\<rparr>, True)] w of
       (rs, _, w1) \<Rightarrow> (readResponse (cl_wire c) decode zero rs, w1)))"

section \<open>The event stream\<close>

datatype incoming =
    Frame string Event   \<comment> \<open>a notification, with its method\<close>
  | Expire               \<comment> \<open>the context ends by its deadline or by its parent\<close>

fun followLoop :: "('s \<Rightarrow> bool) \<Rightarrow> ('s \<Rightarrow> 's) \<Rightarrow> (Event \<Rightarrow> 's \<Rightarrow> 's) \<Rightarrow> error \<Rightarrow> incoming list \<Rightarrow> 's \<Rightarrow> error option \<times> 's" where
  \<comment> \<open>what the decoder yields until it fails with \<open>err\<close>, because the daemon or the end of the context closed
     the connection; \<open>s\<close> is the caller's state, its context included\<close>
  "followLoop ctxDone expire fn err [] s = (if ctxDone s then None else Some err, s)"
| "followLoop ctxDone expire fn err (Frame method ev # ins) s =
     followLoop ctxDone expire fn err ins (if method = ''event'' then fn ev s else s)"
| "followLoop ctxDone expire fn err (Expire # ins) s = followLoop ctxDone expire fn err ins (expire s)"

definition Follow :: "wire \<Rightarrow> string \<Rightarrow> ('s \<Rightarrow> bool) \<Rightarrow> ('s \<Rightarrow> 's) \<Rightarrow> (Event \<Rightarrow> 's \<Rightarrow> 's) \<Rightarrow> error \<Rightarrow> incoming list \<Rightarrow> 's \<Rightarrow>
    error option \<times> 's" where
  \<comment> \<open>with the error text of the first response\<close>
  "Follow wi first ctxDone expire fn err ins s = (case (dialErr wi, sendErr wi, recvErr wi) of
     (Some e, _, _) \<Rightarrow> (Some e, s)
   | (None, Some e, _) \<Rightarrow> (Some e, s)
   | (None, None, Some e) \<Rightarrow> (Some e, s)
   | (None, None, None) \<Rightarrow>
       if first \<noteq> [] then (Some (GoError first), s) else followLoop ctxDone expire fn err ins s)"

section \<open>Starting the daemon\<close>

record launch =
  pingAnswer :: "nat \<Rightarrow> error option"   \<comment> \<open>what the next pings answer\<close>
  pings :: nat
  spawned :: "(string \<times> string) list"   \<comment> \<open>executable and state directory of the processes started\<close>
  sleeps :: nat

record launch_env =
  mkdirErr :: "error option"
  executable :: "error + string"
  openLogErr :: "error option"
  startErr :: "error option"

definition ping :: "launch \<Rightarrow> error option \<times> launch" where
  "ping l = (pingAnswer l (pings l), l\<lparr>pings := Suc (pings l)\<rparr>)"

fun awaitDaemon :: "nat \<Rightarrow> string \<Rightarrow> (launch, unit) io" where
  \<comment> \<open>the loop, with the number of rounds left\<close>
  "awaitDaemon 0 dir l = (Inl (GoError (''daemon did not start; see '' @ LogPath dir)), l)"
| "awaitDaemon (Suc n) dir l = (case ping l of
     (None, l1) \<Rightarrow> (Inr (), l1)
   | (Some _, l1) \<Rightarrow> awaitDaemon n dir (l1\<lparr>sleeps := Suc (sleeps l1)\<rparr>))"

definition EnsureDaemon :: "launch_env \<Rightarrow> string \<Rightarrow> (launch, unit) io" where
  "EnsureDaemon le dir l = (case ping l of
     (None, l1) \<Rightarrow> (Inr (), l1)
   | (Some _, l1) \<Rightarrow>
       bindE (failIf (mkdirErr le)) (\<lambda>_.
       bindE (fromSum (executable le)) (\<lambda>exe.
       bindE (failIf (openLogErr le)) (\<lambda>_.
       bindE (failIf (startErr le)) (\<lambda>_.
       bindE (modify (\<lambda>l. l\<lparr>spawned := spawned l @ [(exe, dir)]\<rparr>)) (\<lambda>_.
       awaitDaemon 30 dir))))) l1)"

definition versionWarning :: "string \<Rightarrow> error + string \<Rightarrow> string option" where
  \<comment> \<open>the warning for the daemon's answer to \<open>status\<close>\<close>
  "versionWarning local st =
     (if Contains local ''dev'' then None
      else (case st of
        Inl _ \<Rightarrow> None
      | Inr remote \<Rightarrow>
          if remote = [] \<or> Contains remote ''dev'' \<or> remote = local then None
          else Some (''warning: daemon is '' @ remote @ '' but this client is '' @ local @ '' '' @ [CHR 0xE2, CHR 0x80, CHR 0x94] @
            '' stop the daemon (it auto-restarts on next use) to update'' @ [CHR 0x0A])))"

definition dialMain :: "error + string \<Rightarrow> launch_env \<Rightarrow> string \<Rightarrow> error + string \<Rightarrow> (launch, string option) io" where
  \<comment> \<open>\<open>dial\<close> of the commands: the state directory, the daemon, and the warning printed, if any\<close>
  "dialMain dir le local st l = (case dir of
     Inl e \<Rightarrow> (Inl e, l)
   | Inr d \<Rightarrow> (case EnsureDaemon le d l of
       (Inl e, l1) \<Rightarrow> (Inl e, l1)
     | (Inr _, l1) \<Rightarrow> (Inr (versionWarning local st), l1)))"

section \<open>What a call does\<close>

definition connected :: "wire \<Rightarrow> bool" where
  "connected wi \<longleftrightarrow> dialErr wi = None \<and> sendErr wi = None \<and> recvErr wi = None"

definition answer :: "(rpc_result \<Rightarrow> error + 'a) \<Rightarrow> 'a \<Rightarrow> error + rpc_result \<Rightarrow> error + 'a" where
  \<comment> \<open>the daemon's result as the client sees it\<close>
  "answer decode zero r = (case r of
     Inl e \<Rightarrow> if Error e = [] then Inr zero else Inl (GoError (Error e))
   | Inr x \<Rightarrow> decode x)"

lemma failIf_run [simp]: "failIf None w = (Inr (), w)" "failIf (Some e) w = (Inl e, w)"
  by (simp_all add: failIf_def fromSum_def)

lemma Call_run:
  assumes "connected (cl_wire c)" and "method \<noteq> ''events.follow''"
    and "rpcDispatch (cl_te c) (cl_env c) (cl_cd c) method params w = (r, w')"
  shows "Call c method params decode zero w = (answer decode zero r, w')"
  using assms by (cases r) (simp_all add: Call_def bindE_def connected_def readResponse_def answer_def)

lemma Call_never_sent:
  assumes "dialErr (cl_wire c) \<noteq> None \<or> sendErr (cl_wire c) \<noteq> None"
  shows "\<exists>e. Call c method params decode zero w = (Inl e, w)"
  using assms by (cases "dialErr (cl_wire c)") (auto simp: Call_def bindE_def)

lemma unmarshal_sent:
  assumes "dec raw = Inr p" and "raw \<noteq> []"
  shows "unmarshalParams zero dec raw w = (Inr p, w)"
  using assms by (simp add: unmarshalParams_def fromSum_def)

section \<open>What a stream delivers\<close>

text \<open>
  The contract of a consumer: the end of its context is not undone by its callback. Then the stream
  ends without an error exactly when the context has ended, by itself or in the callback.
\<close>

locale consumer =
  fixes ctxDone :: "'s \<Rightarrow> bool" and expire :: "'s \<Rightarrow> 's" and fn :: "Event \<Rightarrow> 's \<Rightarrow> 's"
  assumes expire_done: "ctxDone (expire s)"
    and fn_done: "ctxDone s \<Longrightarrow> ctxDone (fn ev s)"
begin

lemma done_stays: "ctxDone s \<Longrightarrow> fst (followLoop ctxDone expire fn err ins s) = None"
proof (induction ins arbitrary: s)
  case (Cons i ins)
  then show ?case by (cases i) (simp_all add: expire_done fn_done)
qed simp

lemma expired_ends: "Expire \<in> set ins \<Longrightarrow> fst (followLoop ctxDone expire fn err ins s) = None"
proof (induction ins arbitrary: s)
  case (Cons i ins)
  then show ?case by (cases i) (auto simp: expire_done done_stays)
qed simp

lemma ends_iff: "fst (followLoop ctxDone expire fn err ins s) = (if ctxDone (snd (followLoop ctxDone expire fn err ins s)) then None else Some err)"
  by (induction ctxDone expire fn err ins s rule: followLoop.induct) auto

end

fun streamed :: "incoming list \<Rightarrow> Event list" where
  \<comment> \<open>the events the callback sees\<close>
  "streamed [] = []"
| "streamed (Frame method ev # ins) = (if method = ''event'' then ev # streamed ins else streamed ins)"
| "streamed (Expire # ins) = streamed ins"

section \<open>What starting the daemon does\<close>

lemma find_upt_Suc: "find P [0..<Suc n] = (if P 0 then Some 0 else map_option Suc (find (\<lambda>k. P (Suc k)) [0..<n]))"
proof -
  have "find P (map Suc xs) = map_option Suc (find (\<lambda>k. P (Suc k)) xs)" for xs by (induction xs) auto
  moreover have "[0..<Suc n] = 0 # map Suc [0..<n]" by (simp add: upt_conv_Cons map_Suc_upt del: upt_Suc)
  ultimately show ?thesis by simp
qed

lemma awaitDaemon_run:
  "awaitDaemon n dir l = (case find (\<lambda>k. pingAnswer l (pings l + k) = None) [0..<n] of
     Some k \<Rightarrow> (Inr (), l\<lparr>pings := Suc (pings l + k), sleeps := sleeps l + k\<rparr>)
   | None \<Rightarrow> (Inl (GoError (''daemon did not start; see '' @ LogPath dir)), l\<lparr>pings := pings l + n, sleeps := sleeps l + n\<rparr>))"
proof (induction n arbitrary: l)
  case (Suc n)
  show ?case
  proof (cases "pingAnswer l (pings l)")
    case None
    then show ?thesis by (simp add: ping_def find_upt_Suc del: upt_Suc)
  next
    case (Some e)
    with Suc.IH [of "l\<lparr>pings := Suc (pings l), sleeps := Suc (sleeps l)\<rparr>"] show ?thesis
      by (simp add: ping_def find_upt_Suc del: upt_Suc split: option.split)
  qed
qed simp

text \<open>
  (C22) Starting the daemon. A daemon that answers is used as it is and nothing is started. Otherwise
  at most one process is started, and the wait for it ends after at most 30 more pings; the
  call succeeds exactly when the daemon answered before, or could be started and answers one of these pings.
\<close>

theorem ensure_daemon_bounded:
  assumes "EnsureDaemon le dir l = (r, l')"
  shows "(pingAnswer l (pings l) = None \<longrightarrow> spawned l' = spawned l \<and> sleeps l' = sleeps l) \<and>
    (spawned l' = spawned l \<or> (\<exists>exe. executable le = Inr exe \<and> spawned l' = spawned l @ [(exe, dir)])) \<and>
    pings l' \<le> pings l + 31 \<and> sleeps l' \<le> sleeps l + 30 \<and>
    (r = Inr () \<longleftrightarrow> pingAnswer l (pings l) = None \<or>
       mkdirErr le = None \<and> \<not> isl (executable le) \<and> openLogErr le = None \<and> startErr le = None \<and>
       (\<exists>k<30. pingAnswer l (Suc (pings l + k)) = None))"
proof (cases "pingAnswer l (pings l)")
  case None
  with assms show ?thesis by (auto simp: EnsureDaemon_def ping_def)
next
  case (Some e)
  show ?thesis
  proof (cases "mkdirErr le = None \<and> \<not> isl (executable le) \<and> openLogErr le = None \<and> startErr le = None")
    case False
    with assms Some show ?thesis
      by (cases "mkdirErr le"; cases "executable le"; cases "openLogErr le"; cases "startErr le")
        (auto simp: EnsureDaemon_def ping_def bindE_def fromSum_def)
  next
    case True
    then obtain exe where exe: "executable le = Inr exe" by (cases "executable le") auto
    let ?l = "l\<lparr>pings := Suc (pings l), spawned := spawned l @ [(exe, dir)]\<rparr>"
    have run: "awaitDaemon 30 dir ?l = (r, l')"
      using assms Some True exe by (simp add: EnsureDaemon_def ping_def bindE_def fromSum_def modify_def)
    show ?thesis
    proof (cases "find (\<lambda>k. pingAnswer l (Suc (pings l + k)) = None) [0..<30]")
      case None
      then have "\<not> (\<exists>k<30. pingAnswer l (Suc (pings l + k)) = None)" by (auto simp: find_None_iff)
      with None run True Some exe show ?thesis by (auto simp: awaitDaemon_run)
    next
      case k: (Some k)
      then have "k < 30 \<and> pingAnswer l (Suc (pings l + k)) = None" by (auto simp: find_Some_iff)
      with k run True Some exe show ?thesis by (auto simp: awaitDaemon_run)
    qed
  qed
qed

theorem ensure_daemon_bounded_witness:
  "\<exists>l'. EnsureDaemon \<lparr>mkdirErr = None, executable = Inr ''rp'', openLogErr = None, startErr = None\<rparr> ''/d''
     \<lparr>pingAnswer = (\<lambda>n. if n < 3 then Some (GoError ''refused'') else None), pings = 0, spawned = [], sleeps = 0\<rparr> = (Inr (), l') \<and>
     pings l' \<le> 31"
proof -
  let ?le = "\<lparr>mkdirErr = None, executable = Inr ''rp'', openLogErr = None, startErr = None\<rparr>"
  let ?l = "\<lparr>pingAnswer = (\<lambda>n. if n < 3 then Some (GoError ''refused'') else None), pings = 0, spawned = [], sleeps = 0\<rparr>"
  obtain r l' where run: "EnsureDaemon ?le ''/d'' ?l = (r, l')" by (cases "EnsureDaemon ?le ''/d'' ?l")
  have "\<exists>k<30. pingAnswer ?l (Suc (pings ?l + k)) = None" by (rule exI [of _ 5]) simp
  with ensure_daemon_bounded [OF run] run show ?thesis by simp
qed

end
