(* ===== verification/Tools.thy ===== *)
theory Tools
  imports Client
begin

text \<open>
  The tools an agent calls over MCP, \<^verbatim>\<open>src/internal/mcpserver/tools.go\<close>: four of them
  forward to the daemon, \<open>wait_for_event\<close> reads the event stream until the first match.
  The SDK that decodes the tool's input and sends its output is not modelled; a
  handler maps an input record to an output record or an error.
\<close>

section \<open>Tools that forward\<close>

record CreateWatchInput =
  cw_Type :: string
  cw_Target :: string
  cw_Interval :: string
  cw_Stability :: string

record WatchOutput =
  wo_ID :: string
  wo_Type :: string
  wo_Target :: string

fun watchOutput :: "rpc_result \<Rightarrow> error + WatchOutput" where
  \<comment> \<open>the fields of the answer that the output has; \<open>watch.add\<close> answers with a watch\<close>
  "watchOutput (RWatch w) = Inr \<lparr>wo_ID = w_ID w, wo_Type = w_Type w, wo_Target = w_Target w\<rparr>"
| "watchOutput _ = Inr \<lparr>wo_ID = [], wo_Type = [], wo_Target = []\<rparr>"

definition watchInput :: "CreateWatchInput \<Rightarrow> WatchParams" where
  "watchInput inp = \<lparr>wa_Type = cw_Type inp, wa_Target = cw_Target inp, wa_Interval = cw_Interval inp,
     wa_Stability = cw_Stability inp\<rparr>"

definition createWatchHandler :: "'t Client \<Rightarrow> CreateWatchInput \<Rightarrow> ('z dm, WatchOutput) io" where
  "createWatchHandler c inp = Call c ''watch.add'' (enc_watch (cl_en c) (watchInput inp)) watchOutput
     \<lparr>wo_ID = [], wo_Type = [], wo_Target = []\<rparr>"

fun eventsOutput :: "rpc_result \<Rightarrow> error + Event list" where
  "eventsOutput (REvents es) = Inr es"
| "eventsOutput _ = Inr []"

definition getEventsHandler :: "'t Client \<Rightarrow> string \<Rightarrow> int \<Rightarrow> ('z dm, Event list) io" where
  "getEventsHandler c evType limit = Call c ''events.list'' (enc_events (cl_en c) (evType, limit)) eventsOutput []"

definition cancelRuleHandler :: "'t Client \<Rightarrow> string \<Rightarrow> ('z dm, bool) io" where
  "cancelRuleHandler c ruleID =
     bindE (Call c ''rule.remove'' (enc_id (cl_en c) ruleID) (\<lambda>_. Inr ()) ()) (\<lambda>_. returnE True)"

record CreateRuleInput =
  cr_EventType :: string
  cr_Source :: string
  cr_SessionID :: string
  cr_Agent :: string
  cr_RepoPath :: string
  cr_Prompt :: string
  cr_Label :: string
  cr_OneShot :: bool
  cr_ExpiresAt :: string

record RuleOutput =
  ro_ID :: string
  ro_SessionID :: string

fun ruleOutput :: "rpc_result \<Rightarrow> error + RuleOutput" where
  "ruleOutput (RRule r) = Inr \<lparr>ro_ID = r_ID r, ro_SessionID = r_SessionID r\<rparr>"
| "ruleOutput _ = Inr \<lparr>ro_ID = [], ro_SessionID = []\<rparr>"

definition ruleInput :: "CreateRuleInput \<Rightarrow> RuleParams" where
  "ruleInput inp = \<lparr>ru_Type = cr_EventType inp, ru_Source = cr_Source inp, ru_SessionID = cr_SessionID inp,
     ru_Agent = cr_Agent inp, ru_RepoPath = cr_RepoPath inp, ru_Prompt = cr_Prompt inp, ru_Label = cr_Label inp,
     ru_OneShot = cr_OneShot inp, ru_ExpiresAt = cr_ExpiresAt inp\<rparr>"

definition createRuleHandler :: "'t Client \<Rightarrow> CreateRuleInput \<Rightarrow> ('z dm, RuleOutput) io" where
  "createRuleHandler c inp = Call c ''rule.add'' (enc_rule (cl_en c) (ruleInput inp)) ruleOutput \<lparr>ro_ID = [], ro_SessionID = []\<rparr>"

text \<open>
  A parameter record survives the socket when the daemon's decoder reads what the client's encoder
  wrote for it.
\<close>

definition crosses :: "('p \<Rightarrow> string) \<Rightarrow> (string \<Rightarrow> error + 'p) \<Rightarrow> 'p \<Rightarrow> bool" where
  "crosses enc dec p \<longleftrightarrow> enc p \<noteq> [] \<and> dec (enc p) = Inr p"

lemma createRule_run:
  assumes "connected (cl_wire c)" and "crosses (enc_rule (cl_en c)) (dec_rule (cl_cd c)) (ruleInput inp)"
  shows "createRuleHandler c inp w = (case ruleAddP (cl_te c) (cl_env c) (ruleInput inp) w of
    (r, w') \<Rightarrow> (answer ruleOutput \<lparr>ro_ID = [], ro_SessionID = []\<rparr> (map_sum id RRule r), w'))"
proof -
  obtain r w' where r: "ruleAddP (cl_te c) (cl_env c) (ruleInput inp) w = (r, w')"
    by (cases "ruleAddP (cl_te c) (cl_env c) (ruleInput inp) w")
  have "rpcDispatch (cl_te c) (cl_env c) (cl_cd c) ''rule.add'' (enc_rule (cl_en c) (ruleInput inp)) w = (map_sum id RRule r, w')"
    using assms(2) r by (cases r) (simp_all add: rpcDispatch_def ruleAdd_def crosses_def unmarshal_sent bindE_def)
  from Call_run [OF assms(1) _ this] r show ?thesis by (simp add: createRuleHandler_def)
qed

lemma createWatch_run:
  assumes "connected (cl_wire c)" and "crosses (enc_watch (cl_en c)) (dec_watch (cl_cd c)) (watchInput inp)"
  shows "createWatchHandler c inp w = (case watchAddP (cl_env c) (watchInput inp) w of
    (r, w') \<Rightarrow> (answer watchOutput \<lparr>wo_ID = [], wo_Type = [], wo_Target = []\<rparr> (map_sum id RWatch r), w'))"
proof -
  obtain r w' where r: "watchAddP (cl_env c) (watchInput inp) w = (r, w')"
    by (cases "watchAddP (cl_env c) (watchInput inp) w")
  have "rpcDispatch (cl_te c) (cl_env c) (cl_cd c) ''watch.add'' (enc_watch (cl_en c) (watchInput inp)) w = (map_sum id RWatch r, w')"
    using assms(2) r by (cases r) (simp_all add: rpcDispatch_def watchAdd_def crosses_def unmarshal_sent bindE_def)
  from Call_run [OF assms(1) _ this] r show ?thesis by (simp add: createWatchHandler_def)
qed

section \<open>What the tools keep and change\<close>

lemma healthy_store: "store_only m \<Longrightarrow> preserves healthy m"
  unfolding store_only_def by (metis healthy_upd)

lemma healthy_ruleAddP: "preserves healthy (ruleAddP te env p)"
  unfolding ruleAddP_def ruleSession_def
  by (rule healthy_store) (auto split: option.split)

lemma healthy_startWatch: "preserves healthy (startWatch x)"
  by (auto simp: startWatch_def healthy_def split: prod.splits option.splits intro!: preservesI)

lemma healthy_watchAddP: "preserves healthy (watchAddP env p)"
  unfolding watchAddP_def by (intro preserves_bind preserves_pure healthy_startWatch healthy_store store_only_AddWatch)

lemma ok_ruleAddP: "preserves daemon_ok (ruleAddP te env p)"
  unfolding ruleAddP_def ruleSession_def
  by (intro ok_rules) (auto split: option.split)

lemma ok_watchAddP: "preserves daemon_ok (watchAddP env p)"
  unfolding watchAddP_def by (intro ok_rules)

lemma watchAddP_frame:
  assumes "watchAddP env p w = (r, w')"
  shows "rules (db w') = rules (db w) \<and> continuations (db w') = continuations (db w)"
proof -
  have s: "db (snd (startWatch x w1)) = db w1" for x and w1 :: "'a dm"
    by (simp add: startWatch_def split: prod.splits option.splits)
  show ?thesis
  proof (cases "watchValidate env p")
    case (Inl e)
    with assms show ?thesis by (simp add: watchAddP_def fromSum_def bindE_def)
  next
    case (Inr cfg)
    let ?a = "AddWatch \<lparr>w_ID = [], w_Type = wa_Type p, w_Target = wa_Target p, w_Config = cfg, w_CreatedAt = 0\<rparr>"
    obtain q w1 where a: "?a w = (q, w1)" by (cases "?a w")
    have "db w' = db w1"
      using assms Inr a s by (cases q) (auto simp: watchAddP_def fromSum_def bindE_def split: prod.splits sum.splits dest: arg_cong [where f = "\<lambda>x. db (snd x)"])
    with AddWatch_frame [OF a] show ?thesis by simp
  qed
qed

lemma createRule_Inr:
  assumes "createRuleHandler c inp w = (Inr out, w')" and "ro_ID out \<noteq> []" and "connected (cl_wire c)"
    and "crosses (enc_rule (cl_en c)) (dec_rule (cl_cd c)) (ruleInput inp)"
  obtains r where "ruleAddP (cl_te c) (cl_env c) (ruleInput inp) w = (Inr r, w')" "r_ID r = ro_ID out"
  using assms(1,2) createRule_run [OF assms(3,4), of w]
  by (cases "ruleAddP (cl_te c) (cl_env c) (ruleInput inp) w"; cases "fst (ruleAddP (cl_te c) (cl_env c) (ruleInput inp) w)")
    (auto simp: answer_def split: if_splits)

lemma createWatch_frame:
  assumes "createWatchHandler c inp w = (r, w')" and "connected (cl_wire c)"
    and "crosses (enc_watch (cl_en c)) (dec_watch (cl_cd c)) (watchInput inp)"
  obtains q where "watchAddP (cl_env c) (watchInput inp) w = (q, w')"
  using assms(1) createWatch_run [OF assms(2,3), of w] by (cases "watchAddP (cl_env c) (watchInput inp) w") auto

lemma ruleAddP_Inr:
  assumes "ruleAddP te env p w = (Inr r, w')" and "wf_st w"
  shows "r \<in> set (rules (db w')) \<and> r_Selector r = \<lparr>sel_Type = ru_Type p, sel_Source = ru_Source p\<rparr> \<and> \<not> r_Consumed r \<and>
    r_SessionID r = ru_SessionID p \<and> r_PromptTemplate r = ru_Prompt p \<and> r_Label r = ru_Label p \<and>
    (ru_ExpiresAt p = [] \<longrightarrow> r_ExpiresAt r = None)"
proof -
  from assms(1) obtain t w1 where v: "ruleValidate te env p = Inr t" and a: "AddRule (ruleOf p t) w1 = (Inr r, w')"
    by (auto simp: ruleAddP_def bindE_Inr_iff fromSum_def)
  from v have "ru_ExpiresAt p = [] \<longrightarrow> t = None" by (auto simp: ruleValidate_def split: if_splits option.splits)
  with AddRule_Inr [OF a] show ?thesis by (auto simp: ruleOf_def)
qed

lemma watchEmit_ingest:
  assumes "watchEmit te (ty, src, pl) w = (r, w')"
  obtains q where "EngineIngest te \<lparr>ev_ID = [], ev_Type = ty, ev_Source = src, ev_Payload = pl, ev_Timestamp = 0\<rparr> w = (q, w')"
  using assms by (cases "EngineIngest te \<lparr>ev_ID = [], ev_Type = ty, ev_Source = src, ev_Payload = pl, ev_Timestamp = 0\<rparr> w")
    (auto simp: watchEmit_def tryE_def)

lemma poller_first:
  assumes "w_Type x = ''http''" "HTTPProber (fst (ob_http ob)) (w_Target x)"
  shows "hd (watchRun ob x) = (''http.available'', w_Target x, Map.empty)"
  using assms by (simp add: watchRun_def poll_def RunPoller_def)

section \<open>Waiting for an event\<close>

record WaitForEventInput =
  wi_EventType :: string
  wi_Source :: string
  wi_TimeoutSeconds :: int

record WaitOutput =
  TimedOut :: bool
  WaitEvent :: Event

definition zeroEvent :: Event where
  "zeroEvent = \<lparr>ev_ID = [], ev_Type = [], ev_Source = [], ev_Payload = Map.empty, ev_Timestamp = 0\<rparr>"

definition defaultWaitTimeout :: duration where
  "defaultWaitTimeout = 300 * 1000000000"

definition waitTimeout :: "int \<Rightarrow> duration" where
  \<comment> \<open>a duration is a 64-bit number of nanoseconds, and the product wraps\<close>
  "waitTimeout seconds =
     (if seconds > 0 then sint (word_of_int seconds * (1000000000 :: 64 word)) else defaultWaitTimeout)"

record waiting =
  found :: "Event option"
  cancelled :: bool

definition waitMatches :: "WaitForEventInput \<Rightarrow> Event \<Rightarrow> bool" where
  "waitMatches inp ev \<longleftrightarrow> ev_Type ev = wi_EventType inp \<and> (wi_Source inp = [] \<or> ev_Source ev = wi_Source inp)"

definition onEvent :: "WaitForEventInput \<Rightarrow> Event \<Rightarrow> waiting \<Rightarrow> waiting" where
  \<comment> \<open>the callback: the first match is kept and cancels the context\<close>
  "onEvent inp ev s =
     (if found s \<noteq> None then s
      else if waitMatches inp ev then s\<lparr>found := Some ev, cancelled := True\<rparr>
      else s)"

definition waitExpire :: "waiting \<Rightarrow> waiting" where
  "waitExpire s = s\<lparr>cancelled := True\<rparr>"

definition waitForEventHandler :: "wire \<Rightarrow> string \<Rightarrow> error \<Rightarrow> incoming list \<Rightarrow> WaitForEventInput \<Rightarrow> error + WaitOutput" where
  \<comment> \<open>on the stream \<open>ins\<close>, which the daemon or the end of the context closes\<close>
  "waitForEventHandler wi first err ins inp =
     (case Follow wi first cancelled waitExpire (onEvent inp) err ins \<lparr>found = None, cancelled = False\<rparr> of
        (Some e, _) \<Rightarrow> Inl e
      | (None, s) \<Rightarrow> (case found s of
          None \<Rightarrow> Inr \<lparr>TimedOut = True, WaitEvent = zeroEvent\<rparr>
        | Some ev \<Rightarrow> Inr \<lparr>TimedOut = False, WaitEvent = ev\<rparr>))"

text \<open>The handler's callback keeps the contract of a consumer.\<close>

interpretation waitq: consumer cancelled waitExpire "onEvent inp" for inp
  by unfold_locales (auto simp: waitExpire_def onEvent_def)

lemma wait_state:
  "snd (followLoop cancelled waitExpire (onEvent inp) err ins s) =
     \<lparr>found = (case found s of Some ev \<Rightarrow> Some ev | None \<Rightarrow> find (waitMatches inp) (streamed ins)),
      cancelled = (cancelled s \<or> Expire \<in> set ins \<or> found s = None \<and> find (waitMatches inp) (streamed ins) \<noteq> None)\<rparr>"
proof (induction ins arbitrary: s)
  case Nil
  then show ?case by (cases s) (auto split: option.split)
next
  case (Cons i ins)
  then show ?case by (cases i) (auto simp: onEvent_def waitExpire_def split: option.split)
qed

text \<open>
  (C20) Waiting for an event. On a stream that was accepted, the tool returns the first event of the stream that
  has the requested type, and the requested source when there is one; it returns it even if the stream breaks or the
  deadline passes right after. Without a match it reports the timeout when the context
  has ended, and the error of the stream when the daemon closed it.
\<close>

theorem wait_returns_first_match:
  assumes "connected wi"
  shows "waitForEventHandler wi [] err ins inp = (case find (waitMatches inp) (streamed ins) of
      Some ev \<Rightarrow> Inr \<lparr>TimedOut = False, WaitEvent = ev\<rparr>
    | None \<Rightarrow> if Expire \<in> set ins then Inr \<lparr>TimedOut = True, WaitEvent = zeroEvent\<rparr> else Inl err)"
proof -
  let ?s = "\<lparr>found = None, cancelled = False\<rparr>"
  obtain e s where run: "followLoop cancelled waitExpire (onEvent inp) err ins ?s = (e, s)"
    by (cases "followLoop cancelled waitExpire (onEvent inp) err ins ?s")
  with waitq.ends_iff [of inp err ins ?s] wait_state [of inp err ins ?s] assms show ?thesis
    by (auto simp: waitForEventHandler_def Follow_def connected_def split: option.splits)
qed


section \<open>Concrete calls\<close>

definition exWire :: wire where
  "exWire = \<lparr>dialErr = None, sendErr = None, recvErr = None\<rparr>"

theorem wait_returns_first_match_witness:
  "waitForEventHandler exWire [] (GoError ''EOF'') [Frame ''event'' exEvent]
     \<lparr>wi_EventType = ev_Type exEvent, wi_Source = [], wi_TimeoutSeconds = 5\<rparr> = Inr \<lparr>TimedOut = False, WaitEvent = exEvent\<rparr>"
proof -
  have "connected exWire" by (simp add: connected_def exWire_def)
  from wait_returns_first_match [OF this] show ?thesis by (simp add: waitMatches_def)
qed


definition exWatchInput :: CreateWatchInput where
  "exWatchInput = \<lparr>cw_Type = ''http'', cw_Target = ''http://localhost'', cw_Interval = [], cw_Stability = []\<rparr>"

definition exRuleInput :: CreateRuleInput where
  "exRuleInput = \<lparr>cr_EventType = ''http.available'', cr_Source = ''http://localhost'', cr_SessionID = ''s1'', cr_Agent = ''claude'',
     cr_RepoPath = ''/repo'', cr_Prompt = ''go on'', cr_Label = [], cr_OneShot = True, cr_ExpiresAt = []\<rparr>"

definition exClient :: "string Client" where
  "exClient = \<lparr>cl_te = exEngine, cl_env = exEnv,
     cl_cd = exCodec\<lparr>dec_rule := (\<lambda>_. Inr (ruleInput exRuleInput)), dec_watch := (\<lambda>_. Inr (watchInput exWatchInput))\<rparr>,
     cl_en = \<lparr>enc_inject = in_Type, enc_events = fst, enc_rule = (\<lambda>_. ''{}''), enc_all = (\<lambda>_. ''{}''), enc_id = id,
       enc_session = s_SessionID, enc_state = id, enc_run = fst, enc_watch = (\<lambda>_. ''{}'')\<rparr>, cl_wire = exWire\<rparr>"

lemma exCreate:
  "connected (cl_wire exClient)" "crosses (enc_rule (cl_en exClient)) (dec_rule (cl_cd exClient)) (ruleInput exRuleInput)"
  "crosses (enc_watch (cl_en exClient)) (dec_watch (cl_cd exClient)) (watchInput exWatchInput)"
  by (simp_all add: exClient_def exWire_def connected_def crosses_def)

end
