(* ===== verification/Commands.thy ===== *)
theory Commands
  imports Tools
begin

text \<open>
  The commands of the command line that talk to the daemon,
  \<^verbatim>\<open>src/cmd/runtimepulse/cmd_*.go\<close>: their flags become the parameters of one call,
  and the answer is printed as JSON lines.

  A command returns the lines it printed and its error, if any. The generic JSON values the
  answers are decoded into are the type \<open>'j\<close>, their decoder and printer the record \<open>cli\<close>; so is
  the outcome of \<open>dial\<close>. Flag parsing is the third-party library's.
\<close>

section \<open>Calls and their output\<close>

record 'j cli =
  dialed :: "error option"
  asObject :: "rpc_result \<Rightarrow> error + 'j"
  asList :: "rpc_result \<Rightarrow> error + 'j list"
  nullObject :: 'j
  marshal :: "'j \<Rightarrow> error + string"
  marshalEvent :: "Event \<Rightarrow> error + string"
  formatRFC3339 :: "time \<Rightarrow> string"

type_synonym printed = "string list \<times> error option"

definition printJSON :: "('a \<Rightarrow> error + string) \<Rightarrow> 'a \<Rightarrow> printed" where
  "printJSON mar v = (case mar v of Inl e \<Rightarrow> ([], Some e) | Inr b \<Rightarrow> ([b], None))"

fun printAll :: "('a \<Rightarrow> error + string) \<Rightarrow> 'a list \<Rightarrow> printed" where
  \<comment> \<open>the loop over a list, up to the first error\<close>
  "printAll mar [] = ([], None)"
| "printAll mar (v # vs) = (case printJSON mar v of
     (ls, Some e) \<Rightarrow> (ls, Some e)
   | (ls, None) \<Rightarrow> (case printAll mar vs of (ls', e) \<Rightarrow> (ls @ ls', e)))"

definition command :: "'j cli \<Rightarrow> ('z dm, 'a) io \<Rightarrow> ('a \<Rightarrow> printed) \<Rightarrow> 'z dm \<Rightarrow> printed \<times> 'z dm" where
  \<comment> \<open>dial, one call, and what is done with its answer\<close>
  "command ci m k w = (case dialed ci of
     Some e \<Rightarrow> (([], Some e), w)
   | None \<Rightarrow> (case m w of
       (Inl e, w1) \<Rightarrow> (([], Some e), w1)
     | (Inr v, w1) \<Rightarrow> (k v, w1)))"

definition callObject :: "'j cli \<Rightarrow> 't Client \<Rightarrow> string \<Rightarrow> string \<Rightarrow> 'z dm \<Rightarrow> printed \<times> 'z dm" where
  "callObject ci c method params = command ci (Call c method params (asObject ci) (nullObject ci)) (printJSON (marshal ci))"

definition callList :: "'j cli \<Rightarrow> 't Client \<Rightarrow> string \<Rightarrow> string \<Rightarrow> 'z dm \<Rightarrow> printed \<times> 'z dm" where
  "callList ci c method params = command ci (Call c method params (asList ci) []) (printAll (marshal ci))"

definition callSilent :: "'j cli \<Rightarrow> 't Client \<Rightarrow> string \<Rightarrow> string \<Rightarrow> 'z dm \<Rightarrow> printed \<times> 'z dm" where
  "callSilent ci c method params = command ci (Call c method params (\<lambda>_. Inr ()) ()) (\<lambda>_. ([], None))"

section \<open>The commands\<close>

definition statusCmd :: "'j cli \<Rightarrow> 't Client \<Rightarrow> 'z dm \<Rightarrow> printed \<times> 'z dm" where
  "statusCmd ci c = callObject ci c ''status'' []"

definition continueCmd :: "'j cli \<Rightarrow> 't Client \<Rightarrow> string \<Rightarrow> string \<Rightarrow> 'z dm \<Rightarrow> printed \<times> 'z dm" where
  "continueCmd ci c session prompt = callObject ci c ''continuation.run'' (enc_run (cl_en c) (session, prompt))"

definition continuationsCmd :: "'j cli \<Rightarrow> 't Client \<Rightarrow> string \<Rightarrow> 'z dm \<Rightarrow> printed \<times> 'z dm" where
  "continuationsCmd ci c state = callList ci c ''continuation.list'' (enc_state (cl_en c) state)"

definition eventsCmd :: "'j cli \<Rightarrow> 't Client \<Rightarrow> string \<Rightarrow> int \<Rightarrow> 'z dm \<Rightarrow> printed \<times> 'z dm" where
  \<comment> \<open>without \<open>--follow\<close>\<close>
  "eventsCmd ci c evType limit =
     command ci (Call c ''events.list'' (enc_events (cl_en c) (evType, limit)) eventsOutput []) (printAll (marshalEvent ci))"

definition eventsFollowCmd :: "'j cli \<Rightarrow> wire \<Rightarrow> string \<Rightarrow> error \<Rightarrow> incoming list \<Rightarrow> printed" where
  \<comment> \<open>with \<open>--follow\<close>: the background context never ends; an event that cannot be printed is skipped\<close>
  "eventsFollowCmd ci wi first err ins = (case dialed ci of
     Some e \<Rightarrow> ([], Some e)
   | None \<Rightarrow> (case Follow wi first (\<lambda>_. False) id (\<lambda>ev ls. ls @ fst (printJSON (marshalEvent ci) ev)) err ins [] of
       (e, ls) \<Rightarrow> (ls, e)))"

definition injectCmd :: "'j cli \<Rightarrow> 't Client \<Rightarrow> string \<Rightarrow> string \<Rightarrow> (string \<rightharpoonup> string) \<Rightarrow> 'z dm \<Rightarrow> printed \<times> 'z dm" where
  "injectCmd ci c evType source payload =
     callObject ci c ''event.inject'' (enc_inject (cl_en c) \<lparr>in_Type = evType, in_Source = source, in_Payload = payload\<rparr>)"

record rule_flags =
  fl_on :: string
  fl_session :: string
  fl_agent :: string
  fl_repo :: string
  fl_prompt :: string
  fl_label :: string
  fl_oneShot :: bool
  fl_expires :: duration

definition parseOn :: "string \<Rightarrow> error + string \<times> string" where
  "parseOn on =
     (let (evType, evSource) = (case Cut on '':'' of None \<Rightarrow> (on, []) | Some p \<Rightarrow> p) in
      if evType = [] then Inl (GoError ''--on is required (e.g. --on docker.healthy:postgres)'')
      else Inr (evType, evSource))"

definition ruleFlagParams :: "'j cli \<Rightarrow> time \<Rightarrow> rule_flags \<Rightarrow> string \<Rightarrow> string \<Rightarrow> RuleParams" where
  \<comment> \<open>the parameters; \<open>now\<close> is the clock, read for \<open>--expires\<close> only\<close>
  "ruleFlagParams ci now f evType evSource = \<lparr>ru_Type = evType, ru_Source = evSource, ru_SessionID = fl_session f,
     ru_Agent = fl_agent f, ru_RepoPath = fl_repo f, ru_Prompt = fl_prompt f, ru_Label = fl_label f,
     ru_OneShot = fl_oneShot f, ru_ExpiresAt = (if fl_expires f > 0 then formatRFC3339 ci (now + fl_expires f) else [])\<rparr>"

definition ruleAddCmd :: "'j cli \<Rightarrow> 't Client \<Rightarrow> time \<Rightarrow> rule_flags \<Rightarrow> 'z dm \<Rightarrow> printed \<times> 'z dm" where
  "ruleAddCmd ci c now f w = (case parseOn (fl_on f) of
     Inl e \<Rightarrow> (([], Some e), w)
   | Inr (evType, evSource) \<Rightarrow> callObject ci c ''rule.add'' (enc_rule (cl_en c) (ruleFlagParams ci now f evType evSource)) w)"

definition ruleListCmd :: "'j cli \<Rightarrow> 't Client \<Rightarrow> bool \<Rightarrow> 'z dm \<Rightarrow> printed \<times> 'z dm" where
  "ruleListCmd ci c all = callList ci c ''rule.list'' (enc_all (cl_en c) all)"

definition ruleRemoveCmd :: "'j cli \<Rightarrow> 't Client \<Rightarrow> string \<Rightarrow> 'z dm \<Rightarrow> printed \<times> 'z dm" where
  "ruleRemoveCmd ci c i = callSilent ci c ''rule.remove'' (enc_id (cl_en c) i)"

definition sessionRegisterCmd :: "'j cli \<Rightarrow> 't Client \<Rightarrow> string \<Rightarrow> string \<Rightarrow> string \<Rightarrow> 'z dm \<Rightarrow> printed \<times> 'z dm" where
  "sessionRegisterCmd ci c agent session repo =
     callObject ci c ''session.register'' (enc_session (cl_en c)
       (zeroSession\<lparr>s_SessionID := session, s_Agent := agent, s_RepoPath := repo\<rparr>))"

definition sessionListCmd :: "'j cli \<Rightarrow> 't Client \<Rightarrow> 'z dm \<Rightarrow> printed \<times> 'z dm" where
  "sessionListCmd ci c = callList ci c ''session.list'' []"

definition watchSpecs :: "(string \<times> string \<times> string) list" where
  \<comment> \<open>the subcommands of \<open>watch add\<close> with the flag of their target and its usage\<close>
  "watchSpecs = [(''http'', ''url'', ''URL to probe (2xx/3xx = available)''), (''tcp'', ''addr'', ''host:port to probe''),
     (''file'', ''path'', ''file path to observe''), (''process'', ''pattern'', ''command-line substring to match''),
     (''docker'', ''container'', ''container name''), (''git'', ''repo'', ''repository path'')]"

definition watchAddCmd :: "'j cli \<Rightarrow> 't Client \<Rightarrow> string \<Rightarrow> string \<Rightarrow> string \<Rightarrow> string \<Rightarrow> 'z dm \<Rightarrow> printed \<times> 'z dm" where
  "watchAddCmd ci c typ target interval stability =
     callObject ci c ''watch.add'' (enc_watch (cl_en c)
       \<lparr>wa_Type = typ, wa_Target = target, wa_Interval = interval, wa_Stability = stability\<rparr>)"

definition watchListCmd :: "'j cli \<Rightarrow> 't Client \<Rightarrow> 'z dm \<Rightarrow> printed \<times> 'z dm" where
  "watchListCmd ci c = callList ci c ''watch.list'' []"

definition watchRemoveCmd :: "'j cli \<Rightarrow> 't Client \<Rightarrow> string \<Rightarrow> 'z dm \<Rightarrow> printed \<times> 'z dm" where
  "watchRemoveCmd ci c i = callSilent ci c ''watch.remove'' (enc_id (cl_en c) i)"

section \<open>Running a command as an event\<close>

datatype child =
    ChildOK
  | ChildExit int      \<comment> \<open>an \<open>ExitError\<close> with its exit code; it is negative for a signal\<close>
  | ChildError error   \<comment> \<open>any other error, such as a command that is not found\<close>

fun exitCode :: "child \<Rightarrow> int" where
  "exitCode ChildOK = 0"
| "exitCode (ChildExit n) = n"
| "exitCode (ChildError _) = 1"

definition execType :: "child \<Rightarrow> string" where
  "execType r = (if r = ChildOK then ''exec.succeeded'' else ''exec.failed'')"

definition execParams :: "string \<Rightarrow> child \<Rightarrow> duration \<Rightarrow> InjectParams" where
  \<comment> \<open>with the time since the start, which is not negative\<close>
  "execParams label r since = \<lparr>in_Type = execType r, in_Source = label,
     in_Payload = [''exitCode'' \<mapsto> Itoa (exitCode r), ''durationMs'' \<mapsto> Itoa (since div 1000000)]\<rparr>"

datatype outcome = Returned "error option" | Exits int

definition execCmd :: "'j cli \<Rightarrow> 't Client \<Rightarrow> string \<Rightarrow> child \<Rightarrow> duration \<Rightarrow> 'z dm \<Rightarrow> (string list \<times> outcome) \<times> 'z dm" where
  "execCmd ci c label r since w = (case dialed ci of
     Some e \<Rightarrow> (([], Returned (Some (GoError (''command finished (exit '' @ Itoa (exitCode r) @
         '') but daemon unreachable: '' @ Error e)))), w)
   | None \<Rightarrow> (case Call c ''event.inject'' (enc_inject (cl_en c) (execParams label r since)) (asObject ci) (nullObject ci) w of
       (Inl e, w1) \<Rightarrow> (([], Returned (Some e)), w1)
     | (Inr v, w1) \<Rightarrow> ((fst (printJSON (marshal ci) v),
         if exitCode r \<noteq> 0 then Exits (exitCode r) else Returned None), w1)))"

fun exitStatus :: "outcome \<Rightarrow> int" where
  \<comment> \<open>\<open>main\<close> exits with 1 when a command returns an error\<close>
  "exitStatus (Returned None) = 0"
| "exitStatus (Returned (Some _)) = 1"
| "exitStatus (Exits n) = n"

section \<open>Running the daemon\<close>

definition daemonCmd :: "error + string \<Rightarrow> boot_faults \<Rightarrow> int \<Rightarrow> error option \<Rightarrow> error option \<Rightarrow> host \<Rightarrow> error option \<times> host" where
  \<comment> \<open>with the outcomes of \<open>StateDir\<close>, \<open>ServeWS\<close> and \<open>Serve\<close>; \<open>Close\<close> is deferred\<close>
  "daemonCmd dir bf wsPort wsErr serveErr h = (case dir of
     Inl e \<Rightarrow> (Some e, h)
   | Inr _ \<Rightarrow> (case NewDaemon bf h of
       (Inl e, h1) \<Rightarrow> (Some (GoError (''starting daemon: '' @ Error e)), h1)
     | (Inr _, h1) \<Rightarrow>
         (case (if wsPort > 0 then wsErr else None) of
            Some e \<Rightarrow> (Some (GoError (''starting ws server: '' @ Error e)), CloseDaemon h1)
          | None \<Rightarrow> (serveErr, CloseDaemon h1))))"

section \<open>Properties\<close>

lemma command_state:
  assumes "dialed ci = None"
  shows "snd (command ci m k w) = snd (m w)"
  using assms by (simp add: command_def split: prod.splits sum.splits)

lemma Cut_colon:
  assumes "CHR '':'' \<notin> set ty"
  shows "Cut (ty @ CHR '':'' # src) '':'' = Some (ty, src)" and "Cut ty '':'' = None"
proof -
  have "Index (ty @ CHR '':'' # src) '':'' = Some (length ty)"
    using assms by (induction ty) (auto simp: HasPrefix_def)
  then show "Cut (ty @ CHR '':'' # src) '':'' = Some (ty, src)" by (simp add: Cut_def)
  have "Index ty '':'' = None" using assms by (induction ty) (auto simp: HasPrefix_def)
  then show "Cut ty '':'' = None" by (simp add: Cut_def)
qed

lemma Call_createRule:
  "snd (Call c ''rule.add'' (enc_rule (cl_en c) (ruleInput inp)) decode zero w) = snd (createRuleHandler c inp w)"
  by (auto simp: createRuleHandler_def Call_def bindE_def failIf_def fromSum_def split: option.splits prod.splits)

text \<open>
  The command line and the agents' tool agree. \<open>rule add --on type:source\<close> does to the daemon exactly what the tool
  \<open>create_rule\<close> does with this type and source: a selector is cut at its first colon, so the source may contain colons
  itself, as a URL does; without a colon it is the type, and every source matches.
\<close>

theorem rule_add_cli_is_tool:
  assumes "dialed ci = None" and "CHR '':'' \<notin> set ty" and "ty \<noteq> []" and "fl_expires f \<le> 0"
    and "fl_on f = (if src = [] then ty else ty @ '':'' @ src)"
  shows "snd (ruleAddCmd ci c now f w) =
    snd (createRuleHandler c \<lparr>cr_EventType = ty, cr_Source = src, cr_SessionID = fl_session f, cr_Agent = fl_agent f,
      cr_RepoPath = fl_repo f, cr_Prompt = fl_prompt f, cr_Label = fl_label f, cr_OneShot = fl_oneShot f, cr_ExpiresAt = []\<rparr> w)"
    (is "_ = snd (createRuleHandler c ?inp w)")
proof -
  have "parseOn (fl_on f) = Inr (ty, src)"
    using assms(3,5) Cut_colon [OF assms(2)] by (simp add: parseOn_def)
  moreover have "ruleFlagParams ci now f ty src = ruleInput ?inp"
    using assms(4) by (simp add: ruleFlagParams_def ruleInput_def)
  ultimately have "snd (ruleAddCmd ci c now f w) =
      snd (Call c ''rule.add'' (enc_rule (cl_en c) (ruleInput ?inp)) (asObject ci) (nullObject ci) w)"
    using assms(1) by (simp add: ruleAddCmd_def callObject_def command_state)
  then show ?thesis by (simp only: Call_createRule)
qed

text \<open>The subcommands of \<open>watch add\<close> are the watch types the daemon accepts.\<close>

theorem watch_commands_are_types: "ValidateType t = None \<longleftrightarrow> t \<in> fst ` set watchSpecs"
  by (auto simp: ValidateType_def validTypes_def watchSpecs_def)

lemma inject_run:
  assumes "connected (cl_wire c)" and "crosses (enc_inject (cl_en c)) (dec_inject (cl_cd c)) p" and "in_Type p \<noteq> []"
  shows "Call c ''event.inject'' (enc_inject (cl_en c) p) decode zero w =
    (case EngineIngest (cl_te c) \<lparr>ev_ID = [], ev_Type = in_Type p, ev_Source = in_Source p, ev_Payload = in_Payload p, ev_Timestamp = 0\<rparr> w of
      (r, w') \<Rightarrow> (answer decode zero (map_sum id RIngest r), w'))"
proof -
  let ?ev = "\<lparr>ev_ID = [], ev_Type = in_Type p, ev_Source = in_Source p, ev_Payload = in_Payload p, ev_Timestamp = 0\<rparr>"
  obtain r w' where r: "EngineIngest (cl_te c) ?ev w = (r, w')" by (cases "EngineIngest (cl_te c) ?ev w")
  have "rpcDispatch (cl_te c) (cl_env c) (cl_cd c) ''event.inject'' (enc_inject (cl_en c) p) w = (map_sum id RIngest r, w')"
    using assms(2,3) r by (cases r) (simp_all add: rpcDispatch_def eventInject_def crosses_def unmarshal_sent bindE_def)
  from Call_run [OF assms(1) _ this] r show ?thesis by simp
qed

text \<open>
  A command's outcome resumes a session. When the daemon is reachable and the database works, running a
  command through \<open>exec\<close> makes every rule that waits for this outcome and this label fire: a new continuation is
  created from the event with the exit code in its payload, and the dispatcher is signalled. The exit
  status of the command is kept.
\<close>

theorem exec_outcome_fires_rules:
  fixes w :: "'z dm"
  assumes run: "execCmd ci c label r since w = ((ls, out), w')"
    and client: "dialed ci = None" "connected (cl_wire c)" "crosses (enc_inject (cl_en c)) (dec_inject (cl_cd c)) (execParams label r since)"
      "\<forall>res. \<not> isl (asObject ci (RIngest res))"
    and ok: "healthy w" "wf_st w" "wf_bus (bus w)"
    and rule: "rule \<in> set (rules (db w))" "r_Selector rule = \<lparr>sel_Type = execType r, sel_Source = label\<rparr>"
      "\<not> r_Consumed rule" "r_ExpiresAt rule = None"
    and fresh: "idAt ''evt'' (rand w) (nrand w) \<notin> c_EventID ` set (continuations (db w))"
      "freshIDs (length (rules (db w))) (w\<lparr>nrand := nrand w + 6\<rparr>)"
  shows "exitStatus out = exitCode r \<and>
    (\<exists>ev k. k \<in> set (continuations (db w')) \<and> k \<notin> set (continuations (db w)) \<and> firedBy (cl_te c) ev rule k \<and> wake w' \<and>
      ev_Type ev = execType r \<and> ev_Source ev = label \<and> ev_Payload ev ''exitCode'' = Some (Itoa (exitCode r)))"
proof -
  let ?ev = "\<lparr>ev_ID = [], ev_Type = execType r, ev_Source = label, ev_Payload = in_Payload (execParams label r since), ev_Timestamp = 0\<rparr>"
  obtain res and w1 :: "'z dm" where e: "EngineIngest (cl_te c) ?ev w = (Inr res, w1)"
    using EngineIngest_healthy [OF ok(1,3)] by blast
  have t: "in_Type (execParams label r since) = execType r" "in_Source (execParams label r since) = label" "execType r \<noteq> []"
    by (simp_all add: execParams_def execType_def)
  obtain j where j: "asObject ci (RIngest res) = Inr j" using client(4) by (cases "asObject ci (RIngest res)") (auto dest: spec [of _ res])
  from inject_run [OF client(2,3), where decode = "asObject ci" and zero = "nullObject ci" and w = w] t e j
  have "Call c ''event.inject'' (enc_inject (cl_en c) (execParams label r since)) (asObject ci) (nullObject ci) w = (Inr j, w1)"
    by (simp add: answer_def)
  with run client(1) have w': "w' = w1" and st: "exitStatus out = exitCode r"
    by (auto simp: execCmd_def)
  have "Matches (r_Selector rule) ?ev" using rule(2) by (simp add: Matches_def)
  from EngineIngest_fires [OF e _ _ ok rule(1) this rule(3,4) fresh] w'
  obtain ev k where "k \<in> set (continuations (db w'))" "k \<notin> set (continuations (db w))" "firedBy (cl_te c) ev rule k" "wake w'"
      "ev_Type ev = execType r" "ev_Source ev = label" "ev_Payload ev = in_Payload (execParams label r since)" by auto
  with st show ?thesis by (intro conjI exI [of _ ev] exI [of _ k]) (simp_all add: execParams_def)
qed

text \<open>
  The exit status of \<open>exec\<close> tells success from failure, whether or not the daemon can be reached: it is zero
  only for a command that succeeded and whose event was delivered.
\<close>

theorem exec_status_zero:
  assumes "execCmd ci c label r since w = ((ls, out), w')" and "\<forall>n. r = ChildExit n \<longrightarrow> n \<noteq> 0" and "exitStatus out = 0"
  shows "r = ChildOK \<and> dialed ci = None"
  using assms by (cases r) (auto simp: execCmd_def split: option.splits prod.splits sum.splits)

text \<open>Following events on the command line prints the events of the stream in order, and ends with the stream's error.\<close>

theorem events_follow_prints:
  assumes "dialed ci = None" and "connected wi"
  shows "eventsFollowCmd ci wi [] err ins = (concat (map (\<lambda>ev. fst (printJSON (marshalEvent ci) ev)) (streamed ins)), Some err)"
proof -
  have "followLoop (\<lambda>_. False) id (\<lambda>ev ls. ls @ fst (printJSON (marshalEvent ci) ev)) err ins ls =
      (Some err, ls @ concat (map (\<lambda>ev. fst (printJSON (marshalEvent ci) ev)) (streamed ins)))" for ls
    by (induction ins arbitrary: ls rule: streamed.induct) auto
  with assms show ?thesis by (simp add: eventsFollowCmd_def Follow_def connected_def)
qed

text \<open>
  From the bus to the terminal. What \<open>events --follow\<close> prints is, one line for each, an ordered subsequence of the events
  published after it subscribed, whatever the daemon publishes and however the connection's reads and writes alternate.
\<close>

fun decoded :: "frame \<Rightarrow> incoming list" where
  \<comment> \<open>what the client's decoder yields for a frame of the stream\<close>
  "decoded (Reply _) = []"
| "decoded (Notification method ev) = [Frame method ev]"

theorem follow_prints_published:
  assumes "wf_bus b" and "dialed ci = None" and "connected wi"
    and "follow True ts rq b = Some (Reply resp # ns, b1)"
  shows "\<exists>es. subseq es (published ts) \<and> eventsFollowCmd ci wi (rs_Error resp) err (concat (map decoded ns)) =
    (concat (map (\<lambda>ev. fst (printJSON (marshalEvent ci) ev)) es), Some err)"
proof -
  obtain i b0 where s: "Subscribe followBuffer b = (i, b0)" by (cases "Subscribe followBuffer b")
  note n = Subscribe_new [OF assms(1) s]
  obtain es b2 where r: "streamLoop ts i b0 = Some (es, b2)" "subseq es (published ts)"
    using streamLoop_run [OF n(1), of ts i] n(2) by auto
  with assms(4) s have ns: "ns = map (Notification ''event'') es" "rs_Error resp = []" by (auto simp: follow_def)
  have "streamed (concat (map decoded (map (Notification ''event'') es))) = es" by (induction es) simp_all
  with events_follow_prints [OF assms(2,3)] ns r(2) show ?thesis by metis
qed

text \<open>
  The daemon command cleans up. Whatever fails, when it returns no daemon is left of it: neither lock nor
  store nor socket is held, and a daemon that was running before is untouched, the command reporting an error.
\<close>

theorem daemon_cmd_cleans_up:
  assumes "host_ok h" and "daemonCmd dir bf wsPort wsErr serveErr h = (e, h')"
  shows "host_ok h' \<and> daemons h' = daemons h \<and> (daemons h = 1 \<longrightarrow> h' = h \<and> e \<noteq> None)"
proof (cases dir)
  case (Inr d)
  obtain r h1 where n: "NewDaemon bf h = (r, h1)" by (cases "NewDaemon bf h")
  show ?thesis
  proof (cases r)
    case (Inl x)
    with NewDaemon_ok [OF assms(1) n] n Inr assms show ?thesis by (auto simp: daemonCmd_def)
  next
    case d: (Inr u)
    with n Inr assms(2) have "h' = CloseDaemon h1" by (auto simp: daemonCmd_def split: option.splits if_splits)
    with NewDaemon_ok [OF assms(1) n] d show ?thesis by (auto simp: host_ok_def CloseDaemon_def closeListener_def)
  qed
qed (use assms in \<open>auto simp: daemonCmd_def\<close>)

section \<open>Concrete commands\<close>

definition exCli :: "unit cli" where
  "exCli = \<lparr>dialed = None, asObject = (\<lambda>_. Inr ()), asList = (\<lambda>_. Inr []), nullObject = (), marshal = (\<lambda>_. Inr ''{}''),
     marshalEvent = (\<lambda>_. Inr ''{}''), formatRFC3339 = (\<lambda>_. [])\<rparr>"

definition exRuleFlags :: rule_flags where
  "exRuleFlags = \<lparr>fl_on = ''http.available:http://localhost'', fl_session = ''s1'', fl_agent = ''claude'', fl_repo = ''/repo'',
     fl_prompt = ''go on'', fl_label = [], fl_oneShot = True, fl_expires = 0\<rparr>"

theorem rule_add_cli_is_tool_witness:
  "snd (ruleAddCmd exCli exClient 0 exRuleFlags exDaemon) = snd (createRuleHandler exClient exRuleInput exDaemon)"
  using rule_add_cli_is_tool [of exCli "''http.available''" exRuleFlags "''http://localhost''" exClient 0 exDaemon]
  by (simp add: exCli_def exRuleFlags_def exRuleInput_def)

theorem follow_prints_published_witness:
  "\<exists>es. subseq es [exEvent] \<and> eventsFollowCmd exCli exWire [] (GoError ''EOF'') [Frame ''event'' exEvent] =
     (concat (map (\<lambda>ev. fst (printJSON (marshalEvent exCli) ev)) es), Some (GoError ''EOF''))"
proof -
  have c: "dialed exCli = None" "connected exWire" by (simp_all add: exCli_def exWire_def connected_def)
  let ?ts = "[BusPublishes exEvent, StreamTurn True]" and ?rq = "\<lparr>rq_ID = 1, rq_Method = ''events.follow'', rq_Params = []\<rparr>"
  have "map_option fst (follow True ?ts ?rq NewBus) =
      Some [Reply \<lparr>rs_ID = 1, rs_Result = Some ROk, rs_Error = []\<rparr>, Notification ''event'' exEvent]"
    using follow_receives_in_order [OF wf_NewBus, of "[exEvent]" ?rq] by simp
  then obtain b1 where "follow True ?ts ?rq NewBus =
      Some (Reply \<lparr>rs_ID = 1, rs_Result = Some ROk, rs_Error = []\<rparr> # [Notification ''event'' exEvent], b1)" by auto
  from follow_prints_published [OF wf_NewBus c this] show ?thesis by simp
qed

definition exBuildClient :: "string Client" where
  \<comment> \<open>the parameters of the one command cross the socket\<close>
  "exBuildClient = exClient\<lparr>cl_cd := exCodec\<lparr>dec_inject := (\<lambda>_. Inr (execParams ''build'' (ChildExit 2) 5000000))\<rparr>\<rparr>"

definition exBuildRule :: Rule where
  "exBuildRule = (exRule ''rule-9'' False)\<lparr>r_Selector := \<lparr>sel_Type = ''exec.failed'', sel_Source = ''build''\<rparr>\<rparr>"

definition exBuilding :: daemon where
  "exBuilding = exDaemon\<lparr>db := exDB\<lparr>rules := rules exDB @ [exBuildRule]\<rparr>\<rparr>"

lemma exBuilding_facts: "wf_db (db exBuilding)" "healthy exBuilding" "wf_bus (bus exBuilding)"
  "idAt ''evt'' (rand exBuilding) (nrand exBuilding) \<notin> c_EventID ` set (continuations (db exBuilding))"
  "freshIDs (length (rules (db exBuilding))) (exBuilding\<lparr>nrand := nrand exBuilding + 6\<rparr>)"
proof -
  show "wf_db (db exBuilding)" by code_simp
  show "freshIDs (length (rules (db exBuilding))) (exBuilding\<lparr>nrand := nrand exBuilding + 6\<rparr>)" by code_simp
qed (use exDaemon_facts in \<open>simp_all add: exBuilding_def exDB_def\<close>)

theorem exec_outcome_fires_rules_witness:
  "\<exists>ls out w' k. execCmd exCli exBuildClient ''build'' (ChildExit 2) 5000000 exBuilding = ((ls, out), w') \<and>
     exitStatus out = 2 \<and> k \<in> set (continuations (db w')) \<and> c_RuleID k = ''rule-9''"
proof -
  obtain ls out w' where run: "execCmd exCli exBuildClient ''build'' (ChildExit 2) 5000000 exBuilding = ((ls, out), w')"
    by (metis surj_pair)
  have c: "dialed exCli = None" "connected (cl_wire exBuildClient)"
      "crosses (enc_inject (cl_en exBuildClient)) (dec_inject (cl_cd exBuildClient)) (execParams ''build'' (ChildExit 2) 5000000)"
      "\<forall>res. \<not> isl (asObject exCli (RIngest res))"
    by (simp_all add: exCli_def exBuildClient_def exClient_def exWire_def connected_def crosses_def execParams_def execType_def)
  have r: "exBuildRule \<in> set (rules (db exBuilding))" "r_Selector exBuildRule = \<lparr>sel_Type = execType (ChildExit 2), sel_Source = ''build''\<rparr>"
      "\<not> r_Consumed exBuildRule" "r_ExpiresAt exBuildRule = None" "r_ID exBuildRule = ''rule-9''"
    by (simp_all add: exBuilding_def exBuildRule_def exRule_def execType_def)
  from exec_outcome_fires_rules [OF run c exBuilding_facts(2) _ exBuilding_facts(3) r(1-4) exBuilding_facts(4,5)] exBuilding_facts(1)
  obtain ev k where "exitStatus out = 2" "k \<in> set (continuations (db w'))" "firedBy (cl_te exBuildClient) ev exBuildRule k" by auto
  with run r(5) show ?thesis by (auto simp: firedBy_def)
qed

end
