(* ===== verification/Apply.thy ===== *)
theory Apply
  imports Commands Workflow
begin

text \<open>
  The command that installs a workflow, \<^verbatim>\<open>src/cmd/runtimepulse/cmd_apply.go\<close>, over the socket.

  Each call of the command is a connection of its own: \<open>wires n\<close> is what the socket does during the \<open>n\<close>-th
  call, so every call can fail before it reaches the daemon or, after the daemon has served it, when its answer is awaited.
  \<open>idOf\<close> reads the field \<open>id\<close> of the decoded answer.
\<close>

section \<open>The command\<close>

definition wired :: "'t Client \<Rightarrow> (nat \<Rightarrow> wire) \<Rightarrow> nat \<Rightarrow> 't Client" where
  "wired c wires n = c\<lparr>cl_wire := wires n\<rparr>"

fun rollback :: "'t Client \<Rightarrow> (nat \<Rightarrow> wire) \<Rightarrow> nat \<Rightarrow> string list \<Rightarrow> 'z dm \<Rightarrow> 'z dm" where
  \<comment> \<open>best effort: the errors are ignored\<close>
  "rollback c wires n [] w = w"
| "rollback c wires n (i # is) w = rollback c wires (Suc n) is
     (snd (Call (wired c wires n) ''rule.remove'' (enc_id (cl_en c) i) (\<lambda>_. Inr ()) () w))"

definition stepFailed :: "Rule \<Rightarrow> error \<Rightarrow> nat \<Rightarrow> error" where
  "stepFailed r e n = GoError (''apply: step '' @ goQuote (r_Label r) @ '' failed: '' @ Error e @
     '' (rolled back '' @ Itoa (int n) @ '' created rules)'')"

fun applyLoop :: "'j cli \<Rightarrow> ('j \<Rightarrow> string option) \<Rightarrow> 't Client \<Rightarrow> (nat \<Rightarrow> wire) \<Rightarrow> Workflow \<Rightarrow> string \<Rightarrow>
    nat \<Rightarrow> string list \<Rightarrow> Rule list \<Rightarrow> 'z dm \<Rightarrow> printed \<times> 'z dm" where
  \<comment> \<open>from call \<open>n\<close>, with the identifiers created so far; errors of printing are ignored\<close>
  "applyLoop ci idOf c wires wk repo n created [] w = (([], None), w)"
| "applyLoop ci idOf c wires wk repo n created (r # rs) w =
     (case Call (wired c wires n) ''rule.add'' (enc_rule (cl_en c) (applyParams wk repo r)) (asObject ci) (nullObject ci) w of
       (Inl e, w1) \<Rightarrow> (([], Some (stepFailed r e (length created))), rollback c wires (Suc n) created w1)
     | (Inr out, w1) \<Rightarrow>
         (case applyLoop ci idOf c wires wk repo (Suc n) (case idOf out of Some i \<Rightarrow> created @ [i] | None \<Rightarrow> created) rs w1 of
           ((ls, e), w2) \<Rightarrow> ((fst (printJSON (marshal ci) out) @ ls, e), w2)))"

record apply_env =
  readFile :: "string \<Rightarrow> error + string"
  getwd :: "error + string"
  pathAbs :: "string \<Rightarrow> error + string"

definition applyRepo :: "apply_env \<Rightarrow> Workflow \<Rightarrow> error + string" where
  "applyRepo ae w = (case (if wk_Repo w = [] then getwd ae else Inr (wk_Repo w)) of
     Inl e \<Rightarrow> Inl e
   | Inr repo \<Rightarrow> pathAbs ae repo)"

definition applyCmd :: "'j cli \<Rightarrow> ('j \<Rightarrow> string option) \<Rightarrow> 't Client \<Rightarrow> (nat \<Rightarrow> wire) \<Rightarrow> (string \<Rightarrow> error + Workflow) \<Rightarrow>
    apply_env \<Rightarrow> string \<Rightarrow> 'z dm \<Rightarrow> printed \<times> 'z dm" where
  "applyCmd ci idOf c wires yaml ae path w =
     (case readFile ae path of Inl e \<Rightarrow> (([], Some e), w) | Inr data \<Rightarrow>
     (case Parse (cl_te c) yaml data of Inl e \<Rightarrow> (([], Some e), w) | Inr wk \<Rightarrow>
     (case applyRepo ae wk of Inl e \<Rightarrow> (([], Some e), w) | Inr repo \<Rightarrow>
     (case dialed ci of Some e \<Rightarrow> (([], Some e), w) | None \<Rightarrow>
     applyLoop ci idOf c wires wk repo 0 [] (Rules wk) w))))"

section \<open>One call\<close>

definition arrives :: "wire \<Rightarrow> bool" where
  \<comment> \<open>the request reaches the daemon, whatever becomes of the answer\<close>
  "arrives wi \<longleftrightarrow> dialErr wi = None \<and> sendErr wi = None"

definition received :: "wire \<Rightarrow> (rpc_result \<Rightarrow> error + 'a) \<Rightarrow> 'a \<Rightarrow> error + rpc_result \<Rightarrow> error + 'a" where
  "received wi decode zero r = (case recvErr wi of Some e \<Rightarrow> Inl e | None \<Rightarrow> answer decode zero r)"

lemma connected_arrives: "connected wi \<longleftrightarrow> arrives wi \<and> recvErr wi = None"
  by (auto simp: connected_def arrives_def)

lemma Call_arrives:
  assumes "arrives (cl_wire c)" and "method \<noteq> ''events.follow''"
    and "rpcDispatch (cl_te c) (cl_env c) (cl_cd c) method params w = (r, w')"
  shows "Call c method params decode zero w = (received (cl_wire c) decode zero r, w')"
  using assms by (cases r; cases "recvErr (cl_wire c)")
    (simp_all add: Call_def bindE_def arrives_def readResponse_def received_def answer_def)

lemma Call_lost: "\<not> arrives (cl_wire c) \<Longrightarrow> \<exists>e. Call c method params decode zero w = (Inl e, w)"
  by (rule Call_never_sent) (auto simp: arrives_def)

lemma wired_sel [simp]:
  "cl_te (wired c wires n) = cl_te c" "cl_env (wired c wires n) = cl_env c" "cl_cd (wired c wires n) = cl_cd c"
  "cl_en (wired c wires n) = cl_en c" "cl_wire (wired c wires n) = wires n"
  by (simp_all add: wired_def)

lemma Call_ruleAdd:
  assumes "arrives (cl_wire c)" and "crosses (enc_rule (cl_en c)) (dec_rule (cl_cd c)) p"
    and "ruleAddP (cl_te c) (cl_env c) p w = (r, w')"
  shows "Call c ''rule.add'' (enc_rule (cl_en c) p) decode zero w = (received (cl_wire c) decode zero (map_sum id RRule r), w')"
proof -
  have "rpcDispatch (cl_te c) (cl_env c) (cl_cd c) ''rule.add'' (enc_rule (cl_en c) p) w = (map_sum id RRule r, w')"
    using assms(2,3) by (cases r) (simp_all add: rpcDispatch_def ruleAdd_def crosses_def unmarshal_sent bindE_def)
  from Call_arrives [OF assms(1) _ this] show ?thesis by simp
qed

lemma Call_ruleRemove:
  assumes "arrives (cl_wire c)" and "crosses (enc_id (cl_en c)) (dec_id (cl_cd c)) i"
  shows "snd (Call c ''rule.remove'' (enc_id (cl_en c) i) (\<lambda>_. Inr ()) () w) = snd (RemoveRule i w)"
proof -
  obtain r w' where r: "RemoveRule i w = (r, w')" by (cases "RemoveRule i w")
  then have "rpcDispatch (cl_te c) (cl_env c) (cl_cd c) ''rule.remove'' (enc_id (cl_en c) i) w = (map_sum id (\<lambda>_. ROk) r, w')"
    using assms(2) by (cases r) (simp_all add: rpcDispatch_def crosses_def unmarshal_sent bindE_def)
  from Call_arrives [OF assms(1) _ this, of "\<lambda>_. Inr ()" "()"] r show ?thesis by simp
qed

section \<open>A socket that loses nothing\<close>

definition readsID :: "'j cli \<Rightarrow> ('j \<Rightarrow> string option) \<Rightarrow> bool" where
  \<comment> \<open>the answer of \<open>rule.add\<close> is read back as an object with its identifier\<close>
  "readsID ci idOf \<longleftrightarrow> (\<forall>r. \<exists>j. asObject ci (RRule r) = Inr j \<and> idOf j = Some (r_ID r))"

definition paramsCross :: "'t Client \<Rightarrow> Workflow \<Rightarrow> string \<Rightarrow> bool" where
  \<comment> \<open>the parameters of the command's calls survive the socket\<close>
  "paramsCross c wk repo \<longleftrightarrow> (\<forall>r\<in>set (Rules wk). crosses (enc_rule (cl_en c)) (dec_rule (cl_cd c)) (applyParams wk repo r)) \<and>
     (\<forall>i. crosses (enc_id (cl_en c)) (dec_id (cl_cd c)) i)"

definition loud :: "('d, 'z) conn_scheme \<Rightarrow> bool" where
  \<comment> \<open>an error of the database has a text: the protocol tells an error by its text\<close>
  "loud w \<longleftrightarrow> (\<forall>n. fault w n \<noteq> Some [])"

lemma healthy_loud: "healthy w \<Longrightarrow> loud w"
  by (simp add: healthy_def loud_def)

lemma ruleAddP_loud:
  fixes w :: "'z dm"
  assumes run: "ruleAddP te env p w = (res, w')" and "loud w" and v: "ruleValidate te env p = Inr t"
  shows "loud w' \<and> (\<forall>e. res = Inl e \<longrightarrow> Error e \<noteq> [])"
  using assms
  by (auto simp: ruleAddP_def ruleSession_def RegisterSession_def GetSession_def AddRule_def insertRule_def insert_row_def
      bindE_def fromSum_def NewID_run Now_def Query_def Exec_def Update_def Let_def loud_def
      split: option.splits if_splits sum.splits)

lemma rollback_direct:
  assumes "\<forall>n. connected (wires n)" and "\<forall>i. crosses (enc_id (cl_en c)) (dec_id (cl_cd c)) i"
  shows "removeRules is w = (Inr (), rollback c wires n is w)"
  using assms
proof (induction "is" arbitrary: n w)
  case (Cons i "is")
  have "snd (Call (wired c wires n) ''rule.remove'' (enc_id (cl_en c) i) (\<lambda>_. Inr ()) () w) = snd (RemoveRule i w)"
    using Call_ruleRemove [of "wired c wires n" i w] Cons.prems by (simp add: connected_arrives)
  with Cons show ?case by (cases "RemoveRule i w") (simp add: tryE_def)
qed simp

lemma applyLoop_direct:
  fixes w :: "'z dm"
  assumes "applyLoop ci idOf c wires wk repo n created rs w = ((ls, e), w')"
    and "\<forall>n. connected (wires n)" and "readsID ci idOf" and "loud w"
    and "\<forall>r\<in>set rs. crosses (enc_rule (cl_en c)) (dec_rule (cl_cd c)) (applyParams wk repo r)"
    and "\<forall>i. crosses (enc_id (cl_en c)) (dec_id (cl_cd c)) i"
    and "list_all (installs (cl_te c) (cl_env c) wk repo) rs"
  shows "\<exists>res. addRules (cl_te c) (cl_env c) wk repo created rs w = (res, w') \<and> (e = None \<longleftrightarrow> \<not> isl res)"
  using assms
proof (induction rs arbitrary: n created w ls)
  case (Cons r rs)
  let ?p = "applyParams wk repo r"
  obtain q and w1 :: "'z dm" where q: "ruleAddP (cl_te c) (cl_env c) ?p w = (q, w1)" by (cases "ruleAddP (cl_te c) (cl_env c) ?p w")
  have call: "Call (wired c wires n) ''rule.add'' (enc_rule (cl_en c) ?p) (asObject ci) (nullObject ci) w
      = (answer (asObject ci) (nullObject ci) (map_sum id RRule q), w1)"
    using Call_ruleAdd [of "wired c wires n" ?p w q w1 "asObject ci" "nullObject ci"] Cons.prems(2,5) q
    by (simp add: connected_arrives received_def)
  have "loud w1" and err: "q = Inl x \<Longrightarrow> Error x \<noteq> []" for x
    using ruleAddP_loud [OF q Cons.prems(4)] Cons.prems(7) by (auto simp: installs_def)
  show ?case
  proof (cases q)
    case (Inl x)
    with Cons.prems call q err show ?thesis
      by (auto simp: answer_def tryE_def bindE_def throwE_def rollback_direct [of wires c _ w1 "Suc n"])
  next
    case (Inr r')
    from Cons.prems(3) obtain j where j: "asObject ci (RRule r') = Inr j" "idOf j = Some (r_ID r')" unfolding readsID_def by blast
    obtain ls' e' w2 where l: "applyLoop ci idOf c wires wk repo (Suc n) (created @ [r_ID r']) rs w1 = ((ls', e'), w2)"
      by (metis surj_pair)
    with Cons.prems(1) call Inr j have l: "applyLoop ci idOf c wires wk repo (Suc n) (created @ [r_ID r']) rs w1 = ((ls', e), w')"
      using l by (simp add: answer_def)
    from Cons.IH [OF l] Cons.prems \<open>loud w1\<close> q Inr show ?thesis by (auto simp: tryE_def)
  qed
qed auto

text \<open>
  (C16) A workflow is installed completely or not at all. When a valid file is applied over a socket that loses nothing, the next
  identifiers are fresh and at most one statement of the database fails, then either the command fails and the
  rules are what they were, or it succeeds and exactly the workflow's rules were appended, in order and unconsumed.
  With a working database and a reachable daemon it always succeeds: the rollback is not needed for a valid file.
\<close>

theorem apply_all_or_nothing:
  fixes w :: "'z dm"
  assumes run: "applyCmd ci idOf c wires yaml ae path w = ((ls, e), w')"
    and rd: "readFile ae path = Inr data" and parse: "Parse (cl_te c) yaml data = Inr wk"
    and repo: "applyRepo ae wk = Inr repo" "repo \<noteq> []"
    and client: "\<forall>n. connected (wires n)" "readsID ci idOf" "paramsCross c wk repo"
    and one: "oneFault w" "loud w" and fresh: "freshRuleIDs (length (wk_Steps wk)) w"
  shows "(case e of
      Some _ \<Rightarrow> rules (db w') = rules (db w)
    | None \<Rightarrow> \<exists>added. rules (db w') = rules (db w) @ added \<and>
        map (\<lambda>r. r\<lparr>r_ID := [], r_CreatedAt := 0\<rparr>) added = Rules wk) \<and>
    (healthy w \<and> dialed ci = None \<longrightarrow> e = None)"
proof (cases "dialed ci")
  case (Some x)
  with run rd parse repo have "e = Some x" "w' = w" by (auto simp: applyCmd_def)
  with Some show ?thesis by simp
next
  case None
  note I = installs_Rules [OF parse, of "cl_env c" repo]
  from None have "applyLoop ci idOf c wires wk repo 0 (map r_ID ([] :: Rule list)) (Rules wk) w = ((ls, e), w')"
    using run rd parse repo by (simp add: applyCmd_def)
  from applyLoop_direct [OF this client(1,2) one(2)] client(3) I
  obtain res where loop: "addRules (cl_te c) (cl_env c) wk repo (map r_ID ([] :: Rule list)) (Rules wk) w = (res, w')" "e = None \<longleftrightarrow> \<not> isl res"
    unfolding paramsCross_def by blast
  have len: "freshRuleIDs (length (Rules wk)) w" using fresh by (simp add: Rules_def)
  from addRules_outcome [OF loop(1) one(1) _ _ repo(2) len, of "rules (db w)"] I
    addRules_healthy [of w "cl_te c" "cl_env c" wk repo "Rules wk" "[]"] loop len repo(2) None
  show ?thesis by (cases res; cases e) auto
qed

section \<open>A socket that loses calls\<close>

text \<open>The rules that a rollback from call \<open>n\<close> leaves behind: those whose removal did not reach the daemon.\<close>

fun survivors :: "(nat \<Rightarrow> wire) \<Rightarrow> nat \<Rightarrow> 'a list \<Rightarrow> 'a list" where
  "survivors wires n [] = []"
| "survivors wires n (x # xs) = (if arrives (wires n) then [] else [x]) @ survivors wires (Suc n) xs"

lemma distinct_mid: "distinct (xs @ y # ys) \<Longrightarrow> y \<notin> set (xs @ ys)"
  by auto

lemma RemoveRule_healthy:
  fixes w :: "'z dm"
  assumes "healthy w"
  shows "healthy (snd (RemoveRule i w)) \<and> rules (db (snd (RemoveRule i w))) = filter (\<lambda>r. r_ID r \<noteq> i) (rules (db w))"
  using assms by (simp add: RemoveRule_def Update_def Exec_def healthy_def delete_where_def)

lemma rollback_survivors:
  fixes w :: "'z dm"
  assumes "healthy w" and "\<forall>i. crosses (enc_id (cl_en c)) (dec_id (cl_cd c)) i"
    and "rules (db w) = old @ new @ rest" and "distinct (map r_ID (old @ new @ rest))"
  shows "rules (db (rollback c wires n (map r_ID new) w)) = old @ survivors wires n new @ rest"
  using assms
proof (induction new arbitrary: n w old)
  case (Cons x new)
  let ?w = "snd (Call (wired c wires n) ''rule.remove'' (enc_id (cl_en c) (r_ID x)) (\<lambda>_. Inr ()) () w)"
  show ?case
  proof (cases "arrives (wires n)")
    case True
    have "?w = snd (RemoveRule (r_ID x) w)" using Call_ruleRemove [of "wired c wires n" "r_ID x" w] Cons.prems(2) True by simp
    moreover have "r_ID x \<notin> r_ID ` set (old @ new @ rest)"
      using distinct_mid [of "map r_ID old" "r_ID x" "map r_ID (new @ rest)"] Cons.prems(4) by (simp add: image_Un)
    then have "\<forall>y\<in>set (old @ new @ rest). r_ID y \<noteq> r_ID x" by (metis imageI)
    then have "filter (\<lambda>r. r_ID r \<noteq> r_ID x) (old @ (x # new) @ rest) = old @ new @ rest" by (simp add: ball_Un)
    ultimately have "healthy ?w" "rules (db ?w) = old @ new @ rest"
      using RemoveRule_healthy [OF Cons.prems(1)] Cons.prems(3) by simp_all
    with Cons.IH [of ?w old "Suc n"] Cons.prems True show ?thesis by simp
  next
    case False
    then have "?w = w" using Call_lost [of "wired c wires n"] by (metis snd_conv wired_sel(5))
    with Cons.IH [of w "old @ [x]" "Suc n"] Cons.prems False show ?thesis by simp
  qed
qed simp

lemma freshRuleIDs_distinct: "freshRuleIDs n w \<Longrightarrow> distinct (map r_ID (rules (db w)))"
  by (simp add: freshRuleIDs_def)

definition appliedUpTo :: "(nat \<Rightarrow> wire) \<Rightarrow> nat \<Rightarrow> Rule list \<Rightarrow> Rule list \<Rightarrow> Rule list \<Rightarrow> error option \<Rightarrow> Rule list \<Rightarrow> bool" where
  \<comment> \<open>from call \<open>n\<close>, with the rules \<open>new\<close> added before: \<open>rs'\<close> is what the calls for \<open>rs\<close> leave, of the rules \<open>old @ new\<close> and of their own\<close>
  "appliedUpTo wires n new rs old e rs' \<longleftrightarrow> (\<exists>added. map (\<lambda>r. r\<lparr>r_ID := [], r_CreatedAt := 0\<rparr>) added = take (length added) rs \<and>
     (case e of
       None \<Rightarrow> (\<forall>j<length rs. connected (wires (n + j))) \<and> length added = length rs \<and> rs' = old @ new @ added
     | Some x \<Rightarrow> (\<exists>k<length rs. (\<forall>j<k. connected (wires (n + j))) \<and> \<not> connected (wires (n + k)) \<and>
         length added = (if arrives (wires (n + k)) then Suc k else k) \<and>
         (\<exists>y. x = stepFailed (rs ! k) y (length new + k)) \<and>
         rs' = old @ survivors wires (Suc (n + k)) (new @ take k added) @ drop k added)))"

lemma appliedUpTo_step:
  assumes "appliedUpTo wires (Suc n) (new @ [r']) rs old e rs'" and n: "connected (wires n)"
    and r: "r'\<lparr>r_ID := [], r_CreatedAt := 0\<rparr> = r"
  shows "appliedUpTo wires n new (r # rs) old e rs'"
proof -
  from assms(1) obtain added where a: "map (\<lambda>r. r\<lparr>r_ID := [], r_CreatedAt := 0\<rparr>) added = take (length added) rs"
    "case e of
       None \<Rightarrow> (\<forall>j<length rs. connected (wires (Suc n + j))) \<and> length added = length rs \<and> rs' = old @ (new @ [r']) @ added
     | Some x \<Rightarrow> (\<exists>k<length rs. (\<forall>j<k. connected (wires (Suc n + j))) \<and> \<not> connected (wires (Suc n + k)) \<and>
         length added = (if arrives (wires (Suc n + k)) then Suc k else k) \<and>
         (\<exists>y. x = stepFailed (rs ! k) y (length (new @ [r']) + k)) \<and>
         rs' = old @ survivors wires (Suc (Suc n + k)) ((new @ [r']) @ take k added) @ drop k added)"
    unfolding appliedUpTo_def by blast
  have m: "map (\<lambda>r. r\<lparr>r_ID := [], r_CreatedAt := 0\<rparr>) (r' # added) = take (length (r' # added)) (r # rs)" using a(1) r by simp
  have all: "(\<forall>j<Suc k. connected (wires (n + j))) \<longleftrightarrow> (\<forall>j<k. connected (wires (Suc n + j)))" for k
    using n by (auto simp: less_Suc_eq_0_disj)
  show ?thesis
  proof (cases e)
    case None
    with a(2) m all [of "length rs"] show ?thesis unfolding appliedUpTo_def by (intro exI [of _ "r' # added"]) simp
  next
    case (Some x)
    with a(2) obtain k where k: "k < length rs" "\<forall>j<k. connected (wires (Suc n + j))" "\<not> connected (wires (Suc n + k))"
      "length added = (if arrives (wires (Suc n + k)) then Suc k else k)" "\<exists>y. x = stepFailed (rs ! k) y (length (new @ [r']) + k)"
      "rs' = old @ survivors wires (Suc (Suc n + k)) ((new @ [r']) @ take k added) @ drop k added" by auto
    show ?thesis unfolding appliedUpTo_def Some option.case
      by (intro exI [of _ "r' # added"] conjI m exI [of _ "Suc k"]) (use k all [of k] in simp_all)
  qed
qed

lemma applyLoop_wires:
  fixes w :: "'z dm"
  assumes "applyLoop ci idOf c wires wk repo n (map r_ID new) rs w = ((ls, e), w')"
    and "healthy w" and "readsID ci idOf"
    and "\<forall>r\<in>set rs. crosses (enc_rule (cl_en c)) (dec_rule (cl_cd c)) (applyParams wk repo r)"
    and "\<forall>i. crosses (enc_id (cl_en c)) (dec_id (cl_cd c)) i"
    and "list_all (installs (cl_te c) (cl_env c) wk repo) rs" and "wk_Agent wk \<noteq> []" "repo \<noteq> []"
    and "freshRuleIDs (length rs) w" and "rules (db w) = old @ new"
  shows "appliedUpTo wires n new rs old e (rules (db w'))"
  using assms
proof (induction rs arbitrary: n new w ls)
  case Nil
  then show ?case by (simp add: appliedUpTo_def)
next
  case (Cons r rs)
  let ?p = "applyParams wk repo r"
  let ?call = "Call (wired c wires n) ''rule.add'' (enc_rule (cl_en c) ?p) (asObject ci) (nullObject ci) w"
  have v: "ruleValidate (cl_te c) (cl_env c) ?p = Inr None" and rp: "ruleOf ?p None = r" using Cons.prems(6) by (simp_all add: installs_def)
  have f: "freshRuleIDs (Suc (length rs)) w" using Cons.prems(9) by simp
  have ap: "ru_Agent ?p \<noteq> []" "ru_RepoPath ?p \<noteq> []" using Cons.prems(7,8) by (simp_all add: applyParams_def)
  show ?case
  proof (cases "arrives (wires n)")
    case False
    then obtain x where "?call = (Inl x, w)" using Call_lost [of "wired c wires n"] by (metis wired_sel(5))
    with Cons.prems(1) have "e = Some (stepFailed r x (length new))" "w' = rollback c wires (Suc n) (map r_ID new) w" by auto
    moreover have "rules (db (rollback c wires (Suc n) (map r_ID new) w)) = old @ survivors wires (Suc n) new"
      using rollback_survivors [OF Cons.prems(2,5), of old new "[]"] Cons.prems(10) freshRuleIDs_distinct [OF f] by simp
    ultimately show ?thesis using False
      unfolding appliedUpTo_def by (intro exI [of _ "[]"]) (auto simp: connected_arrives intro!: exI [of _ 0])
  next
    case True
    obtain r' and w1 :: "'z dm" where q: "ruleAddP (cl_te c) (cl_env c) ?p w = (Inr r', w1)" and h: "healthy w1"
      using ruleAddP_healthy [OF v Cons.prems(2) freshRuleIDs_first [OF f] ap] by blast
    have w1: "rules (db w1) = old @ (new @ [r'])" "r_ID r' = idAt ''rule'' (rand w) (nrand w)" "rand w1 = rand w"
      "nrand w1 = nrand w + 6" "r'\<lparr>r_ID := [], r_CreatedAt := 0\<rparr> = r"
      using ruleAddP_oneFault [OF q healthy_oneFault [OF Cons.prems(2)] v ap freshRuleIDs_first [OF f]] Cons.prems(10) rp by simp_all
    have f1: "freshRuleIDs (length rs) w1"
      by (rule freshRuleIDs_step [OF f, of _ r']) (use w1 Cons.prems(10) in simp_all)
    have call: "?call = (received (wires n) (asObject ci) (nullObject ci) (Inr (RRule r')), w1)"
      using Call_ruleAdd [of "wired c wires n" ?p w "Inr r'" w1 "asObject ci" "nullObject ci"] True Cons.prems(4) q by simp
    show ?thesis
    proof (cases "recvErr (wires n)")
      case (Some x)
      with call Cons.prems(1) have "e = Some (stepFailed r x (length new))" "w' = rollback c wires (Suc n) (map r_ID new) w1"
        by (auto simp: received_def)
      moreover have "rules (db (rollback c wires (Suc n) (map r_ID new) w1)) = old @ survivors wires (Suc n) new @ [r']"
        using rollback_survivors [OF h Cons.prems(5), of old new "[r']"] w1(1) freshRuleIDs_distinct [OF f1] by simp
      ultimately show ?thesis using True Some w1(5)
        unfolding appliedUpTo_def by (intro exI [of _ "[r']"]) (auto simp: connected_arrives intro!: exI [of _ 0])
    next
      case None
      from Cons.prems(3) obtain j where j: "asObject ci (RRule r') = Inr j" "idOf j = Some (r_ID r')" unfolding readsID_def by blast
      obtain ls' e' w2 where l: "applyLoop ci idOf c wires wk repo (Suc n) (map r_ID (new @ [r'])) rs w1 = ((ls', e'), w2)"
        by (metis surj_pair)
      with Cons.prems(1) call None j have "e' = e" "w2 = w'" by (simp_all add: received_def answer_def)
      with l have l: "applyLoop ci idOf c wires wk repo (Suc n) (map r_ID (new @ [r'])) rs w1 = ((ls', e), w')" by simp
      have "appliedUpTo wires (Suc n) (new @ [r']) rs old e (rules (db w'))"
        using Cons.IH [OF l h] Cons.prems(3-8) f1 w1(1) by simp
      moreover have "connected (wires n)" using True None by (simp add: connected_arrives)
      ultimately show ?thesis by (rule appliedUpTo_step [OF _ _ w1(5)])
    qed
  qed
qed

text \<open>
  (C17) What a socket that loses calls leaves behind. With a working database and fresh identifiers the command succeeds exactly when none of its calls
  is lost, and then the workflow's rules were appended in order. Otherwise it reports the first step \<open>k\<close> whose call is lost and that \<open>k\<close>
  rules were rolled back; of those the ones whose removal does not reach the daemon stay, and when it was only the answer of
  step \<open>k\<close> that was lost, its rule stays as well, whatever becomes of the removals: no call is made for it.
\<close>

theorem apply_over_the_wire:
  fixes w :: "'z dm"
  assumes run: "applyCmd ci idOf c wires yaml ae path w = ((ls, e), w')"
    and rd: "readFile ae path = Inr data" and parse: "Parse (cl_te c) yaml data = Inr wk"
    and repo: "applyRepo ae wk = Inr repo" "repo \<noteq> []" and dial: "dialed ci = None"
    and client: "readsID ci idOf" "paramsCross c wk repo"
    and ok: "healthy w" and fresh: "freshRuleIDs (length (wk_Steps wk)) w"
  shows "\<exists>added. map (\<lambda>r. r\<lparr>r_ID := [], r_CreatedAt := 0\<rparr>) added = take (length added) (Rules wk) \<and>
    (case e of
      None \<Rightarrow> (\<forall>j<length (Rules wk). connected (wires j)) \<and> length added = length (Rules wk) \<and> rules (db w') = rules (db w) @ added
    | Some x \<Rightarrow> (\<exists>k<length (Rules wk). (\<forall>j<k. connected (wires j)) \<and> \<not> connected (wires k) \<and>
        length added = (if arrives (wires k) then Suc k else k) \<and> (\<exists>y. x = stepFailed (Rules wk ! k) y k) \<and>
        rules (db w') = rules (db w) @ survivors wires (Suc k) (take k added) @ drop k added))"
proof -
  note I = installs_Rules [OF parse, of "cl_env c" repo]
  have "applyLoop ci idOf c wires wk repo 0 (map r_ID ([] :: Rule list)) (Rules wk) w = ((ls, e), w')"
    using run rd parse repo dial by (simp add: applyCmd_def)
  from applyLoop_wires [OF this ok client(1) _ _ _ _ repo(2), of "rules (db w)"] client(2) I fresh
  have "appliedUpTo wires 0 [] (Rules wk) (rules (db w)) e (rules (db w'))"
    by (simp add: paramsCross_def Rules_def)
  then show ?thesis by (simp add: appliedUpTo_def cong: option.case_cong)
qed

section \<open>A concrete file\<close>

definition exApply :: apply_env where
  "exApply = \<lparr>readFile = Inr, getwd = Inr ''/'', pathAbs = Inr\<rparr>"

definition exApplyCli :: "string cli" where
  \<comment> \<open>an answer is read as its identifier\<close>
  "exApplyCli = \<lparr>dialed = None, asObject = (\<lambda>x. case x of RRule r \<Rightarrow> Inr (r_ID r) | _ \<Rightarrow> Inr []), asList = (\<lambda>_. Inr []),
     nullObject = [], marshal = Inr, marshalEvent = (\<lambda>_. Inr ''{}''), formatRFC3339 = (\<lambda>_. [])\<rparr>"

definition exApplyClient :: "string Client" where
  \<comment> \<open>a rule is sent as its label\<close>
  "exApplyClient = exClient\<lparr>
     cl_cd := exCodec\<lparr>dec_rule := (\<lambda>s. case List.find (\<lambda>r. r_Label r = s) (Rules exWorkflow) of
         None \<Rightarrow> Inl (GoError ''bad json'') | Some r \<Rightarrow> Inr (applyParams exWorkflow ''/repo'' r)), dec_id := (\<lambda>s. Inr (tl s))\<rparr>,
     cl_en := (cl_en exClient)\<lparr>enc_rule := ru_Label, enc_id := (\<lambda>i. CHR ''#'' # i)\<rparr>\<rparr>"

lemma exApply_facts:
  "cl_te exApplyClient = exEngine" "readFile exApply [] = Inr []" "applyRepo exApply exWorkflow = Inr ''/repo''"
  "dialed exApplyCli = None" "readsID exApplyCli Some" "paramsCross exApplyClient exWorkflow ''/repo''"
proof -
  show "cl_te exApplyClient = exEngine" by (simp add: exApplyClient_def exClient_def)
  show "paramsCross exApplyClient exWorkflow ''/repo''"
    by (simp add: paramsCross_def crosses_def exApplyClient_def exWorkflow_def exSteps_def Rules_def applyParams_def stepLabel_def)
qed (simp_all add: exApply_def applyRepo_def exWorkflow_def exApplyCli_def readsID_def)

theorem apply_all_or_nothing_witness:
  "\<exists>ls w' added. applyCmd exApplyCli Some exApplyClient (\<lambda>_. exWire) exYaml exApply [] exDaemon = ((ls, None), w') \<and>
     rules (db w') = rules exDB @ added \<and> map r_Label added = [''migrate'', ''step-2''] \<and> map r_OneShot added = [True, True]"
proof -
  obtain ls e w' where run: "applyCmd exApplyCli Some exApplyClient (\<lambda>_. exWire) exYaml exApply [] exDaemon = ((ls, e), w')"
    by (metis surj_pair)
  note a = exApply_facts
  have c: "\<forall>n::nat. connected exWire" by (simp add: exWire_def connected_def)
  from apply_all_or_nothing [OF run a(2) _ a(3) _ c a(5,6) healthy_oneFault [OF exDaemon_facts(4)] healthy_loud [OF exDaemon_facts(4)]
    exDaemon_freshRules] exParse a(1,4) exDaemon_facts(4)
  obtain added where "e = None" "rules (db w') = rules (db exDaemon) @ added"
    and m: "map (\<lambda>r. r\<lparr>r_ID := [], r_CreatedAt := 0\<rparr>) added = Rules exWorkflow" by auto
  moreover have "map r_Label added = map r_Label (Rules exWorkflow)" "map r_OneShot added = map r_OneShot (Rules exWorkflow)"
    unfolding m [symmetric] by simp_all
  moreover have "map r_Label (Rules exWorkflow) = [''migrate'', ''step-2'']" "map r_OneShot (Rules exWorkflow) = [True, True]"
    by code_simp+
  ultimately show ?thesis using run by (auto simp: exDaemon_def)
qed

definition exLossy :: "nat \<Rightarrow> wire" where
  \<comment> \<open>the answer of the second call is lost\<close>
  "exLossy n = (if n = 1 then exWire\<lparr>recvErr := Some (GoError ''i/o timeout'')\<rparr> else exWire)"

theorem apply_over_the_wire_witness:
  "\<exists>ls x w' r. applyCmd exApplyCli Some exApplyClient exLossy exYaml exApply [] exDaemon = ((ls, Some x), w') \<and>
     rules (db w') = rules exDB @ [r] \<and> r_Label r = ''step-2''"
proof -
  obtain ls e w' where run: "applyCmd exApplyCli Some exApplyClient exLossy exYaml exApply [] exDaemon = ((ls, e), w')"
    by (metis surj_pair)
  note a = exApply_facts
  have l: "length (Rules exWorkflow) = 2" "r_Label (Rules exWorkflow ! 1) = ''step-2''" by code_simp+
  have c: "connected (exLossy 0)" "\<not> connected (exLossy 1)" "arrives (exLossy 1)" "arrives (exLossy 2)"
    by (simp_all add: exLossy_def exWire_def connected_def arrives_def)
  from apply_over_the_wire [OF run a(2) _ a(3) _ a(4,5,6) exDaemon_facts(4) exDaemon_freshRules] exParse a(1)
  obtain added where m: "map (\<lambda>r. r\<lparr>r_ID := [], r_CreatedAt := 0\<rparr>) added = take (length added) (Rules exWorkflow)"
    and u: "case e of
      None \<Rightarrow> (\<forall>j<length (Rules exWorkflow). connected (exLossy j)) \<and> length added = length (Rules exWorkflow) \<and> rules (db w') = rules (db exDaemon) @ added
    | Some x \<Rightarrow> (\<exists>k<length (Rules exWorkflow). (\<forall>j<k. connected (exLossy j)) \<and> \<not> connected (exLossy k) \<and>
        length added = (if arrives (exLossy k) then Suc k else k) \<and> (\<exists>y. x = stepFailed (Rules exWorkflow ! k) y k) \<and>
        rules (db w') = rules (db exDaemon) @ survivors exLossy (Suc k) (take k added) @ drop k added)" by auto
  have "\<not> (\<forall>j<2. connected (exLossy j))" using c(2) by (auto intro!: exI [of _ 1])
  with u l(1) obtain x k where x: "e = Some x" "k < 2" "\<not> connected (exLossy k)" "length added = (if arrives (exLossy k) then Suc k else k)"
    "rules (db w') = rules (db exDaemon) @ survivors exLossy (Suc k) (take k added) @ drop k added" by (cases e) auto
  have k: "k = 1" using x(2,3) c(1) by (cases k) auto
  with x(4) c(3) have two: "length added = 2" by simp
  then obtain r0 r1 where r: "added = [r0, r1]" by (metis One_nat_def Suc_1 length_0_conv length_Suc_conv)
  have "map r_Label added = map r_Label (map (\<lambda>r. r\<lparr>r_ID := [], r_CreatedAt := 0\<rparr>) added)" by simp
  also have "\<dots> = map r_Label (Rules exWorkflow)" using m two l(1) by simp
  finally have "r_Label r1 = map r_Label (Rules exWorkflow) ! 1" using r by (metis nth_Cons_0 nth_Cons_Suc One_nat_def list.simps(9))
  with l have "r_Label r1 = ''step-2''" by simp
  with run x(1,5) k r c(4) show ?thesis by (auto simp: exDaemon_def numeral_2_eq_2)
qed

end
