(* ===== verification/SetupJson.thy ===== *)
theory SetupJson
  imports Disk GoStrings
begin

text \<open>
  Registering a server in an agent's JSON configuration, \<^verbatim>\<open>src/internal/setup/jsonmerge.go\<close>.

  A JSON object is Go's \<open>map[string]any\<close>. Reading and printing JSON text is a parameter, \<open>jcodec\<close>: the
  streaming decoder that reads the first value of a text, \<open>json.Unmarshal\<close> that reads the whole text, and
  \<open>json.MarshalIndent\<close>. What the code relies on, that a printed document is read back as it was, is a
  hypothesis of the theorem that needs it. Writing to Go's nil map panics: the outcome of an operation is \<open>None\<close> for a
  panic and the returned error or value otherwise.
\<close>

section \<open>Documents\<close>

datatype json =
    JNull
  | JBool bool
  | JNumber string
  | JString string
  | JArray "json list"
  | JObject "string \<rightharpoonup> json"

record jcodec =
  jdecode :: "string \<Rightarrow> error + json"
  junmarshal :: "string \<Rightarrow> error + json"
  jmarshal :: "json \<Rightarrow> error + string"

definition rootOf :: "error + json \<Rightarrow> error + (string \<rightharpoonup> json) option" where
  \<comment> \<open>a value decoded into a variable of type \<open>map[string]any\<close>: \<open>null\<close> makes it the nil map, here \<open>None\<close>\<close>
  "rootOf r = (case r of
     Inl e \<Rightarrow> Inl e
   | Inr (JObject m) \<Rightarrow> Inr (Some m)
   | Inr JNull \<Rightarrow> Inr None
   | Inr v \<Rightarrow> Inl (GoError (''json: cannot unmarshal '' @
       (case v of JBool _ \<Rightarrow> ''bool'' | JNumber _ \<Rightarrow> ''number'' | JString _ \<Rightarrow> ''string'' | _ \<Rightarrow> ''array'') @
       '' into Go value of type map[string]interface {}'')))"

definition sectionOf :: "string \<Rightarrow> (string \<rightharpoonup> json) \<Rightarrow> (string \<rightharpoonup> json) option" where
  \<comment> \<open>the type assertion \<open>root[section].(map[string]any)\<close>\<close>
  "sectionOf section root = (case root section of Some (JObject m) \<Rightarrow> Some m | _ \<Rightarrow> None)"

definition mergeRoot :: "string \<Rightarrow> string \<Rightarrow> json \<Rightarrow> (string \<rightharpoonup> json) \<Rightarrow> string \<rightharpoonup> json" where
  "mergeRoot section name entry root =
     root(section \<mapsto> JObject ((case sectionOf section root of None \<Rightarrow> Map.empty | Some m \<Rightarrow> m)(name \<mapsto> entry)))"

definition hasRoot :: "string \<Rightarrow> string \<Rightarrow> (string \<rightharpoonup> json) \<Rightarrow> bool" where
  "hasRoot section name root = (case sectionOf section root of None \<Rightarrow> False | Some m \<Rightarrow> m name \<noteq> None)"

section \<open>The operations\<close>

type_synonym ('s, 'a) go = "'s \<Rightarrow> (error + 'a) option \<times> 's"
  \<comment> \<open>\<open>None\<close>: the call panicked\<close>

definition writeRoot :: "jcodec \<Rightarrow> string \<Rightarrow> (string \<rightharpoonup> json) \<Rightarrow> ('z dk, unit) io" where
  "writeRoot cd path root =
     bindE (fromSum (jmarshal cd (JObject root))) (\<lambda>out. atomicWrite path (out @ [CHR 0x0A]))"

definition mergeJSONServer :: "jcodec \<Rightarrow> string \<Rightarrow> string \<Rightarrow> string \<Rightarrow> json \<Rightarrow> ('z dk, unit) go" where
  "mergeJSONServer cd path section name entry = (\<lambda>s.
     let finish = (\<lambda>root s. case writeRoot cd path (mergeRoot section name entry root) s of (r, s') \<Rightarrow> (Some r, s')) in
     case osReadFile path s of
       (Inl e, s1) \<Rightarrow> (Some (Inl e), s1)
     | (Inr None, s1) \<Rightarrow> finish Map.empty s1
     | (Inr (Some b), s1) \<Rightarrow> (case rootOf (jdecode cd b) of
         Inl e \<Rightarrow> (Some (Inl (GoError (''setup: '' @ path @ '' is not valid JSON, leaving it untouched: '' @ Error e))), s1)
       | Inr None \<Rightarrow> (None, s1)
       | Inr (Some root) \<Rightarrow> finish root s1))"

definition hasJSONServer :: "jcodec \<Rightarrow> string \<Rightarrow> string \<Rightarrow> string \<Rightarrow> 'z dk \<Rightarrow> bool \<times> 'z dk" where
  "hasJSONServer cd path section name = (\<lambda>s. case osReadFile path s of
     (Inr (Some b), s1) \<Rightarrow> ((case rootOf (junmarshal cd b) of
         Inr (Some root) \<Rightarrow> hasRoot section name root
       | _ \<Rightarrow> False), s1)
   | (_, s1) \<Rightarrow> (False, s1))"

section \<open>The contract of a configuration document\<close>

text \<open>
  What the wizard relies on: an entry that was put is there, nothing but its place changes, and putting it
  again changes nothing.
\<close>

locale registry =
  fixes put :: "'v \<Rightarrow> 'd \<Rightarrow> 'd"
    and present :: "'d \<Rightarrow> bool"
    and others :: "'d \<Rightarrow> 'o"
  assumes present_put: "present (put v d)"
    and others_put: "others (put v d) = others d"
    and put_put: "put v (put u d) = put v d"
begin

lemma put_idem: "put v (put v d) = put v d"
  by (rule put_put)

lemma puts_present: "vs \<noteq> [] \<Longrightarrow> present (fold put vs d)"
proof (induction vs rule: rev_induct)
  case (snoc v vs)
  then show ?case by (simp add: present_put)
qed simp

lemma puts_last: "vs \<noteq> [] \<Longrightarrow> fold put vs d = put (last vs) d"
proof (induction vs rule: rev_induct)
  case (snoc v vs)
  then show ?case by (cases vs) (simp_all add: put_put)
qed simp

lemma puts_others: "others (fold put vs d) = others d"
  by (induction vs arbitrary: d) (simp_all add: others_put)

end

definition otherEntries :: "string \<Rightarrow> string \<Rightarrow> (string \<rightharpoonup> json) \<Rightarrow> (string \<rightharpoonup> json) \<times> (string \<rightharpoonup> json)" where
  \<comment> \<open>the other sections, and the other entries of the section\<close>
  "otherEntries section name root =
     (root(section := None), (case sectionOf section root of None \<Rightarrow> Map.empty | Some m \<Rightarrow> m)(name := None))"

lemma sectionOf_mergeRoot [simp]:
  "sectionOf section (mergeRoot section name entry root) =
     Some ((case sectionOf section root of None \<Rightarrow> Map.empty | Some m \<Rightarrow> m)(name \<mapsto> entry))"
  by (simp add: mergeRoot_def sectionOf_def)

interpretation servers: registry "mergeRoot sec name" "hasRoot sec name" "otherEntries sec name"
  for sec name
proof
  fix v u :: json and d
  show "hasRoot sec name (mergeRoot sec name v d)" by (simp add: hasRoot_def)
  show "otherEntries sec name (mergeRoot sec name v d) = otherEntries sec name d"
    by (simp add: otherEntries_def mergeRoot_def sectionOf_def)
  show "mergeRoot sec name v (mergeRoot sec name u d) = mergeRoot sec name v d"
    unfolding mergeRoot_def [of sec name v "mergeRoot sec name u d"] sectionOf_mergeRoot
    by (simp add: mergeRoot_def)
qed

section \<open>Properties\<close>

definition readBack :: "jcodec \<Rightarrow> bool" where
  \<comment> \<open>\<open>encoding/json\<close>: an object that was printed, followed by a newline, is read back as it was\<close>
  "readBack cd \<longleftrightarrow> (\<forall>m out. jmarshal cd (JObject m) = Inr out \<longrightarrow>
     junmarshal cd (out @ [CHR 0x0A]) = Inr (JObject m) \<and> jdecode cd (out @ [CHR 0x0A]) = Inr (JObject m))"

definition oldRoot :: "jcodec \<Rightarrow> string option \<Rightarrow> (string \<rightharpoonup> json) option" where
  \<comment> \<open>the document a merge starts from\<close>
  "oldRoot cd content = (case content of None \<Rightarrow> Some Map.empty
     | Some b \<Rightarrow> (case rootOf (jdecode cd b) of Inr (Some m) \<Rightarrow> Some m | _ \<Rightarrow> None))"

lemma mergeJSONServer_Inr:
  assumes "mergeJSONServer cd path section name entry s = (Some (Inr ()), s')"
  obtains root where "oldRoot cd (files s path) = Some root"
    and "writeRoot cd path (mergeRoot section name entry root) (s\<lparr>ndisk := Suc (ndisk s)\<rparr>) = (Inr (), s')"
  using assms
  by (cases rule: osReadFile_run [of path s])
    (auto simp: mergeJSONServer_def oldRoot_def Let_def split: option.splits sum.splits prod.splits)

lemma mergeJSONServer_frame:
  assumes "diskFrame I" and "mergeJSONServer cd path sec name entry s = (r, s')" and "I s"
  shows "I s'"
proof -
  have w: "I s2" if "writeRoot cd path root (s\<lparr>ndisk := n\<rparr>) = (q, s2)" for root n q s2
  proof -
    have "preserves I (writeRoot cd path root)"
      unfolding writeRoot_def by (intro preserves_bind preserves_pure diskFrame_atomicWrite [OF assms(1)])
    then show ?thesis using that assms(3) diskFrame_upd(2) [OF assms(1)] by (metis preservesD)
  qed
  show ?thesis
    using assms(2,3) w diskFrame_upd(2) [OF assms(1)]
    by (cases rule: osReadFile_run [of path s])
      (auto simp: mergeJSONServer_def Let_def split: option.splits sum.splits prod.splits)
qed

lemma writeRoot_Inr:
  assumes "writeRoot cd path root s = (Inr (), s')" and "tmpFresh path s"
  obtains out where "jmarshal cd (JObject root) = Inr out" and "files s' = (files s)(path \<mapsto> out @ [CHR 0x0A])"
proof -
  from assms(1) obtain out where out: "jmarshal cd (JObject root) = Inr out"
    and w: "atomicWrite path (out @ [CHR 0x0A]) s = (Inr (), s')"
    by (auto simp: writeRoot_def fromSum_def bindE_def split: sum.splits)
  from atomicWrite_effect [OF w assms(2)] out that show ?thesis by simp
qed

lemma merge_then_has:
  assumes run: "mergeJSONServer cd path section name entry s = (Some (Inr ()), s')"
    and fresh: "tmpFresh path s" and codec: "readBack cd" and readable: "dfault s' (ndisk s') = None"
  shows "\<exists>root out. oldRoot cd (files s path) = Some root \<and> files s' = (files s)(path \<mapsto> out) \<and>
    jdecode cd out = Inr (JObject (mergeRoot section name entry root)) \<and>
    otherEntries section name (mergeRoot section name entry root) = otherEntries section name root \<and>
    fst (hasJSONServer cd path section name s')"
proof -
  from run obtain root where root: "oldRoot cd (files s path) = Some root"
    and w: "writeRoot cd path (mergeRoot section name entry root) (s\<lparr>ndisk := Suc (ndisk s)\<rparr>) = (Inr (), s')"
    by (rule mergeJSONServer_Inr)
  from w obtain out where out: "jmarshal cd (JObject (mergeRoot section name entry root)) = Inr out"
    and f: "files s' = (files s)(path \<mapsto> out @ [CHR 0x0A])"
    by (rule writeRoot_Inr) (use fresh in \<open>auto simp: tmpFresh_def\<close>)
  have d: "junmarshal cd (out @ [CHR 0x0A]) = Inr (JObject (mergeRoot section name entry root))"
    using codec out by (simp add: readBack_def)
  have "fst (hasJSONServer cd path section name s')"
    using readable f d servers.present_put
    by (simp add: hasJSONServer_def osReadFile_def osCall_def rootOf_def)
  moreover have "jdecode cd (out @ [CHR 0x0A]) = Inr (JObject (mergeRoot section name entry root))"
    using codec out by (simp add: readBack_def)
  ultimately show ?thesis using root f servers.others_put by blast
qed


text \<open>
  A file that cannot be understood is left alone. When the file cannot be read or is not a JSON object, or
  any call fails, the merge does not report success and the file keeps its content.
\<close>

theorem json_merge_failure_keeps_file:
  assumes "mergeJSONServer cd path section name entry s = (r, s')" and "tmpFresh path s" and "r \<noteq> Some (Inr ())"
  shows "files s' path = files s path"
proof -
  have w: "files s2 path = files s path"
    if "writeRoot cd path root (s\<lparr>ndisk := n\<rparr>) = (q, s2)" "q \<noteq> Inr ()" for root n q s2
  proof -
    have f: "tmpFresh path (s\<lparr>ndisk := n\<rparr>)" using assms(2) by (simp add: tmpFresh_def)
    from that show ?thesis
      by (cases q) (auto simp: writeRoot_def fromSum_def bindE_def split: sum.splits dest!: atomicWrite_effect [OF _ f])
  qed
  show ?thesis
    using assms(1,3) w
    by (cases rule: osReadFile_run [of path s])
      (auto simp: mergeJSONServer_def Let_def split: option.splits sum.splits prod.splits, metis option.discI)
qed

text \<open>A file that holds \<open>null\<close> is valid JSON, but the decoder makes the map nil and the merge panics on it.\<close>

theorem json_null_panics:
  assumes "files s path = Some b" and "jdecode cd b = Inr JNull" and "dfault s (ndisk s) = None"
  shows "fst (mergeJSONServer cd path sec name entry s) = None"
  using assms by (simp add: mergeJSONServer_def osReadFile_def osCall_def rootOf_def)

section \<open>A concrete configuration\<close>

definition exEntry :: json where
  "exEntry = JObject [''command'' \<mapsto> JString ''rp'']"

definition oneDoc :: "(string \<rightharpoonup> json) \<Rightarrow> jcodec" where
  \<comment> \<open>reads the empty object and one more document, and prints the latter\<close>
  "oneDoc doc = (let rd = (\<lambda>s. if s = [CHR 0x7B, CHR 0x0A] then Inr (JObject doc)
       else if s = ''{}'' then Inr (JObject Map.empty) else Inl (GoError ''bad json'')) in
     \<lparr>jdecode = rd, junmarshal = rd, jmarshal = (\<lambda>v. if v = JObject doc then Inr [CHR 0x7B] else Inl (GoError ''unsupported value''))\<rparr>)"

abbreviation exCodecJson :: jcodec where
  "exCodecJson \<equiv> oneDoc (mergeRoot ''mcp'' ''rp'' exEntry Map.empty)"

definition exDisk :: disk where
  "exDisk = \<lparr>files = [''cfg'' \<mapsto> ''{}''], dfault = (\<lambda>_. None), ndisk = 0, tmpNames = (\<lambda>_. ''.rp-1.tmp''), partial = (\<lambda>_. 0)\<rparr>"

lemma oneDoc_readBack: "readBack (oneDoc d)"
  by (simp add: readBack_def oneDoc_def Let_def)

lemma exDisk_fresh: "p \<in> {''cfg'', ''other''} \<Longrightarrow> tmpFresh p exDisk"
  by (auto simp: tmpFresh_def exDisk_def)

lemmas disk_run_defs = atomicWrite_def replaceBy_def osMkdirAll_def osCreateTemp_def fileWrite_def fileClose_def
  osRename_def osRemove_def osReadFile_def osCall_def tryE_def bindE_def fromSum_def

lemma exMerge: "\<exists>s'. mergeJSONServer exCodecJson ''cfg'' ''mcp'' ''rp'' exEntry exDisk = (Some (Inr ()), s') \<and> dfault s' = (\<lambda>_. None)"
  by (simp add: mergeJSONServer_def disk_run_defs exDisk_def oneDoc_def Let_def rootOf_def writeRoot_def)


theorem json_merge_failure_keeps_file_witness:
  "files (snd (mergeJSONServer exCodecJson ''other'' ''mcp'' ''rp'' exEntry (exDisk\<lparr>files := [''other'' \<mapsto> ''[1]'']\<rparr>))) ''other'' = Some ''[1]''"
proof -
  let ?s = "exDisk\<lparr>files := [''other'' \<mapsto> ''[1]'']\<rparr>"
  obtain r s' where m: "mergeJSONServer exCodecJson ''other'' ''mcp'' ''rp'' exEntry ?s = (r, s')"
    by (cases "mergeJSONServer exCodecJson ''other'' ''mcp'' ''rp'' exEntry ?s")
  moreover have "r \<noteq> Some (Inr ())"
    using m by (auto simp: mergeJSONServer_def osReadFile_def osCall_def exDisk_def oneDoc_def Let_def rootOf_def)
  moreover have "tmpFresh ''other'' ?s" by (simp add: tmpFresh_def exDisk_def)
  ultimately have "files s' ''other'' = files ?s ''other''"
    using json_merge_failure_keeps_file [OF m] by blast
  then show ?thesis using m by simp
qed

end
