(* ===== verification/SetupRules.thy ===== *)
theory SetupRules
  imports Disk GoStrings
begin

text \<open>
  The managed block of guidance in an agent's instruction file, \<^verbatim>\<open>src/internal/setup/rules.go\<close>: its
  text, the merge into a file that may hold the user's own text, and the writers per agent.
\<close>

section \<open>The block\<close>

abbreviation nl :: string where
  "nl \<equiv> [CHR 0x0A]"

definition releaseResumeRuleBody :: string where
  "releaseResumeRuleBody = Join [
     ''## RuntimePulse: release-and-resume'',
     [],
     ''When you need to wait for a runtime condition (a service becoming healthy, a'',
     ''build finishing, a file appearing), do NOT poll, sleep, or block. Instead:'',
     [],
     ''1. Call the `create_rule` MCP tool with your own session id (pass agent +'',
     ''   repoPath to self-register; use oneShot:true for wake-me-once).'',
     ''2. If a watcher is needed, call `create_watch` AFTER the rule (a new watch'',
     ''   emits current state immediately, so the rule must already exist).'',
     ''3. End your turn. RuntimePulse resumes your session with the event as a new'',
     ''   prompt when the condition is met.'',
     [],
     ''Use `wait_for_event` only for conditions expected within seconds.''] nl"

definition ruleBeginMarker :: string where
  \<comment> \<open>with the UTF-8 encoding of the dash\<close>
  "ruleBeginMarker = ''<!-- runtimepulse:begin (managed '' @ [CHR 0xE2, CHR 0x80, CHR 0x94] @ '' do not edit inside) -->''"

definition ruleEndMarker :: string where
  "ruleEndMarker = ''<!-- runtimepulse:end -->''"

definition managedBlock :: string where
  "managedBlock = ruleBeginMarker @ nl @ TrimSpace releaseResumeRuleBody @ nl @ ruleEndMarker"

section \<open>The merge\<close>

definition TrimRightNL :: "string \<Rightarrow> string" where
  \<comment> \<open>\<open>strings.TrimRight(s, newline)\<close>\<close>
  "TrimRightNL s = rev (dropWhile (\<lambda>c. c = CHR 0x0A) (rev s))"

definition appendBlock :: "string \<Rightarrow> string" where
  "appendBlock content = TrimRightNL content @ nl @ nl @ managedBlock @ nl"

definition mergeContent :: "string option \<Rightarrow> (string \<times> string) option" where
  \<comment> \<open>the new content and the action, or \<open>None\<close> when nothing has to change; the file does not exist: \<open>None\<close>\<close>
  "mergeContent raw = (case raw of
     None \<Rightarrow> Some (managedBlock @ nl, ''written'')
   | Some content \<Rightarrow> (case (Index content ruleBeginMarker, Index content ruleEndMarker) of
       (Some b, Some e) \<Rightarrow>
         if b \<le> e then
           let rebuilt = take b content @ managedBlock @ drop (e + length ruleEndMarker) content in
           if rebuilt = content then None else Some (rebuilt, ''updated'')
         else Some (appendBlock content, ''appended'')
     | _ \<Rightarrow> Some (appendBlock content, ''appended'')))"

definition mergeMarkerBlock :: "string \<Rightarrow> bool \<Rightarrow> ('z dk, string) io" where
  "mergeMarkerBlock path dryRun =
     bindE (osReadFile path) (\<lambda>raw. case mergeContent raw of
       None \<Rightarrow> returnE ''unchanged''
     | Some (out, action) \<Rightarrow>
         if dryRun then returnE ''would-write''
         else bindE (atomicWrite path out) (\<lambda>_. returnE action))"

section \<open>The writers\<close>

record RuleResult =
  rr_Agent :: string
  rr_Action :: string
  rr_Path :: string
  rr_Manual :: bool
  rr_Text :: string
  rr_Err :: "error option"

datatype RuleWriter =
    FileRuleWriter string string
      \<comment> \<open>agent and path\<close>
  | ManualRuleWriter string

definition WriteRule :: "RuleWriter \<Rightarrow> bool \<Rightarrow> 'z dk \<Rightarrow> RuleResult \<times> 'z dk" where
  "WriteRule w dryRun s = (case w of
     FileRuleWriter agent path \<Rightarrow> (case mergeMarkerBlock path dryRun s of
       (Inl e, s') \<Rightarrow> (\<lparr>rr_Agent = agent, rr_Action = [], rr_Path = path, rr_Manual = False, rr_Text = [], rr_Err = Some e\<rparr>, s')
     | (Inr action, s') \<Rightarrow> (\<lparr>rr_Agent = agent, rr_Action = action, rr_Path = path, rr_Manual = False, rr_Text = [], rr_Err = None\<rparr>, s'))
   | ManualRuleWriter agent \<Rightarrow> (\<lparr>rr_Agent = agent, rr_Action = ''manual'', rr_Path = [], rr_Manual = True,
       rr_Text = TrimSpace releaseResumeRuleBody, rr_Err = None\<rparr>, s))"

definition ruleWriterFor :: "string \<Rightarrow> string \<Rightarrow> RuleWriter option" where
  \<comment> \<open>\<open>home\<close> is a clean path, so that \<open>filepath.Join\<close> only adds separators\<close>
  "ruleWriterFor name home =
     (if name = ''claude'' then Some (FileRuleWriter ''claude'' (home @ ''/.claude/CLAUDE.md''))
      else if name = ''codex'' then Some (FileRuleWriter ''codex'' (home @ ''/.codex/AGENTS.md''))
      else if name = ''opencode'' then Some (FileRuleWriter ''opencode'' (home @ ''/.config/opencode/AGENTS.md''))
      else if name = ''cursor'' then Some (ManualRuleWriter ''cursor'')
      else None)"

fun WriteRules :: "string list \<Rightarrow> string list \<Rightarrow> string \<Rightarrow> bool \<Rightarrow> 'z dk \<Rightarrow> RuleResult list \<times> 'z dk" where
  \<comment> \<open>\<open>agents\<close> are the names of the registered agents, in order\<close>
  "WriteRules [] names home dryRun s = ([], s)"
| "WriteRules (a # as) names home dryRun s =
     (if a \<notin> set names then WriteRules as names home dryRun s
      else (case ruleWriterFor a home of
        None \<Rightarrow> WriteRules as names home dryRun s
      | Some w \<Rightarrow> (case WriteRule w dryRun s of (r, s1) \<Rightarrow>
          (case WriteRules as names home dryRun s1 of (rs, s2) \<Rightarrow> (r # rs, s2)))))"

section \<open>Finding the block again\<close>

lemma Index_None_iff: "p \<noteq> [] \<Longrightarrow> Index s p = None \<longleftrightarrow> (\<forall>j. \<not> HasPrefix (drop j s) p)"
proof (induction s)
  case (Cons c cs)
  have "(\<forall>j. \<not> HasPrefix (drop j (c # cs)) p) \<longleftrightarrow> \<not> HasPrefix (c # cs) p \<and> (\<forall>j. \<not> HasPrefix (drop j cs) p)"
    by (metis drop0 drop_Suc_Cons not0_implies_Suc)
  with Cons show ?case by simp
qed (simp add: HasPrefix_def)

lemma Index_Some_iff:
  "p \<noteq> [] \<Longrightarrow> Index s p = Some i \<longleftrightarrow> HasPrefix (drop i s) p \<and> (\<forall>j<i. \<not> HasPrefix (drop j s) p)"
proof (induction s arbitrary: i)
  case (Cons c cs)
  then show ?case by (cases i) (auto simp: less_Suc_eq_0_disj)
qed (simp add: HasPrefix_def)

lemma HasPrefix_drop_cong:
  assumes "j + length p \<le> length u"
  shows "HasPrefix (drop j (u @ x)) p = HasPrefix (drop j u) p"
  using assms by (simp add: HasPrefix_def)

lemma HasPrefix_nth:
  assumes "HasPrefix (drop j s) p" and "k < length p"
  shows "j + k < length s" and "s ! (j + k) = p ! k"
proof -
  obtain t where t: "drop j s = p @ t" using assms(1) by (auto simp: HasPrefix_iff)
  then have "k < length (drop j s)" using assms(2) by simp
  then show "j + k < length s" by simp
  then show "s ! (j + k) = p ! k" using t assms(2) by (metis add_leD1 less_imp_le_nat nth_append nth_drop)
qed

definition blockText :: string where
  \<comment> \<open>the block up to the end marker\<close>
  "blockText = ruleBeginMarker @ nl @ TrimSpace releaseResumeRuleBody @ nl"

lemma managedBlock_split: "managedBlock = blockText @ ruleEndMarker"
  by (simp add: managedBlock_def blockText_def)

lemma marker_facts:
  "ruleBeginMarker \<noteq> []" "ruleEndMarker \<noteq> []" "ruleEndMarker ! 0 = CHR ''<''" "ruleBeginMarker ! 0 = CHR ''<''"
  "length ruleEndMarker \<le> length ruleBeginMarker" "length ruleBeginMarker \<le> length blockText"
  "CHR 0x0A \<notin> set ruleBeginMarker" "CHR 0x0A \<notin> set ruleEndMarker"
  by (simp_all add: ruleBeginMarker_def ruleEndMarker_def blockText_def)

lemma blockText_tail: "list_all (\<lambda>c. c \<noteq> CHR ''<'') (tl blockText)"
  by code_simp

lemma blockText_start: "take 23 blockText = ''<!-- runtimepulse:begin''"
  by (simp add: blockText_def ruleBeginMarker_def)

lemma no_end_in_blockText:
  assumes "k < length blockText"
  shows "\<not> HasPrefix (drop k (blockText @ x)) ruleEndMarker"
proof
  assume p: "HasPrefix (drop k (blockText @ x)) ruleEndMarker"
  show False
  proof (cases k)
    case 0
    have "(blockText @ x) ! 18 = ruleEndMarker ! 18" using HasPrefix_nth(2) [OF p, of 18] 0 by (simp add: ruleEndMarker_def)
    then show False by (simp add: blockText_def ruleBeginMarker_def ruleEndMarker_def)
  next
    case (Suc m)
    have "(blockText @ x) ! k = CHR ''<''" using HasPrefix_nth(2) [OF p, of 0] marker_facts by simp
    then have "tl blockText ! m = CHR ''<''" "m < length (tl blockText)" using assms Suc by (simp_all add: nth_append nth_tl)
    with blockText_tail show False by (auto simp: list_all_length)
  qed
qed

lemma block_found:
  assumes B: "\<And>j. j < length u \<Longrightarrow> \<not> HasPrefix (drop j (u @ ruleBeginMarker)) ruleBeginMarker"
    and E: "\<And>j. j < length u \<Longrightarrow> \<not> HasPrefix (drop j (u @ ruleBeginMarker)) ruleEndMarker"
  shows "mergeContent (Some (u @ managedBlock @ v)) = None"
proof -
  let ?s = "u @ managedBlock @ v"
  obtain x where x: "?s = (u @ ruleBeginMarker) @ x" by (simp add: managedBlock_def)
  have b: "Index ?s ruleBeginMarker = Some (length u)"
    unfolding Index_Some_iff [OF marker_facts(1)]
    using B HasPrefix_drop_cong [of _ ruleBeginMarker "u @ ruleBeginMarker" x] unfolding x by auto
  have e: "Index ?s ruleEndMarker = Some (length u + length blockText)"
    unfolding Index_Some_iff [OF marker_facts(2)]
  proof (intro conjI allI impI)
    show "HasPrefix (drop (length u + length blockText) ?s) ruleEndMarker" by (simp add: managedBlock_split)
  next
    fix j
    assume j: "j < length u + length blockText"
    show "\<not> HasPrefix (drop j ?s) ruleEndMarker"
    proof (cases "j < length u")
      case True
      then have "HasPrefix (drop j ?s) ruleEndMarker = HasPrefix (drop j (u @ ruleBeginMarker)) ruleEndMarker"
        unfolding x using marker_facts(5) by (intro HasPrefix_drop_cong) simp
      with E [OF True] show ?thesis by simp
    next
      case False
      then have "drop j ?s = drop (j - length u) (blockText @ ruleEndMarker @ v)" by (simp add: managedBlock_split)
      with no_end_in_blockText [of "j - length u" "ruleEndMarker @ v"] j False show ?thesis by auto
    qed
  qed
  have "drop (length u + length blockText + length ruleEndMarker) ?s = v" by (simp add: managedBlock_split)
  with b e show ?thesis by (simp add: mergeContent_def)
qed

section \<open>Idempotence\<close>

definition tidy :: "string option \<Rightarrow> bool" where
  \<comment> \<open>no stray marker: the file has no marker at all, or its first begin marker precedes its first end marker\<close>
  "tidy raw = (case raw of None \<Rightarrow> True
     | Some content \<Rightarrow> (case (Index content ruleBeginMarker, Index content ruleEndMarker) of
         (None, None) \<Rightarrow> True | (Some b, Some e) \<Rightarrow> b \<le> e | _ \<Rightarrow> False))"

definition around :: "string option \<Rightarrow> string \<times> string" where
  \<comment> \<open>what stands before and after the block once it is merged\<close>
  "around raw = (case raw of None \<Rightarrow> ([], nl)
     | Some content \<Rightarrow> (case (Index content ruleBeginMarker, Index content ruleEndMarker) of
         (Some b, Some e) \<Rightarrow> (take b content, drop (e + length ruleEndMarker) content)
       | _ \<Rightarrow> (TrimRightNL content @ nl @ nl, nl)))"

lemma no_marker_before_block:
  assumes none: "\<And>j. \<not> HasPrefix (drop j (t @ w)) m" and m: "CHR 0x0A \<notin> set m" "m \<noteq> []"
    and j: "j < length (t @ nl @ nl)"
  shows "\<not> HasPrefix (drop j ((t @ nl @ nl) @ x)) m"
proof
  assume p: "HasPrefix (drop j ((t @ nl @ nl) @ x)) m"
  show False
  proof (cases "j + length m \<le> length t")
    case True
    then have "HasPrefix (drop j (t @ w)) m = HasPrefix (drop j ((t @ nl @ nl) @ x)) m"
      using HasPrefix_drop_cong [of j m t w] HasPrefix_drop_cong [of j m t "nl @ nl @ x"] by simp
    with p none show False by blast
  next
    case False
    define k where "k = (if j \<le> length t then length t - j else 0)"
    have k: "k < length m" "((t @ nl @ nl) @ x) ! (j + k) = CHR 0x0A"
      using False j m(2) by (auto simp: k_def nth_append less_Suc_eq)
    from HasPrefix_nth(2) [OF p k(1)] k have "m ! k = CHR 0x0A" by simp
    with k(1) m(1) show False by (metis nth_mem)
  qed
qed

lemma TrimRightNL_prefix: "\<exists>w. content = TrimRightNL content @ w"
proof -
  have "rev content = takeWhile (\<lambda>c. c = CHR 0x0A) (rev content) @ rev (TrimRightNL content)"
    by (simp add: TrimRightNL_def)
  then have "content = TrimRightNL content @ rev (takeWhile (\<lambda>c. c = CHR 0x0A) (rev content))"
    by (metis rev_append rev_rev_ident)
  then show ?thesis by blast
qed

lemma merge_tidy_again:
  assumes "tidy raw" and "around raw = (u, v)"
  shows "mergeContent (Some (u @ managedBlock @ v)) = None"
proof (rule block_found)
  note none = Index_None_iff [OF marker_facts(1)] Index_None_iff [OF marker_facts(2)]
  have *: "\<not> HasPrefix (drop j (u @ ruleBeginMarker)) ruleBeginMarker \<and> \<not> HasPrefix (drop j (u @ ruleBeginMarker)) ruleEndMarker"
    if j: "j < length u" for j
  proof (cases raw)
    case None
    with assms j show ?thesis by (simp add: around_def)
  next
    case (Some content)
    show ?thesis
    proof (cases "Index content ruleBeginMarker")
      case None
      with Some assms have e: "Index content ruleEndMarker = None" and u: "u = TrimRightNL content @ nl @ nl"
        by (auto simp: tidy_def around_def split: option.splits)
      obtain w where "content = TrimRightNL content @ w" using TrimRightNL_prefix by blast
      with None e none have n: "\<And>j. \<not> HasPrefix (drop j (TrimRightNL content @ w)) ruleBeginMarker"
        "\<And>j. \<not> HasPrefix (drop j (TrimRightNL content @ w)) ruleEndMarker" by metis+
      show ?thesis
        unfolding u
        using no_marker_before_block [OF n(1) marker_facts(7,1), of j ruleBeginMarker]
          no_marker_before_block [OF n(2) marker_facts(8,2), of j ruleBeginMarker] j u by blast
    next
      case (Some b)
      with \<open>raw = Some content\<close> assms obtain e where e: "Index content ruleEndMarker = Some e" "b \<le> e" and u: "u = take b content"
        by (auto simp: tidy_def around_def split: option.splits)
      from Index_Some [OF Some] have c: "content = (u @ ruleBeginMarker) @ drop (b + length ruleBeginMarker) content"
        and len: "length u = b"
        by (simp_all add: u)
      have "HasPrefix (drop j content) m = HasPrefix (drop j (u @ ruleBeginMarker)) m" if "length m \<le> length ruleBeginMarker" for m
        by (subst c, rule HasPrefix_drop_cong) (use j that in simp)
      from this [of ruleBeginMarker] this [of ruleEndMarker] Some e j len marker_facts(5) show ?thesis
        unfolding Index_Some_iff [OF marker_facts(1)] Index_Some_iff [OF marker_facts(2)] by auto
    qed
  qed
  show "\<And>j. j < length u \<Longrightarrow> \<not> HasPrefix (drop j (u @ ruleBeginMarker)) ruleBeginMarker"
    and "\<And>j. j < length u \<Longrightarrow> \<not> HasPrefix (drop j (u @ ruleBeginMarker)) ruleEndMarker"
    using * by blast+
qed

lemma mergeContent_tidy:
  assumes "tidy raw" and "around raw = (u, v)"
  shows "case mergeContent raw of None \<Rightarrow> raw = Some (u @ managedBlock @ v) | Some (out, _) \<Rightarrow> out = u @ managedBlock @ v"
  using assms
  by (auto simp: mergeContent_def tidy_def around_def appendBlock_def Let_def split: option.splits if_splits)

lemma diskFrame_WriteRules:
  assumes "diskFrame I" and "I s"
  shows "I (snd (WriteRules agents names home dryRun s))"
  using assms(2)
proof (induction agents arbitrary: s)
  case (Cons a as)
  have m: "preserves I (mergeMarkerBlock p dryRun)" for p
    unfolding mergeMarkerBlock_def
    by (intro preserves_bind diskFrame_calls [OF assms(1)])
      (auto split: option.split intro!: preserves_bind diskFrame_atomicWrite [OF assms(1)])
  have "I (snd (WriteRule w dryRun s))" for w
    using m Cons.prems by (auto simp: WriteRule_def preserves_def split: RuleWriter.splits sum.splits prod.splits) (metis snd_conv)+
  with Cons show ?case by (auto split: option.splits prod.splits) (metis snd_conv)+
qed simp

text \<open>
  (C38) Installing the guidance keeps the user's text and is idempotent. For a file without stray markers, absent,
  without a block or with one, a successful run leaves the block surrounded by exactly the text that was around it (or
  after the user's text when there was no block); running it again changes no file and reports \<open>unchanged\<close>.
\<close>

theorem marker_block_idempotent:
  assumes run: "mergeMarkerBlock path False s = (Inr action, s1)" and fresh: "tmpFresh path s"
    and tidy: "tidy (files s path)" and readable: "dfault s1 (ndisk s1) = None"
  shows "files s1 = (files s)(path \<mapsto> fst (around (files s path)) @ managedBlock @ snd (around (files s path))) \<and>
    (\<exists>s2. mergeMarkerBlock path dryRun s1 = (Inr ''unchanged'', s2) \<and> files s2 = files s1)"
proof -
  obtain u v where uv: "around (files s path) = (u, v)" by (cases "around (files s path)")
  note M = mergeContent_tidy [OF tidy uv]
  let ?s = "s\<lparr>ndisk := Suc (ndisk s)\<rparr>"
  have rd: "osReadFile path s = (Inr (files s path), ?s)"
    using run by (cases rule: osReadFile_run [of path s]) (auto simp: mergeMarkerBlock_def)
  have f: "tmpFresh path ?s" using fresh by (simp add: tmpFresh_def)
  have "files s1 = (files s)(path \<mapsto> u @ managedBlock @ v)"
  proof (cases "mergeContent (files s path)")
    case None
    with run rd M show ?thesis by (auto simp: mergeMarkerBlock_def fun_upd_idem)
  next
    case (Some oa)
    obtain out a where "oa = (out, a)" by (cases oa)
    with Some run rd have "atomicWrite path out ?s = (Inr (), s1)" by (auto simp: mergeMarkerBlock_def bindE_Inr_iff)
    from atomicWrite_effect [OF this f] Some M \<open>oa = (out, a)\<close> show ?thesis by simp
  qed
  moreover from this have "osReadFile path s1 = (Inr (Some (u @ managedBlock @ v)), s1\<lparr>ndisk := Suc (ndisk s1)\<rparr>)"
    using readable by (simp add: osReadFile_def osCall_def)
  ultimately show ?thesis
    using merge_tidy_again [OF tidy uv] uv by (simp add: mergeMarkerBlock_def)
qed

definition reportsWrite :: "RuleResult \<Rightarrow> bool" where
  "reportsWrite r \<longleftrightarrow> rr_Action r \<in> {''written'', ''updated'', ''appended''}"

lemma mergeMarkerBlock_dry:
  obtains (failed) e s1 where "mergeMarkerBlock path True s = (Inl e, s1)" "files s1 = files s"
  | (kept) s1 where "mergeMarkerBlock path True s = (Inr ''unchanged'', s1)" "files s1 = files s"
  | (would) s1 where "mergeMarkerBlock path True s = (Inr ''would-write'', s1)" "files s1 = files s"
  by (cases rule: osReadFile_run [of path s]; cases "mergeContent (files s path)")
    (simp_all add: mergeMarkerBlock_def split_beta)

lemma WriteRule_dry:
  assumes "WriteRule w True s = (r, s1)"
  shows "files s1 = files s \<and> \<not> reportsWrite r"
proof (cases w)
  case (FileRuleWriter a p)
  with assms show ?thesis
    by (cases rule: mergeMarkerBlock_dry [of p s]) (auto simp: WriteRule_def reportsWrite_def)
next
  case (ManualRuleWriter a)
  with assms show ?thesis by (auto simp: WriteRule_def reportsWrite_def)
qed

lemma WriteRules_dry:
  "files (snd (WriteRules agents names home True s)) = files s \<and>
   \<not> list_ex reportsWrite (fst (WriteRules agents names home True s))"
proof (induction agents arbitrary: s)
  case (Cons a as)
  show ?case
  proof (cases "a \<in> set names \<and> ruleWriterFor a home \<noteq> None")
    case True
    then obtain w where "ruleWriterFor a home = Some w" by auto
    moreover obtain r s1 where "WriteRule w True s = (r, s1)" by (cases "WriteRule w True s")
    ultimately show ?thesis using True Cons [of s1] WriteRule_dry [of w s r s1] by (simp add: split_beta)
  qed (use Cons in \<open>auto split: option.splits\<close>)
qed simp

text \<open>
  A dry run writes nothing: whatever the agents, names and files, and whichever calls fail, no file
  changes, and no result reports a write.
\<close>

theorem rules_dry_run_writes_nothing:
  "files (snd (WriteRules agents names home True s)) = files s \<and>
   \<not> list_ex reportsWrite (fst (WriteRules agents names home True s))"
  by (rule WriteRules_dry)

text \<open>
  A stray end marker defeats the merge. When a file holds an end marker before any begin marker, every run
  appends another copy of the block: the run is not idempotent and the file grows each time.
\<close>

theorem stray_end_marker_grows:
  "\<exists>content out1 out2. mergeContent (Some content) = Some (out1, ''appended'') \<and>
     mergeContent (Some out1) = Some (out2, ''appended'') \<and> length out2 > length out1"
proof -
  let ?c = "ruleEndMarker" and ?o = "ruleEndMarker @ nl @ nl @ managedBlock @ nl"
  have t: "TrimRightNL ruleEndMarker = ruleEndMarker" "TrimRightNL ?o = ruleEndMarker @ nl @ nl @ managedBlock"
    by (simp_all add: TrimRightNL_def ruleEndMarker_def managedBlock_def)
  have b0: "Index ?c ruleBeginMarker = None" by code_simp
  have e: "Index ?o ruleEndMarker = Some 0" by (simp add: Index_Some_iff [OF marker_facts(2)])
  have "mergeContent (Some ?c) = Some (?o, ''appended'')"
    using b0 t(1) by (simp add: mergeContent_def appendBlock_def)
  moreover have "\<not> HasPrefix ?o ruleBeginMarker"
    by (simp add: HasPrefix_def ruleEndMarker_def ruleBeginMarker_def)
  then have "Index ?o ruleBeginMarker \<noteq> Some 0" by (simp add: Index_Some_iff [OF marker_facts(1)])
  with e have "mergeContent (Some ?o) = Some (appendBlock ?o, ''appended'')"
    by (auto simp: mergeContent_def split: option.splits)
  moreover have "length (appendBlock ?o) > length ?o"
    unfolding appendBlock_def t(2) by (simp add: managedBlock_split marker_facts(2))
  ultimately show ?thesis by blast
qed

theorem marker_block_idempotent_witness:
  "\<exists>s1 s2. mergeMarkerBlock ''f'' False \<lparr>files = [''f'' \<mapsto> ''mine''], dfault = (\<lambda>_. None), ndisk = 0, tmpNames = (\<lambda>_. ''t''), partial = (\<lambda>_. 0)\<rparr> =
       (Inr ''appended'', s1) \<and> mergeMarkerBlock ''f'' False s1 = (Inr ''unchanged'', s2) \<and> files s2 = files s1"
proof -
  let ?s = "\<lparr>files = [''f'' \<mapsto> ''mine''], dfault = (\<lambda>_. None), ndisk = 0, tmpNames = (\<lambda>_. ''t''), partial = (\<lambda>_. 0)\<rparr> :: disk"
  have i: "Index ''mine'' ruleBeginMarker = None" "Index ''mine'' ruleEndMarker = None" by code_simp+
  then have m: "mergeContent (Some ''mine'') = Some (appendBlock ''mine'', ''appended'')" by (simp add: mergeContent_def)
  obtain s1 where r: "mergeMarkerBlock ''f'' False ?s = (Inr ''appended'', s1)" "dfault s1 = (\<lambda>_. None)"
    by (simp add: mergeMarkerBlock_def m atomicWrite_def replaceBy_def osMkdirAll_def osCreateTemp_def fileWrite_def
        fileClose_def osRename_def osRemove_def osReadFile_def osCall_def tryE_def bindE_def fromSum_def)
  have "tmpFresh ''f'' ?s" "tidy (files ?s ''f'')" "dfault s1 (ndisk s1) = None"
    using i r(2) by (simp_all add: tidy_def tmpFresh_def)
  from conjunct2 [OF marker_block_idempotent [OF r(1) this, of False]] r(1) show ?thesis by blast
qed

end
