(* ===== verification/Setup.thy ===== *)
theory Setup
  imports SetupJson SetupRules
begin

text \<open>
  The setup wizard: the agents it registers with (\<^verbatim>\<open>src/internal/setup/setup.go\<close>, \<^verbatim>\<open>native.go\<close>,
  \<^verbatim>\<open>file.go\<close>) and the command line around it (\<^verbatim>\<open>src/cmd/runtimepulse/cmd_setup.go\<close>).

  The world is the file system plus what the wizard asks of the machine: which programs are on the path, the
  answers of the agents' own command lines (an arbitrary answer per command) and the lines typed at the prompts. Printing is left
  out, except for the rendering of the rule results, which is a pure function.
\<close>

section \<open>The world of the wizard\<close>

record world = disk +
  onPath :: "string \<Rightarrow> bool"
  cliAnswer :: "nat \<Rightarrow> string \<Rightarrow> string list \<Rightarrow> string \<times> error option"
  ncli :: nat
  cliLog :: "(string \<times> string list) list"
  stdin :: "(string \<times> error option) list"
    \<comment> \<open>the lines still to be read, with the error of the read\<close>

type_synonym 'z sw = "'z world_scheme"

definition execQuery :: "string \<Rightarrow> string list \<Rightarrow> 'z sw \<Rightarrow> (string \<times> error option) \<times> 'z sw" where
  "execQuery name args s = (cliAnswer s (ncli s) name args, s\<lparr>ncli := Suc (ncli s), cliLog := cliLog s @ [(name, args)]\<rparr>)"

definition execRun :: "string \<Rightarrow> string list \<Rightarrow> 'z sw \<Rightarrow> error option \<times> 'z sw" where
  "execRun name args s = (case execQuery name args s of
     ((out, None), s1) \<Rightarrow> (None, s1)
   | ((out, Some e), s1) \<Rightarrow>
       (let msg = TrimSpace out in
        if msg = [] then Some e else Some (GoError (Error e @ '': '' @ msg)), s1))"

definition tolerateExists :: "error option \<Rightarrow> error option" where
  "tolerateExists err = (case err of
     Some e \<Rightarrow> if Contains (ToLower (Error e)) ''already exists'' then None else Some e
   | None \<Rightarrow> None)"

section \<open>Agents\<close>

datatype Scope = ScopeUser | ScopeProject

fun ScopeString :: "Scope \<Rightarrow> string" where
  "ScopeString ScopeProject = ''project''"
| "ScopeString ScopeUser = ''user''"

record Status =
  sa_Installed :: bool
  sa_Registered :: bool
  sa_Detail :: string

datatype Agent =
    claudeAgent
  | cursorAgent string string
      \<comment> \<open>home and working directory, clean paths\<close>
  | codexAgent
  | openCodeAgent string string

fun AgentName :: "Agent \<Rightarrow> string" where
  "AgentName claudeAgent = ''claude''"
| "AgentName (cursorAgent home cwd) = ''cursor''"
| "AgentName codexAgent = ''codex''"
| "AgentName (openCodeAgent home cwd) = ''opencode''"

fun SupportsScope :: "Agent \<Rightarrow> Scope \<Rightarrow> bool" where
  "SupportsScope codexAgent scope = (scope = ScopeUser)"
| "SupportsScope _ scope = True"

definition claudeInstalled :: "'z sw \<Rightarrow> bool" where
  [simp]: "claudeInstalled s = onPath s ''claude''"

definition codexInstalled :: "'z sw \<Rightarrow> bool" where
  [simp]: "codexInstalled s = onPath s ''codex''"

definition cursorInstalled :: "'z sw \<Rightarrow> bool" where
  [simp]: "cursorInstalled s = (if onPath s ''agent'' then True else onPath s ''cursor-agent'')"

definition openCodeInstalled :: "'z sw \<Rightarrow> bool" where
  [simp]: "openCodeInstalled s = onPath s ''opencode''"

fun isInstalled :: "Agent \<Rightarrow> 'z sw \<Rightarrow> bool" where
  "isInstalled claudeAgent s = claudeInstalled s"
| "isInstalled (cursorAgent home cwd) s = cursorInstalled s"
| "isInstalled codexAgent s = codexInstalled s"
| "isInstalled (openCodeAgent home cwd) s = openCodeInstalled s"

definition cursorPath :: "string \<Rightarrow> string \<Rightarrow> Scope \<Rightarrow> string" where
  "cursorPath home cwd scope = (if scope = ScopeProject then cwd @ ''/.cursor/mcp.json'' else home @ ''/.cursor/mcp.json'')"

definition openCodePath :: "string \<Rightarrow> string \<Rightarrow> Scope \<Rightarrow> string" where
  "openCodePath home cwd scope =
     (if scope = ScopeProject then cwd @ ''/opencode.json'' else home @ ''/.config/opencode/opencode.json'')"

definition claudeStatus :: "'z sw \<Rightarrow> Status \<times> 'z sw" where
  "claudeStatus s =
     (if \<not> claudeInstalled s then (\<lparr>sa_Installed = False, sa_Registered = False, sa_Detail = []\<rparr>, s)
      else (case execQuery ''claude'' [''mcp'', ''list''] s of
        ((out, err), s1) \<Rightarrow> (\<lparr>sa_Installed = True, sa_Registered = (err = None \<and> Contains out ''runtimepulse''), sa_Detail = []\<rparr>, s1)))"

definition codexStatus :: "'z sw \<Rightarrow> Status \<times> 'z sw" where
  "codexStatus s =
     (if \<not> codexInstalled s then (\<lparr>sa_Installed = False, sa_Registered = False, sa_Detail = []\<rparr>, s)
      else (case execQuery ''codex'' [''mcp'', ''list''] s of
        ((out, err), s1) \<Rightarrow> (\<lparr>sa_Installed = True, sa_Registered = (err = None \<and> Contains out ''runtimepulse''), sa_Detail = []\<rparr>, s1)))"

definition nativeStatus :: "string \<Rightarrow> 'z sw \<Rightarrow> Status \<times> 'z sw" where
  \<comment> \<open>what the two have in common\<close>
  "nativeStatus bin s =
     (if \<not> onPath s bin then (\<lparr>sa_Installed = False, sa_Registered = False, sa_Detail = []\<rparr>, s)
      else (case execQuery bin [''mcp'', ''list''] s of
        ((out, err), s1) \<Rightarrow> (\<lparr>sa_Installed = True, sa_Registered = (err = None \<and> Contains out ''runtimepulse''), sa_Detail = []\<rparr>, s1)))"

definition fileStatus :: "jcodec \<Rightarrow> bool \<Rightarrow> string \<Rightarrow> string \<Rightarrow> 'z sw \<Rightarrow> Status \<times> 'z sw" where
  "fileStatus cd inst path sec s = (case hasJSONServer cd path sec ''runtimepulse'' s of
     (b, s1) \<Rightarrow> (\<lparr>sa_Installed = inst, sa_Registered = b, sa_Detail = []\<rparr>, s1))"

lemma native_status [simp]: "claudeStatus = nativeStatus ''claude''" "codexStatus = nativeStatus ''codex''"
  by (simp_all add: fun_eq_iff claudeStatus_def codexStatus_def nativeStatus_def)

definition cursorStatus :: "jcodec \<Rightarrow> string \<Rightarrow> string \<Rightarrow> Scope \<Rightarrow> 'z sw \<Rightarrow> Status \<times> 'z sw" where
  [simp]: "cursorStatus cd home cwd scope s = fileStatus cd (cursorInstalled s) (cursorPath home cwd scope) ''mcpServers'' s"

definition openCodeStatus :: "jcodec \<Rightarrow> string \<Rightarrow> string \<Rightarrow> Scope \<Rightarrow> 'z sw \<Rightarrow> Status \<times> 'z sw" where
  [simp]: "openCodeStatus cd home cwd scope s = fileStatus cd (openCodeInstalled s) (openCodePath home cwd scope) ''mcp'' s"

fun AgentStatus :: "jcodec \<Rightarrow> Agent \<Rightarrow> Scope \<Rightarrow> 'z sw \<Rightarrow> Status \<times> 'z sw" where
  "AgentStatus cd claudeAgent scope s = claudeStatus s"
| "AgentStatus cd codexAgent scope s = codexStatus s"
| "AgentStatus cd (cursorAgent home cwd) scope s = cursorStatus cd home cwd scope s"
| "AgentStatus cd (openCodeAgent home cwd) scope s = openCodeStatus cd home cwd scope s"

definition nativeRegister :: "string \<Rightarrow> string list \<Rightarrow> ('z sw, unit) go" where
  "nativeRegister bin args s = (case execRun bin args s of
     (e, s1) \<Rightarrow> (Some (case tolerateExists e of None \<Rightarrow> Inr () | Some e \<Rightarrow> Inl e), s1))"

definition claudeRegister :: "string \<Rightarrow> Scope \<Rightarrow> ('z sw, unit) go" where
  [simp]: "claudeRegister binPath scope = nativeRegister ''claude''
     [''mcp'', ''add'', ''--transport'', ''stdio'', ''--scope'', if scope = ScopeProject then ''project'' else ''user'',
      ''runtimepulse'', ''--'', binPath, ''mcp'']"

definition codexRegister :: "string \<Rightarrow> ('z sw, unit) go" where
  [simp]: "codexRegister binPath = nativeRegister ''codex'' [''mcp'', ''add'', ''runtimepulse'', ''--'', binPath, ''mcp'']"

definition cursorRegister :: "jcodec \<Rightarrow> string \<Rightarrow> string \<Rightarrow> string \<Rightarrow> Scope \<Rightarrow> ('z sw, unit) go" where
  [simp]: "cursorRegister cd home cwd binPath scope =
     mergeJSONServer cd (cursorPath home cwd scope) ''mcpServers'' ''runtimepulse''
       (JObject [''command'' \<mapsto> JString binPath, ''args'' \<mapsto> JArray [JString ''mcp'']])"

definition openCodeRegister :: "jcodec \<Rightarrow> string \<Rightarrow> string \<Rightarrow> string \<Rightarrow> Scope \<Rightarrow> ('z sw, unit) go" where
  [simp]: "openCodeRegister cd home cwd binPath scope =
     mergeJSONServer cd (openCodePath home cwd scope) ''mcp'' ''runtimepulse''
       (JObject [''type'' \<mapsto> JString ''local'', ''command'' \<mapsto> JArray [JString binPath, JString ''mcp''], ''enabled'' \<mapsto> JBool True])"

fun Register :: "jcodec \<Rightarrow> Agent \<Rightarrow> string \<Rightarrow> Scope \<Rightarrow> ('z sw, unit) go" where
  "Register cd claudeAgent binPath scope = claudeRegister binPath scope"
| "Register cd codexAgent binPath scope = codexRegister binPath"
| "Register cd (cursorAgent home cwd) binPath scope = cursorRegister cd home cwd binPath scope"
| "Register cd (openCodeAgent home cwd) binPath scope = openCodeRegister cd home cwd binPath scope"

section \<open>Running the registration\<close>

record Result =
  res_Agent :: string
  res_OK :: bool
  res_Skipped :: bool
  res_Note :: string
  res_Err :: "error option"

definition Registry :: "string \<Rightarrow> string \<Rightarrow> Agent list" where
  "Registry home cwd = [claudeAgent, cursorAgent home cwd, codexAgent, openCodeAgent home cwd]"

fun DetectAll :: "jcodec \<Rightarrow> Agent list \<Rightarrow> Scope \<Rightarrow> 'z sw \<Rightarrow> (Agent \<times> Status) list \<times> 'z sw" where
  "DetectAll cd [] scope s = ([], s)"
| "DetectAll cd (a # as) scope s = (case AgentStatus cd a scope s of
     (st, s1) \<Rightarrow> (case DetectAll cd as scope s1 of (sts, s2) \<Rightarrow> ((a, st) # sts, s2)))"

definition runOne :: "jcodec \<Rightarrow> Agent \<Rightarrow> string \<Rightarrow> Scope \<Rightarrow> 'z sw \<Rightarrow> Result option \<times> 'z sw" where
  \<comment> \<open>one selected agent; \<open>None\<close>: its registration panicked\<close>
  "runOne cd a binPath scope s =
     (let res = \<lparr>res_Agent = AgentName a, res_OK = False, res_Skipped = False, res_Note = [], res_Err = None\<rparr> in
      case AgentStatus cd a scope s of (st, s1) \<Rightarrow>
        if \<not> sa_Installed st then (Some (res\<lparr>res_Err := Some (GoError (AgentName a @ '' CLI not found on PATH''))\<rparr>), s1)
        else if sa_Registered st then (Some (res\<lparr>res_OK := True, res_Skipped := True\<rparr>), s1)
        else
          let useScope = (if SupportsScope a scope then scope else ScopeUser);
              res = (if SupportsScope a scope then res else res\<lparr>res_Note :=
                AgentName a @ '': '' @ ScopeString scope @ '' scope unsupported, registered at user scope''\<rparr>) in
          (case Register cd a binPath useScope s1 of
             (None, s2) \<Rightarrow> (None, s2)
           | (Some (Inl e), s2) \<Rightarrow> (Some (res\<lparr>res_Err := Some e\<rparr>), s2)
           | (Some (Inr _), s2) \<Rightarrow> (Some (res\<lparr>res_OK := True\<rparr>), s2)))"

fun Run :: "jcodec \<Rightarrow> Agent list \<Rightarrow> string list \<Rightarrow> string \<Rightarrow> Scope \<Rightarrow> 'z sw \<Rightarrow> Result list option \<times> 'z sw" where
  "Run cd [] names binPath scope s = (Some [], s)"
| "Run cd (a # as) names binPath scope s =
     (if AgentName a \<notin> set names then Run cd as names binPath scope s
      else (case runOne cd a binPath scope s of
        (None, s1) \<Rightarrow> (None, s1)
      | (Some r, s1) \<Rightarrow> (case Run cd as names binPath scope s1 of
          (None, s2) \<Rightarrow> (None, s2)
        | (Some rs, s2) \<Rightarrow> (Some (r # rs), s2))))"

section \<open>Reporting\<close>

text \<open>
  Agents are registered independently. Unless a registration panics, the results are exactly the
  selected agents in the registry's order, whatever fails; each result is either a success or carries an
  error, and only a success is reported as skipped.
\<close>

theorem setup_reports_each_agent:
  assumes "Run cd agents names binPath scope s = (Some rs, s')"
  shows "map res_Agent rs = filter (\<lambda>n. n \<in> set names) (map AgentName agents) \<and>
    list_all (\<lambda>r. (res_OK r \<longleftrightarrow> res_Err r = None) \<and> (res_Skipped r \<longrightarrow> res_OK r)) rs"
  using assms
proof (induction agents arbitrary: s rs)
  case (Cons a as)
  have one: "res_Agent r = AgentName a \<and> (res_OK r \<longleftrightarrow> res_Err r = None) \<and> (res_Skipped r \<longrightarrow> res_OK r)"
    if "runOne cd a binPath scope s = (Some r, s1)" for r s1
    using that by (auto simp: runOne_def Let_def split: prod.splits if_splits option.splits sum.splits)
  from Cons.prems Cons.IH show ?case
    by (auto split: if_splits prod.splits option.splits dest!: one)
qed simp

section \<open>Registering twice\<close>

fun configPath :: "Agent \<Rightarrow> Scope \<Rightarrow> string option" where
  \<comment> \<open>the configuration file of the agents that have one\<close>
  "configPath (cursorAgent home cwd) scope = Some (cursorPath home cwd scope)"
| "configPath (openCodeAgent home cwd) scope = Some (openCodePath home cwd scope)"
| "configPath _ scope = None"

lemma hasJSONServer_frame:
  "hasJSONServer cd path sec name s = (b, s1) \<Longrightarrow> s1 = s\<lparr>ndisk := Suc (ndisk s)\<rparr>"
  by (cases rule: osReadFile_run [of path s]) (auto simp: hasJSONServer_def split: option.splits)

lemma hasJSONServer_again:
  assumes "hasJSONServer cd path sec name s = (True, s1)" and "dfault s1 (ndisk s1) = None"
  shows "fst (hasJSONServer cd path sec name s1)"
proof -
  have s1: "s1 = s\<lparr>ndisk := Suc (ndisk s)\<rparr>" using assms(1) by (rule hasJSONServer_frame)
  have "osReadFile path s1 = (Inr (files s path), s1\<lparr>ndisk := Suc (ndisk s1)\<rparr>)"
    using assms(2) by (simp add: s1 osReadFile_def osCall_def)
  with assms(1) show ?thesis
    by (cases rule: osReadFile_run [of path s]) (auto simp: hasJSONServer_def split: option.splits)
qed

fun configSection :: "Agent \<Rightarrow> string" where
  "configSection (openCodeAgent home cwd) = ''mcp''"
| "configSection _ = ''mcpServers''"

fun configEntry :: "Agent \<Rightarrow> string \<Rightarrow> json" where
  "configEntry (openCodeAgent home cwd) bin =
     JObject [''type'' \<mapsto> JString ''local'', ''command'' \<mapsto> JArray [JString bin, JString ''mcp''], ''enabled'' \<mapsto> JBool True]"
| "configEntry _ bin = JObject [''command'' \<mapsto> JString bin, ''args'' \<mapsto> JArray [JString ''mcp'']]"

lemma fileAgent_runs:
  assumes "configPath a scope = Some path"
  shows "AgentStatus cd a scope s = fileStatus cd (isInstalled a s) path (configSection a) s"
    and "Register cd a binPath scope = mergeJSONServer cd path (configSection a) ''runtimepulse'' (configEntry a binPath)"
    and "SupportsScope a scope"
  using assms by (cases a; simp)+

lemma isInstalled_frame [simp]:
  "isInstalled a (s\<lparr>ndisk := n\<rparr>) = isInstalled a s" "isInstalled a (s\<lparr>files := f\<rparr>) = isInstalled a s"
  by (cases a; simp)+

lemma mergeJSONServer_onPath:
  assumes "mergeJSONServer cd path sec name entry s = (r, s1)" and "isInstalled a s"
  shows "isInstalled a s1"
  using assms by (rule mergeJSONServer_frame [where I = "isInstalled a", rotated]) (simp add: diskFrame_def)

text \<open>
  The wizard can be run again. When an agent with a configuration file was registered successfully, and the
  file can be read the next time, a second run finds it registered, skips it and changes no file.
\<close>

theorem setup_second_run_skips:
  fixes s :: "'z sw"
  assumes run: "runOne cd a binPath scope s = (Some r, s1)" and ok: "res_OK r"
    and path: "configPath a scope = Some path" and fresh: "tmpFresh path s" and codec: "readBack cd"
    and readable: "dfault s1 (ndisk s1) = None"
  shows "\<exists>r2 s2. runOne cd a binPath' scope s1 = (Some r2, s2) \<and> res_OK r2 \<and> res_Skipped r2 \<and> files s2 = files s1"
proof -
  note A = fileAgent_runs [OF path]
  let ?sec = "configSection a"
  obtain b where h: "hasJSONServer cd path ?sec ''runtimepulse'' s = (b, s\<lparr>ndisk := Suc (ndisk s)\<rparr>)"
    using hasJSONServer_frame by (metis surj_pair)
  have inst: "isInstalled a s" using run ok h by (auto simp: runOne_def Let_def A fileStatus_def split: if_splits)
  have "isInstalled a s1 \<and> fst (hasJSONServer cd path ?sec ''runtimepulse'' s1)"
  proof (cases b)
    case True
    with run h inst have "s1 = s\<lparr>ndisk := Suc (ndisk s)\<rparr>" by (auto simp: runOne_def Let_def A fileStatus_def)
    with hasJSONServer_again [of cd path ?sec "''runtimepulse''" s s1] True h readable inst show ?thesis by simp
  next
    case False
    with run ok h inst A(3) have m: "mergeJSONServer cd path ?sec ''runtimepulse'' (configEntry a binPath) (s\<lparr>ndisk := Suc (ndisk s)\<rparr>) = (Some (Inr ()), s1)"
      by (auto simp: runOne_def Let_def A fileStatus_def split: prod.splits option.splits sum.splits)
    have f: "tmpFresh path (s\<lparr>ndisk := Suc (ndisk s)\<rparr>)" using fresh by (simp add: tmpFresh_def)
    from merge_then_has [OF m f codec readable] mergeJSONServer_onPath [OF m, of a] inst show ?thesis by auto
  qed
  moreover obtain b2 where "hasJSONServer cd path ?sec ''runtimepulse'' s1 = (b2, s1\<lparr>ndisk := Suc (ndisk s1)\<rparr>)"
    using hasJSONServer_frame by (metis surj_pair)
  ultimately show ?thesis by (simp add: runOne_def Let_def A fileStatus_def)
qed

section \<open>A concrete machine\<close>

definition exWorld :: world where
  \<comment> \<open>cursor and codex are installed; \<open>codex mcp add\<close> fails\<close>
  "exWorld = \<lparr>files = Map.empty, dfault = (\<lambda>_. None), ndisk = 0, tmpNames = (\<lambda>_. ''t''), partial = (\<lambda>_. 0),
     onPath = (\<lambda>p. p \<in> {''agent'', ''codex''}),
     cliAnswer = (\<lambda>_ _ args. if ''add'' \<in> set args then (''denied'', Some (GoError ''exit status 1'')) else ([], None)),
     ncli = 0, cliLog = [], stdin = []\<rparr>"

definition exJson :: jcodec where
  "exJson = oneDoc (mergeRoot ''mcpServers'' ''runtimepulse'' (configEntry (cursorAgent ''h'' ''c'') ''rp'') Map.empty)"

lemma exRunOne: "\<exists>r s1. runOne exJson (cursorAgent ''h'' ''c'') ''rp'' ScopeUser exWorld = (Some r, s1) \<and> res_OK r \<and> dfault s1 = (\<lambda>_. None)"
  by (simp add: runOne_def Let_def fileStatus_def hasJSONServer_def mergeJSONServer_def disk_run_defs exWorld_def exJson_def
      oneDoc_def rootOf_def writeRoot_def cursorPath_def)

theorem setup_second_run_skips_witness:
  "\<exists>r s1 r2 s2. runOne exJson (cursorAgent ''h'' ''c'') ''rp'' ScopeUser exWorld = (Some r, s1) \<and> res_OK r \<and>
     runOne exJson (cursorAgent ''h'' ''c'') ''rp'' ScopeUser s1 = (Some r2, s2) \<and> res_Skipped r2 \<and> files s2 = files s1"
proof -
  obtain r s1 where r: "runOne exJson (cursorAgent ''h'' ''c'') ''rp'' ScopeUser exWorld = (Some r, s1)" "res_OK r"
    and d: "dfault s1 = (\<lambda>_. None)" using exRunOne by blast
  have p: "configPath (cursorAgent ''h'' ''c'') ScopeUser = Some ''h/.cursor/mcp.json''" by (simp add: cursorPath_def)
  have f: "tmpFresh ''h/.cursor/mcp.json'' exWorld" by (simp add: tmpFresh_def exWorld_def)
  have c: "readBack exJson" unfolding exJson_def by (rule oneDoc_readBack)
  from setup_second_run_skips [OF r p f c, of "''rp''"] d r show ?thesis by auto
qed

lemma runOne_native: "configPath a ScopeUser = None \<Longrightarrow> \<exists>r s1. runOne cd a bin scope s = (Some r, s1)"
  by (cases a) (auto simp: runOne_def Let_def nativeRegister_def split: prod.split option.split sum.split)

theorem setup_reports_each_agent_witness:
  "\<exists>rs s'. Run exJson (Registry ''h'' ''c'') [''codex'', ''claude''] ''rp'' ScopeUser exWorld = (Some rs, s') \<and>
     map res_Agent rs = [''claude'', ''codex''] \<and> list_all (\<lambda>r. res_OK r \<longleftrightarrow> res_Err r = None) rs"
proof -
  obtain rs s' where r: "Run exJson (Registry ''h'' ''c'') [''codex'', ''claude''] ''rp'' ScopeUser exWorld = (Some rs, s')"
  proof -
    obtain r1 s1 where r1: "runOne exJson claudeAgent ''rp'' ScopeUser exWorld = (Some r1, s1)"
      using runOne_native [of claudeAgent exJson "''rp''" ScopeUser exWorld] by auto
    obtain r2 s2 where "runOne exJson codexAgent ''rp'' ScopeUser s1 = (Some r2, s2)"
      using runOne_native [of codexAgent exJson "''rp''" ScopeUser s1] by auto
    with r1 that show thesis by (simp add: Registry_def)
  qed
  from setup_reports_each_agent [OF r] r show ?thesis by (auto simp: Registry_def list_all_iff)
qed

end
