(* ===== verification/SetupCmd.thy ===== *)
theory SetupCmd
  imports Setup
begin

text \<open>
  The command \<open>runtimepulse setup\<close>, \<^verbatim>\<open>src/cmd/runtimepulse/cmd_setup.go\<close>: the agent flag, the
  interactive picker, the rules step and the flow of the whole command. What it prints is left out.
\<close>

section \<open>Selecting agents\<close>

definition contains :: "string list \<Rightarrow> string \<Rightarrow> bool" where
  "contains l s = list_ex (\<lambda>v. v = s) l"

definition addNew :: "string list \<Rightarrow> string \<Rightarrow> string list" where
  "addNew out name = (if contains out name then out else out @ [name])"

fun agentToks :: "string \<Rightarrow> string list \<Rightarrow> string list \<Rightarrow> string list \<Rightarrow> error + string list" where
  \<comment> \<open>the loop over the comma-separated tokens, with the names so far\<close>
  "agentToks flag valid out [] = Inr out"
| "agentToks flag valid out (t # ts) =
     (let tok = TrimSpace t in
      if tok = [] then Inl (GoError (''empty agent name in '' @ goQuote flag))
      else if \<not> contains valid tok then Inl (GoError (''unknown agent '' @ goQuote tok @ '' (valid: '' @ Join valid ''|'' @ '')''))
      else agentToks flag valid (addNew out tok) ts)"

definition parseAgentFlag :: "string \<Rightarrow> string list \<Rightarrow> error + string list" where
  "parseAgentFlag flag valid = agentToks flag valid [] (splitOn CHR '','' flag)"

definition resolveTok :: "string list \<Rightarrow> string \<Rightarrow> error + string" where
  \<comment> \<open>a 1-based number or a candidate's name\<close>
  "resolveTok candidates tok = (case Atoi tok of
     Some n \<Rightarrow>
       if n < 1 \<or> n > int (length candidates)
       then Inl (GoError (''number '' @ Itoa n @ '' out of range (1-'' @ Itoa (int (length candidates)) @ '')''))
       else Inr (candidates ! nat (n - 1))
   | None \<Rightarrow>
       if contains candidates tok then Inr tok
       else Inl (GoError (''unknown selection '' @ goQuote tok)))"

fun selToks :: "string list \<Rightarrow> string list \<Rightarrow> string list \<Rightarrow> error + string list" where
  "selToks candidates out [] = Inr out"
| "selToks candidates out (t # ts) = (case resolveTok candidates (TrimSpace t) of
     Inl e \<Rightarrow> Inl e
   | Inr name \<Rightarrow> selToks candidates (addNew out name) ts)"

definition parseSelection :: "string \<Rightarrow> string list \<Rightarrow> error + string list option" where
  \<comment> \<open>\<open>None\<close> is Go's nil slice: the user quits\<close>
  "parseSelection input candidates =
     (let input = TrimSpace input in
      if input = [] then Inr (Some candidates)
      else if ToLower input = ''q'' \<or> ToLower input = ''n'' then Inr None
      else (case selToks candidates [] (splitOn CHR '','' input) of
        Inl e \<Rightarrow> Inl e
      | Inr out \<Rightarrow> Inr (Some out)))"

definition readLine :: "'z sw \<Rightarrow> (string \<times> error option) \<times> 'z sw" where
  \<comment> \<open>\<open>ReadString\<close> at the end of the input: no text and the error \<open>EOF\<close>\<close>
  "readLine s = (case stdin s of [] \<Rightarrow> (([], Some (GoError ''EOF'')), s) | l # ls \<Rightarrow> (l, s\<lparr>stdin := ls\<rparr>))"

fun selectLoop :: "nat \<Rightarrow> error \<Rightarrow> string list \<Rightarrow> ('z sw, string list option) io" where
  \<comment> \<open>the attempts left and the last error\<close>
  "selectLoop 0 lastErr candidates s = (Inl (GoError (''aborting after repeated invalid selection: '' @ Error lastErr)), s)"
| "selectLoop (Suc k) lastErr candidates s = (case readLine s of
     ((line, readErr), s1) \<Rightarrow>
       if readErr \<noteq> None \<and> TrimSpace line = [] then (Inr None, s1)
       else (case parseSelection line candidates of
         Inl e \<Rightarrow> selectLoop k e candidates s1
       | Inr chosen \<Rightarrow> (Inr chosen, s1)))"

definition selectAgents :: "bool \<Rightarrow> string list \<Rightarrow> ('z sw, string list option) io" where
  "selectAgents isTerminal candidates =
     (if \<not> isTerminal then returnE None else selectLoop 2 (GoError []) candidates)"

section \<open>The rules step\<close>

definition shouldWriteRules :: "bool \<Rightarrow> bool \<Rightarrow> bool \<Rightarrow> ('s \<Rightarrow> bool \<times> 's) \<Rightarrow> 's \<Rightarrow> bool \<times> 's" where
  "shouldWriteRules rules noRules interactive prompt s =
     (if noRules then (False, s)
      else if rules then (True, s)
      else if interactive then prompt s
      else (False, s))"

definition promptYesNo :: "'z sw \<Rightarrow> bool \<times> 'z sw" where
  "promptYesNo s = (case readLine s of ((l, _), s1) \<Rightarrow>
     (let line = ToLower (TrimSpace l) in line = ''y'' \<or> line = ''yes'', s1))"

section \<open>The command\<close>

record setup_flags =
  f_all :: bool
  f_yes :: bool
  f_project :: bool
  f_dryRun :: bool
  f_rules :: bool
  f_noRules :: bool
  f_only :: string

record setup_env =
  executable :: "error + string"
  userHomeDir :: "error + string"
  workingDir :: "error + string"
  isTerminal :: bool

definition setupTargets :: "string \<Rightarrow> string list \<Rightarrow> error + string list option" where
  "setupTargets only names = (if only = [] then Inr None
     else (case parseAgentFlag only names of Inl e \<Rightarrow> Inl e | Inr ts \<Rightarrow> Inr (Some ts)))"

definition setupInstalled :: "string list option \<Rightarrow> (Agent \<times> Status) list \<Rightarrow> string list" where
  "setupInstalled targets statuses =
     map (\<lambda>(a, _). AgentName a) (filter (\<lambda>(a, st). sa_Installed st \<and>
       (case targets of None \<Rightarrow> True | Some ts \<Rightarrow> contains ts (AgentName a))) statuses)"

definition setupChoose :: "setup_flags \<Rightarrow> setup_env \<Rightarrow> string list option \<Rightarrow> string list \<Rightarrow> ('z sw, string list option) io" where
  "setupChoose fl env targets installed =
     (if \<not> f_all fl \<and> \<not> f_yes fl \<and> targets = None then selectAgents (isTerminal env) installed
      else returnE (Some installed))"

definition setupRegister :: "jcodec \<Rightarrow> setup_flags \<Rightarrow> setup_env \<Rightarrow> Agent list \<Rightarrow> string list \<Rightarrow> string \<Rightarrow> string \<Rightarrow> Scope \<Rightarrow> ('z sw, unit) go" where
  \<comment> \<open>the part after the selection: register, then the rules step\<close>
  "setupRegister cd fl env agents chosen binPath home scope s =
     (case Run cd agents chosen binPath scope s of
        (None, s1) \<Rightarrow> (None, s1)
      | (Some results, s1) \<Rightarrow>
          (case shouldWriteRules (f_rules fl) (f_noRules fl) (isTerminal env) promptYesNo s1 of
             (False, s2) \<Rightarrow>
               (Some (if list_ex (\<lambda>r. res_Err r \<noteq> None) results
                  then Inl (GoError ''one or more agents failed to register'') else Inr ()), s2)
           | (True, s2) \<Rightarrow> (case WriteRules (map AgentName agents) chosen home False s2 of
               (rs, s3) \<Rightarrow>
                 (Some (if list_ex (\<lambda>r. res_Err r \<noteq> None) results \<or> list_ex (\<lambda>r. rr_Err r \<noteq> None) rs
                    then Inl (GoError ''one or more agents failed to register'') else Inr ()), s3))))"

definition setupFlow :: "jcodec \<Rightarrow> setup_flags \<Rightarrow> setup_env \<Rightarrow> string \<Rightarrow> string \<Rightarrow> string \<Rightarrow> ('z sw, unit) go" where
  \<comment> \<open>the command once the binary and the directories are known\<close>
  "setupFlow cd fl env binPath home cwd s =
     (let scope = (if f_project fl then ScopeProject else ScopeUser);
          agents = Registry home cwd in
      case setupTargets (f_only fl) (map AgentName agents) of
        Inl e \<Rightarrow> (Some (Inl e), s)
      | Inr targets \<Rightarrow> (case DetectAll cd agents scope s of (statuses, s1) \<Rightarrow>
          let installed = setupInstalled targets statuses in
          if installed = [] then (Some (Inr ()), s1)
          else if f_dryRun fl then
            (Some (Inr ()), if f_rules fl then snd (WriteRules (map AgentName agents) installed home True s1) else s1)
          else (case setupChoose fl env targets installed s1 of
            (Inl e, s2) \<Rightarrow> (Some (Inl e), s2)
          | (Inr None, s2) \<Rightarrow> (Some (Inr ()), s2)
          | (Inr (Some chosen), s2) \<Rightarrow> setupRegister cd fl env agents chosen binPath home scope s2)))"

definition setupCmd :: "jcodec \<Rightarrow> setup_flags \<Rightarrow> setup_env \<Rightarrow> ('z sw, unit) go" where
  "setupCmd cd fl env s = (case (executable env, userHomeDir env, workingDir env) of
     (Inl e, _, _) \<Rightarrow> (Some (Inl e), s)
   | (_, Inl e, _) \<Rightarrow> (Some (Inl e), s)
   | (_, _, Inl e) \<Rightarrow> (Some (Inl e), s)
   | (Inr binPath, Inr home, Inr cwd) \<Rightarrow> setupFlow cd fl env binPath home cwd s)"

section \<open>The agent flag\<close>

definition firsts :: "string list \<Rightarrow> string list" where
  \<comment> \<open>the first occurrences, in order\<close>
  "firsts xs = rev (remdups (rev xs))"

lemma contains_iff [simp]: "contains l s \<longleftrightarrow> s \<in> set l"
  by (auto simp: contains_def list_ex_iff)

lemma firsts_snoc: "firsts (xs @ [x]) = addNew (firsts xs) x"
  by (simp add: firsts_def addNew_def)

lemma firsts_props [simp]: "set (firsts xs) = set xs" "distinct (firsts xs)" "firsts [] = []" "firsts xs = [] \<longleftrightarrow> xs = []"
  by (simp_all add: firsts_def)

lemma agentToks_Inr:
  "agentToks flag valid (firsts pre) ts = Inr out \<longleftrightarrow>
     list_all (\<lambda>t. t \<noteq> [] \<and> t \<in> set valid) (map TrimSpace ts) \<and> out = firsts (pre @ map TrimSpace ts)"
proof (induction ts arbitrary: pre)
  case (Cons t ts)
  from Cons [of "pre @ [TrimSpace t]"] show ?case by (auto simp: Let_def firsts_snoc)
qed auto

text \<open>
  The agent flag. A value is accepted exactly when every comma-separated token, trimmed, is a non-empty valid
  name, and the result is the tokens in the order of their first occurrence, without repetition.
\<close>

theorem parse_agent_flag_spec:
  "parseAgentFlag flag valid = Inr out \<longleftrightarrow>
     (let toks = map TrimSpace (splitOn CHR '','' flag) in
      list_all (\<lambda>t. t \<noteq> [] \<and> t \<in> set valid) toks \<and> out = firsts toks)"
  using agentToks_Inr [of flag valid "[]"] by (simp add: parseAgentFlag_def Let_def)

section \<open>The picker\<close>

lemma resolveTok_Inr: "resolveTok candidates tok = Inr name \<Longrightarrow> name \<in> set candidates"
  by (auto simp: resolveTok_def split: option.splits if_splits)

lemma selToks_Inr:
  "selToks candidates (firsts pre) ts = Inr out \<longleftrightarrow>
     (\<exists>names. map (\<lambda>t. resolveTok candidates (TrimSpace t)) ts = map Inr names \<and> out = firsts (pre @ names))"
proof (induction ts arbitrary: pre)
  case (Cons t ts)
  show ?case
  proof (cases "resolveTok candidates (TrimSpace t)")
    case (Inr name)
    with Cons [of "pre @ [name]"] show ?thesis by (auto simp: firsts_snoc Cons_eq_map_conv)
  qed auto
qed auto

lemma splitOn_nonempty [simp]: "splitOn c s \<noteq> []"
  by (induction s) (auto split: list.splits)

lemma parseSelection_Some:
  assumes "parseSelection input candidates = Inr (Some out)" and "distinct candidates" and "candidates \<noteq> []"
  shows "set out \<subseteq> set candidates \<and> distinct out \<and> out \<noteq> []"
proof (cases "TrimSpace input = []")
  case False
  with assms(1) have "selToks candidates (firsts []) (splitOn CHR '','' (TrimSpace input)) = Inr out"
    by (auto simp: parseSelection_def Let_def split: if_splits sum.splits)
  then obtain names where m: "map (\<lambda>t. resolveTok candidates (TrimSpace t)) (splitOn CHR '','' (TrimSpace input)) = map Inr names"
    and out: "out = firsts names" unfolding selToks_Inr by auto
  have "name \<in> set candidates" if "name \<in> set names" for name
  proof -
    have "Inr name \<in> set (map (\<lambda>t. resolveTok candidates (TrimSpace t)) (splitOn CHR '','' (TrimSpace input)))"
      unfolding m using that by simp
    then show ?thesis by (auto dest!: sym [of "Inr name"] resolveTok_Inr)
  qed
  moreover have "names \<noteq> []" using m by auto
  ultimately show ?thesis using out by auto
qed (use assms in \<open>simp add: parseSelection_def\<close>)

lemma selectLoop_Some:
  assumes "selectLoop k e candidates s = (Inr (Some out), s')"
  shows "\<exists>line used. parseSelection line candidates = Inr (Some out) \<and> stdin s = used @ stdin s' \<and> used \<noteq> [] \<and> length used \<le> k"
  using assms
proof (induction k arbitrary: e s)
  case (Suc k)
  obtain line er s1 where r: "readLine s = ((line, er), s1)" by (metis surj_pair)
  show ?case
  proof (cases "stdin s")
    case Nil
    with Suc.prems show ?thesis by (simp add: readLine_def)
  next
    case (Cons l ls)
    with r have l: "l = (line, er)" "stdin s1 = ls" by (auto simp: readLine_def)
    show ?thesis
    proof (cases "parseSelection line candidates")
      case (Inl e')
      with Suc.prems r have "selectLoop k e' candidates s1 = (Inr (Some out), s')" by (auto split: if_splits)
      from Suc.IH [OF this] obtain ln used where "parseSelection ln candidates = Inr (Some out)"
        "stdin s1 = used @ stdin s'" "length used \<le> k" by blast
      with Cons l show ?thesis by (intro exI [of _ ln] exI [of _ "l # used"]) simp
    next
      case (Inr c)
      with Suc.prems r have "c = Some out" "s' = s1" by (auto split: if_splits)
      with Inr Cons l show ?thesis by (intro exI [of _ line] exI [of _ "[l]"]) simp
    qed
  qed
qed simp

text \<open>
  The picker selects only what it offered. A selection comes from a terminal, after reading one or two lines; it
  is a non-empty list of candidates without repetition. Closed input is never taken for a selection.
\<close>

theorem select_agents_contract:
  assumes "selectAgents tty candidates s = (Inr (Some out), s')" and "distinct candidates" and "candidates \<noteq> []"
  shows "tty \<and> set out \<subseteq> set candidates \<and> distinct out \<and> out \<noteq> [] \<and>
    (\<exists>used. stdin s = used @ stdin s' \<and> used \<noteq> [] \<and> length used \<le> 2)"
proof -
  have tty: "tty" and loop: "selectLoop 2 (GoError []) candidates s = (Inr (Some out), s')"
    using assms(1) by (auto simp: selectAgents_def split: if_splits)
  from selectLoop_Some [OF loop] parseSelection_Some [OF _ assms(2,3)] tty show ?thesis by blast
qed

section \<open>Dry runs\<close>

definition onlyQueries :: "'z sw \<Rightarrow> 'z sw \<Rightarrow> bool" where
  \<comment> \<open>no file changed, no line was read, and every command run since was a query\<close>
  "onlyQueries s s' \<longleftrightarrow> files s' = files s \<and> stdin s' = stdin s \<and>
     (\<exists>qs. cliLog s' = cliLog s @ qs \<and> list_all (\<lambda>q. snd q = [''mcp'', ''list'']) qs)"

lemma onlyQueries_refl [simp]: "onlyQueries s s"
  by (simp add: onlyQueries_def)

lemma onlyQueries_trans: "onlyQueries s s1 \<Longrightarrow> onlyQueries s1 s2 \<Longrightarrow> onlyQueries s s2"
  by (auto simp: onlyQueries_def list_all_append)

lemma nativeStatus_queries: "onlyQueries s (snd (nativeStatus bin s))"
  by (simp add: nativeStatus_def execQuery_def onlyQueries_def split_beta)

lemma fileStatus_queries: "onlyQueries s (snd (fileStatus cd inst path sec s))"
proof -
  obtain b where "hasJSONServer cd path sec ''runtimepulse'' s = (b, s\<lparr>ndisk := Suc (ndisk s)\<rparr>)"
    using hasJSONServer_frame by (metis surj_pair)
  then show ?thesis by (simp add: fileStatus_def onlyQueries_def)
qed

lemma AgentStatus_queries: "onlyQueries s (snd (AgentStatus cd a scope s))"
  by (cases a) (simp_all add: nativeStatus_queries fileStatus_queries)

lemma DetectAll_queries: "DetectAll cd as scope s = (sts, s1) \<Longrightarrow> onlyQueries s s1"
proof (induction as arbitrary: s sts)
  case (Cons a as)
  obtain st s2 where a: "AgentStatus cd a scope s = (st, s2)" by (metis surj_pair)
  with AgentStatus_queries [of s cd a scope] have "onlyQueries s s2" by simp
  with Cons a show ?case by (auto split: prod.splits intro: onlyQueries_trans)
qed simp

lemma WriteRules_dry_queries: "onlyQueries s (snd (WriteRules as names home True s))"
proof -
  have "cliLog (snd (WriteRules as names home True s)) = cliLog s \<and> stdin (snd (WriteRules as names home True s)) = stdin s"
    by (rule diskFrame_WriteRules) (simp_all add: diskFrame_def)
  with WriteRules_dry [of as names home s] show ?thesis by (simp add: onlyQueries_def)
qed

text \<open>
  (C40) A dry run of the wizard changes nothing. Whatever the other flags, the machine and the failures: no file is
  written, no prompt is read, the only commands run are the agents' \<open>mcp list\<close>, and the command does not panic.
\<close>

theorem setup_dry_run_changes_nothing:
  assumes "f_dryRun fl" and "setupCmd cd fl env s = (r, s')"
  shows "r \<noteq> None \<and> files s' = files s \<and> stdin s' = stdin s \<and>
    (\<exists>qs. cliLog s' = cliLog s @ qs \<and> list_all (\<lambda>q. snd q = [''mcp'', ''list'']) qs)"
proof -
  have "r \<noteq> None \<and> onlyQueries s s'"
  proof (cases "\<exists>b h c. executable env = Inr b \<and> userHomeDir env = Inr h \<and> workingDir env = Inr c")
    case True
    then obtain b h c where f: "setupFlow cd fl env b h c s = (r, s')"
      using assms(2) by (auto simp: setupCmd_def)
    obtain sts s1 where d: "DetectAll cd (Registry h c) (if f_project fl then ScopeProject else ScopeUser) s = (sts, s1)" by (metis surj_pair)
    from f assms(1) d DetectAll_queries [OF d] WriteRules_dry_queries onlyQueries_trans show ?thesis
      by (auto simp: setupFlow_def Let_def split: sum.splits if_splits) (blast intro: onlyQueries_trans WriteRules_dry_queries)+
  next
    case False
    with assms(2) show ?thesis
      by (cases "executable env"; cases "userHomeDir env"; cases "workingDir env") (auto simp: setupCmd_def)
  qed
  then show ?thesis by (simp add: onlyQueries_def)
qed

section \<open>Concrete runs\<close>

theorem select_agents_contract_witness:
  "\<exists>out s'. selectAgents True [''claude'', ''codex''] (exWorld\<lparr>stdin := [(''7'', None), (''2, claude,2'', None)]\<rparr>) = (Inr (Some out), s') \<and>
     out = [''codex'', ''claude''] \<and> set out \<subseteq> {''claude'', ''codex''} \<and> distinct out"
proof -
  let ?s = "exWorld\<lparr>stdin := [(''7'', None), (''2, claude,2'', None)]\<rparr>"
  have p: "isl (parseSelection ''7'' [''claude'', ''codex''])"
    "parseSelection ''2, claude,2'' [''claude'', ''codex''] = Inr (Some [''codex'', ''claude''])"
    by code_simp+
  then obtain s' where r: "selectAgents True [''claude'', ''codex''] ?s = (Inr (Some [''codex'', ''claude'']), s')"
    by (auto simp: selectAgents_def readLine_def numeral_2_eq_2 isl_def)
  with select_agents_contract [OF r] show ?thesis by auto
qed

definition exFlags :: setup_flags where
  "exFlags = \<lparr>f_all = True, f_yes = False, f_project = False, f_dryRun = True, f_rules = True, f_noRules = False, f_only = []\<rparr>"

theorem setup_dry_run_changes_nothing_witness:
  "files (snd (setupCmd exJson exFlags \<lparr>executable = Inr ''rp'', userHomeDir = Inr ''h'', workingDir = Inr ''c'', isTerminal = False\<rparr> exWorld)) = Map.empty"
proof -
  let ?e = "\<lparr>executable = Inr ''rp'', userHomeDir = Inr ''h'', workingDir = Inr ''c'', isTerminal = False\<rparr>"
  have "f_dryRun exFlags" "files exWorld = Map.empty" by (simp_all add: exFlags_def exWorld_def)
  with setup_dry_run_changes_nothing [of exFlags exJson ?e exWorld] show ?thesis by (metis surjective_pairing)
qed


text \<open>
  \<open>--yes\<close> is another name for \<open>--all\<close>: it skips the choice of the agents, and the one question that can be
  answered with yes, whether to write the guidance, is asked as it is without it.
\<close>

theorem setup_yes_is_all:
  "setupCmd cd (fl\<lparr>f_yes := y, f_all := a\<rparr>) env s = setupCmd cd (fl\<lparr>f_yes := a, f_all := y\<rparr>) env s"
proof -
  have 1: "setupChoose (fl\<lparr>f_yes := y, f_all := a\<rparr>) env = setupChoose (fl\<lparr>f_yes := a, f_all := y\<rparr>) env"
    by (intro ext) (simp add: setupChoose_def)
  have 2: "setupRegister cd (fl\<lparr>f_yes := y, f_all := a\<rparr>) env = setupRegister cd (fl\<lparr>f_yes := a, f_all := y\<rparr>) env"
    by (intro ext) (simp add: setupRegister_def cong: option.case_cong prod.case_cong bool.case_cong)
  have 3: "setupFlow cd (fl\<lparr>f_yes := y, f_all := a\<rparr>) env binPath home cwd s =
      setupFlow cd (fl\<lparr>f_yes := a, f_all := y\<rparr>) env binPath home cwd s" for binPath home cwd s
    unfolding setupFlow_def 1 2 by (simp cong: if_cong option.case_cong prod.case_cong sum.case_cong add: Let_def)
  show ?thesis unfolding setupCmd_def 3 ..
qed

end
