(* ===== verification/SetupOut.thy ===== *)
theory SetupOut
  imports SetupCmd
begin

text \<open>
  What \<open>runtimepulse setup\<close> prints, \<^verbatim>\<open>src/cmd/runtimepulse/cmd_setup.go\<close>: the lines of the scan, of the dry
  run and of the registration, and the report of the rules step. Text is UTF-8; \<open>%-10s\<close> pads with spaces to ten runes,
  and the names of the agents are ASCII.
\<close>

section \<open>Lines\<close>

definition checkMark :: string where
  "checkMark = [CHR 0xE2, CHR 0x9C, CHR 0x93]"

definition crossMark :: string where
  "crossMark = [CHR 0xE2, CHR 0x9C, CHR 0x97]"

definition bullet :: string where
  "bullet = [CHR 0xE2, CHR 0x80, CHR 0xA2]"

definition arrow :: string where
  "arrow = [CHR 0xE2, CHR 0x86, CHR 0x92]"

definition longDash :: string where
  "longDash = [CHR 0xE2, CHR 0x80, CHR 0x94]"

definition eol :: string where
  "eol = [CHR 0x0A]"

definition padRight :: "nat \<Rightarrow> string \<Rightarrow> string" where
  "padRight w s = s @ replicate (w - length s) CHR '' ''"

definition statusLine :: "Agent \<times> Status \<Rightarrow> string" where
  "statusLine p = (case p of (a, st) \<Rightarrow>
     (let (mark, label) = (if \<not> sa_Installed st then (crossMark, ''not found'')
        else (checkMark, if sa_Registered st then ''already registered'' else ''not registered'')) in
      ''  '' @ mark @ '' '' @ padRight 10 (AgentName a) @ '' '' @ label @ eol))"

definition dryRunLine :: "Scope \<Rightarrow> string list \<Rightarrow> string" where
  "dryRunLine scope installed = eol @ ''[dry-run] would register RuntimePulse ('' @ ScopeString scope @ '' scope) for: '' @
     Join installed '', '' @ eol"

definition resultLine :: "Scope \<Rightarrow> Setup.Result \<Rightarrow> string" where
  "resultLine scope r = (case res_Err r of
     Some e \<Rightarrow> ''  '' @ padRight 10 (res_Agent r) @ '' '' @ crossMark @ '' '' @ Error e @ eol
   | None \<Rightarrow>
       if res_Skipped r then ''  '' @ padRight 10 (res_Agent r) @ '' '' @ bullet @ '' already registered'' @ eol
       else
         (let line = (if res_Note r \<noteq> []
            then padRight 10 (res_Agent r) @ '' '' @ checkMark @ '' registered ('' @ res_Note r @ '')''
            else padRight 10 (res_Agent r) @ '' '' @ checkMark @ '' registered ('' @ ScopeString scope @ '' scope)'') in
          ''  '' @ line @ eol))"

section \<open>The report of the rules step\<close>

definition ruleLine :: "RuleResult \<Rightarrow> string" where
  "ruleLine r = (case rr_Err r of
     Some e \<Rightarrow> ''  '' @ padRight 10 (rr_Agent r) @ '' '' @ crossMark @ '' rules: '' @ Error e @ eol
   | None \<Rightarrow>
       if rr_Manual r then ''  '' @ padRight 10 (rr_Agent r) @ '' '' @ bullet @ '' rules: paste manually (see below)'' @ eol
       else if rr_Action r = ''unchanged'' then
         ''  '' @ padRight 10 (rr_Agent r) @ '' '' @ bullet @ '' rules unchanged ('' @ rr_Path r @ '')'' @ eol
       else if rr_Action r = ''would-write'' then
         ''  '' @ padRight 10 (rr_Agent r) @ '' '' @ checkMark @ '' rules: would write ('' @ rr_Path r @ '')'' @ eol
       else ''  '' @ padRight 10 (rr_Agent r) @ '' '' @ checkMark @ '' rules '' @ rr_Action r @ '' ('' @ rr_Path r @ '')'' @ eol)"

fun ruleLines :: "RuleResult list \<Rightarrow> string \<Rightarrow> RuleResult option \<Rightarrow> string \<times> RuleResult option" where
  \<comment> \<open>the loop: the text so far and the manual result\<close>
  "ruleLines [] b manual = (b, manual)"
| "ruleLines (r # rs) b manual =
     ruleLines rs (b @ ruleLine r) (if rr_Err r = None \<and> rr_Manual r then Some r else manual)"

definition formatRuleResults :: "RuleResult list \<Rightarrow> string" where
  "formatRuleResults results = (case ruleLines results [] None of
     (b, None) \<Rightarrow> b
   | (b, Some m) \<Rightarrow> b @ eol @ ''cursor '' @ longDash @ '' paste this into Settings '' @ arrow @ '' Rules '' @ arrow @ '' User Rules:'' @
       eol @ eol @ concat (map (\<lambda>ln. ''    '' @ ln @ eol) (splitOn CHR 0x0A (rr_Text m))))"

section \<open>Facts\<close>

lemma ruleLines_eq:
  "ruleLines rs b m = (b @ concat (map ruleLine rs),
     (case filter (\<lambda>r. rr_Err r = None \<and> rr_Manual r) rs of [] \<Rightarrow> m | ms \<Rightarrow> Some (last ms)))"
  by (induction rs arbitrary: b m) (auto split: list.split)

text \<open>
  Every result gets its line, in order and whatever happened to the others; when an agent takes its rules by hand, the text
  to paste follows, complete and indented line by line.
\<close>

lemma report_is_complete:
  "\<exists>block. formatRuleResults rs = concat (map ruleLine rs) @ block \<and>
     (block = [] \<longleftrightarrow> (\<forall>r\<in>set rs. rr_Err r \<noteq> None \<or> \<not> rr_Manual r))"
proof (cases "filter (\<lambda>r. rr_Err r = None \<and> rr_Manual r) rs")
  case Nil
  then have "\<forall>r\<in>set rs. rr_Err r \<noteq> None \<or> \<not> rr_Manual r" by (auto simp: filter_empty_conv)
  with Nil show ?thesis by (simp add: formatRuleResults_def ruleLines_eq)
next
  case (Cons m ms)
  then have "m \<in> set (filter (\<lambda>r. rr_Err r = None \<and> rr_Manual r) rs)" by simp
  then have "\<not> (\<forall>r\<in>set rs. rr_Err r \<noteq> None \<or> \<not> rr_Manual r)" by auto
  with Cons show ?thesis by (simp add: formatRuleResults_def ruleLines_eq eol_def)
qed

end
