(* ===== verification/McpServer.thy ===== *)
theory McpServer
  imports Tools
begin

text \<open>
  The MCP server, \<^verbatim>\<open>src/internal/mcpserver/server.go\<close>: its name, the usage contract that is handed to the host, and the
  five tools with their descriptions and handlers, in the order they are registered. The SDK that reads the calls from the host is third-party
  code; all the development relies on is that it calls the handler registered under the name of a call.
\<close>

section \<open>The server\<close>

definition newline :: string where
  "newline = [CHR 0x0A]"

definition emDash :: string where
  "emDash = [CHR 0xE2, CHR 0x80, CHR 0x94]"

definition instructions :: string where
  "instructions =
     ''RuntimePulse resumes YOUR session when a runtime condition is met '' @ emDash @ '' you never poll.'' @ newline @ newline
     @ ''Primary pattern (release-and-resume):'' @ newline
     @ ''1. Call create_rule with YOUR OWN session id (pass agent + repoPath to register yourself in the same call; use ''
     @ ''oneShot:true unless you want to be woken on every match).'' @ newline
     @ ''2. If the event needs a watcher, call create_watch AFTER create_rule '' @ emDash
     @ '' a new watch immediately emits the current state, so the rule must already exist to catch an \"already ready\" condition.''
     @ newline
     @ ''3. End your turn. When the event fires, RuntimePulse resumes your session with the rendered prompt as a new user turn. ''
     @ ''Do not wait, sleep, or poll for it.'' @ newline @ newline
     @ ''Use wait_for_event ONLY for conditions expected within seconds '' @ emDash
     @ '' it blocks your current turn and sees only events published after the call. For anything longer or already-satisfied, ''
     @ ''use create_rule (+ create_watch) and end your turn.''"

datatype 'z tool_handler =
    CreateWatchTool "CreateWatchInput \<Rightarrow> ('z dm, WatchOutput) io"
  | GetEventsTool "string \<Rightarrow> int \<Rightarrow> ('z dm, Event list) io"
  | CancelRuleTool "string \<Rightarrow> ('z dm, bool) io"
  | CreateRuleTool "CreateRuleInput \<Rightarrow> ('z dm, RuleOutput) io"
  | WaitForEventTool "wire \<Rightarrow> string \<Rightarrow> error \<Rightarrow> incoming list \<Rightarrow> WaitForEventInput \<Rightarrow> error + WaitOutput"

record 'z tool =
  tl_Name :: string
  tl_Description :: string
  tl_Handler :: "'z tool_handler"

record 'z Server =
  srv_Name :: string
  srv_Version :: string
  srv_Instructions :: string
  srv_Tools :: "'z tool list"

definition registerTools :: "'t Client \<Rightarrow> 'z Server \<Rightarrow> 'z Server" where
  "registerTools c srv = srv\<lparr>srv_Tools := srv_Tools srv @
     [
      \<lparr>tl_Name = ''create_watch'', tl_Description =
         ''Watch a runtime condition. Emits the current state immediately on creation, then events on state transitions '' @ emDash
     @ '' so create the matching rule BEFORE the watch to catch an already-met condition.'',
       tl_Handler = CreateWatchTool (createWatchHandler c)\<rparr>,
      \<lparr>tl_Name = ''get_events'', tl_Description =
         ''Query recent events, newest first, optionally filtered by type.'',
       tl_Handler = GetEventsTool (getEventsHandler c)\<rparr>,
      \<lparr>tl_Name = ''cancel_rule'', tl_Description =
         ''Cancel a pending rule by id.'',
       tl_Handler = CancelRuleTool (cancelRuleHandler c)\<rparr>,
      \<lparr>tl_Name = ''create_rule'', tl_Description =
         ''Bind an event to a session resume: when eventType (optionally from source) fires, resume sessionId with the rendered ''
     @ ''prompt. Use YOUR OWN session id; pass agent+repoPath to register the session in the same call. Prefer oneShot:true for ''
     @ ''wake-me-once. After creating the rule, END YOUR TURN '' @ emDash
     @ '' you will be resumed with the prompt as a new turn; do not poll or wait.'',
       tl_Handler = CreateRuleTool (createRuleHandler c)\<rparr>,
      \<lparr>tl_Name = ''wait_for_event'', tl_Description =
         ''Block your current turn until a matching event is published (live only; events before the call are not seen), or until ''
     @ ''timeoutSeconds elapses. Use only for conditions expected within seconds. For 'is it already ready?' or longer waits, ''
     @ ''prefer create_rule + create_watch and end your turn.'',
       tl_Handler = WaitForEventTool waitForEventHandler\<rparr>]\<rparr>"

definition NewServer :: "string \<Rightarrow> 't Client \<Rightarrow> 'z Server" where
  "NewServer version c = registerTools c
     \<lparr>srv_Name = ''runtimepulse'', srv_Version = version, srv_Instructions = instructions, srv_Tools = []\<rparr>"

definition toolOf :: "'z Server \<Rightarrow> string \<Rightarrow> 'z tool_handler option" where
  \<comment> \<open>what the SDK calls for a name\<close>
  "toolOf srv n = map_option tl_Handler (find (\<lambda>t. tl_Name t = n) (srv_Tools srv))"

section \<open>Facts\<close>

lemma tools_registered:
  "toolOf (NewServer v c) ''create_watch'' = Some (CreateWatchTool (createWatchHandler c))"
  "toolOf (NewServer v c) ''get_events'' = Some (GetEventsTool (getEventsHandler c))"
  "toolOf (NewServer v c) ''cancel_rule'' = Some (CancelRuleTool (cancelRuleHandler c))"
  "toolOf (NewServer v c) ''create_rule'' = Some (CreateRuleTool (createRuleHandler c))"
  "toolOf (NewServer v c) ''wait_for_event'' = Some (WaitForEventTool waitForEventHandler)"
  by (simp_all add: toolOf_def NewServer_def registerTools_def)

lemma tool_names:
  "distinct (map tl_Name (srv_Tools (NewServer v c)))"
  by (simp add: NewServer_def registerTools_def)

end
