(* ===== verification/CommandTree.thy ===== *)
theory CommandTree
  imports Apply SetupOut McpServer
begin

text \<open>
  The command line as \<^verbatim>\<open>src/cmd/runtimepulse/main.go\<close> and the constructors of the commands
  (\<^verbatim>\<open>cmd_*.go\<close>) put it together: the tree of commands with their flags, defaults, required flags and argument
  checks, and the variables each command's code reads.

  The flag library is third-party code: \<open>cobra\<close> is a parameter that turns the command line into a
  command of the tree with the values of its flags, or an error. What it is documented to guarantee of its answer is
  \<open>cobra_ok\<close>. The code of a command is a function from the flags' values and the arguments to the
  call it makes (\<open>invocation\<close>), which \<^theory_text>\<open>Commands\<close>, \<^theory_text>\<open>Workflow\<close> and
  \<^theory_text>\<open>SetupCmd\<close> carry out.
\<close>

section \<open>Commands and flags\<close>

datatype flag_value =
    StringV string
  | BoolV bool
  | IntV int
  | DurationV duration
  | StringMapV "string \<rightharpoonup> string"

fun sameKind :: "flag_value \<Rightarrow> flag_value \<Rightarrow> bool" where
  "sameKind (StringV _) (StringV _) = True"
| "sameKind (BoolV _) (BoolV _) = True"
| "sameKind (IntV _) (IntV _) = True"
| "sameKind (DurationV _) (DurationV _) = True"
| "sameKind (StringMapV _) (StringMapV _) = True"
| "sameKind _ _ = False"

datatype flag = Flag (flagName: string) (flagDefault: flag_value) (flagUsage: string)

datatype arg_check = AnyArgs | ExactArgs nat | MinimumNArgs nat

fun argsOk :: "arg_check \<Rightarrow> nat \<Rightarrow> bool" where
  "argsOk AnyArgs _ = True"
| "argsOk (ExactArgs n) m = (m = n)"
| "argsOk (MinimumNArgs n) m = (n \<le> m)"

type_synonym flag_vars = "string \<Rightarrow> flag_value"   \<comment> \<open>the variables bound to the flags, after parsing\<close>

fun stringOf :: "flag_value \<Rightarrow> string" where
  "stringOf (StringV s) = s"
| "stringOf _ = []"

fun boolOf :: "flag_value \<Rightarrow> bool" where
  "boolOf (BoolV b) = b"
| "boolOf _ = False"

fun intOf :: "flag_value \<Rightarrow> int" where
  "intOf (IntV n) = n"
| "intOf _ = 0"

fun durationOf :: "flag_value \<Rightarrow> duration" where
  "durationOf (DurationV d) = d"
| "durationOf _ = 0"

fun stringMapOf :: "flag_value \<Rightarrow> string \<rightharpoonup> string" where
  "stringMapOf (StringMapV m) = m"
| "stringMapOf _ = Map.empty"

datatype invocation =
    Daemon int
  | Status
  | Events bool string int
  | RuleAdd rule_flags
  | RuleList bool
  | RuleRemove string
  | SessionRegister string string string
  | SessionList
  | Inject string string "string \<rightharpoonup> string"
  | WatchAdd string string string string
  | WatchList
  | WatchRemove string
  | Exec string string "string list"
  | Continue string string
  | Continuations string
  | Mcp
  | Apply string
  | SetupAgents setup_flags

datatype command =
  Command (Use: string) (Short: string) (Args: arg_check) (Flags: "flag list") (RequiredFlags: "string list")
    (RunE: "(flag_vars \<Rightarrow> string list \<Rightarrow> invocation option) option")   \<comment> \<open>\<open>None\<close> inside: an index out of range\<close>
    (SubCommands: "command list")

fun firstArg :: "string list \<Rightarrow> string option" where
  \<comment> \<open>\<open>args[0]\<close>, which panics when there is none\<close>
  "firstArg [] = None"
| "firstArg (a # _) = Some a"

section \<open>The constructors\<close>

definition daemonCommand :: command where
  "daemonCommand = Command ''daemon'' ''Run the RuntimePulse daemon in the foreground'' AnyArgs
     [Flag ''ws-port'' (IntV 0) ''opt-in WebSocket event stream port (0 = disabled)''] []
     (Some (\<lambda>v args. Some (Daemon (intOf (v ''ws-port''))))) []"

definition statusCommand :: command where
  "statusCommand = Command ''status'' ''Show daemon status'' AnyArgs [] [] (Some (\<lambda>v args. Some Status)) []"

definition eventsCommand :: command where
  "eventsCommand = Command ''events'' ''List stored events (JSON lines), or stream live with --follow'' AnyArgs
     [Flag ''follow'' (BoolV False) ''stream events live'', Flag ''type'' (StringV []) ''filter by event type'',
      Flag ''limit'' (IntV 100) ''max events to list''] []
     (Some (\<lambda>v args. Some (Events (boolOf (v ''follow'')) (stringOf (v ''type'')) (intOf (v ''limit''))))) []"

definition ruleAddCommand :: command where
  "ruleAddCommand = Command ''add'' ''Add a rule: when an event matches, continue a session'' AnyArgs
     [Flag ''on'' (StringV []) ''event selector type[:source] (required)'',
      Flag ''session'' (StringV []) ''target session id (required)'',
      Flag ''agent'' (StringV []) ''agent type; with --repo, registers the session'',
      Flag ''repo'' (StringV []) ''session repo path; with --agent, registers the session'',
      Flag ''prompt'' (StringV []) ''prompt template (required)'',
      Flag ''label'' (StringV []) ''rule label (becomes continuation event source)'',
      Flag ''one-shot'' (BoolV False) ''consume the rule after first match'',
      Flag ''expires'' (DurationV 0) ''rule TTL, e.g. 30m (0 = never)'']
     [''on'', ''session'', ''prompt'']
     (Some (\<lambda>v args. Some (RuleAdd \<lparr>fl_on = stringOf (v ''on''), fl_session = stringOf (v ''session''),
        fl_agent = stringOf (v ''agent''), fl_repo = stringOf (v ''repo''), fl_prompt = stringOf (v ''prompt''),
        fl_label = stringOf (v ''label''), fl_oneShot = boolOf (v ''one-shot''), fl_expires = durationOf (v ''expires'')\<rparr>))) []"

definition ruleListCommand :: command where
  "ruleListCommand = Command ''list'' ''List rules (JSON lines)'' AnyArgs
     [Flag ''all'' (BoolV False) ''include consumed and expired rules''] []
     (Some (\<lambda>v args. Some (RuleList (boolOf (v ''all''))))) []"

definition ruleRemoveCommand :: command where
  "ruleRemoveCommand = Command ''rm <rule-id>'' ''Remove a rule'' (ExactArgs 1) [] []
     (Some (\<lambda>v args. map_option RuleRemove (firstArg args))) []"

definition ruleCommand :: command where
  "ruleCommand = Command ''rule'' ''Manage rules'' AnyArgs [] [] None [ruleAddCommand, ruleListCommand, ruleRemoveCommand]"

definition sessionRegisterCommand :: command where
  "sessionRegisterCommand = Command ''register'' ''Register an agent session'' AnyArgs
     [Flag ''agent'' (StringV []) ''agent type: claude|cursor|codex|opencode (required)'',
      Flag ''session'' (StringV []) ''session id (required)'',
      Flag ''repo'' (StringV []) ''repository path (required)'']
     [''agent'', ''session'', ''repo'']
     (Some (\<lambda>v args. Some (SessionRegister (stringOf (v ''agent'')) (stringOf (v ''session'')) (stringOf (v ''repo''))))) []"

definition sessionListCommand :: command where
  "sessionListCommand = Command ''list'' ''List registered sessions (JSON lines)'' AnyArgs [] []
     (Some (\<lambda>v args. Some SessionList)) []"

definition sessionCommand :: command where
  "sessionCommand = Command ''session'' ''Manage the session registry'' AnyArgs [] [] None
     [sessionRegisterCommand, sessionListCommand]"

definition injectCommand :: command where
  "injectCommand = Command ''inject'' ''Inject an event (testing / external producers)'' AnyArgs
     [Flag ''type'' (StringV []) ''event type (required)'', Flag ''source'' (StringV []) ''event source'',
      Flag ''payload'' (StringMapV Map.empty) ''payload k=v pairs'']
     [''type'']
     (Some (\<lambda>v args. Some (Inject (stringOf (v ''type'')) (stringOf (v ''source'')) (stringMapOf (v ''payload''))))) []"

definition watchTypeCommand :: "string \<times> string \<times> string \<Rightarrow> command" where
  \<comment> \<open>one iteration of the loop over the watch types\<close>
  "watchTypeCommand spec = (case spec of (typ, flag, usage) \<Rightarrow>
     Command typ (''Watch a '' @ typ @ '' target'') AnyArgs
       [Flag flag (StringV []) (usage @ '' (required)''),
        Flag ''interval'' (StringV []) ''poll interval, e.g. 2s'',
        Flag ''stability'' (StringV []) ''flap suppression threshold, e.g. 5s'']
       [flag]
       (Some (\<lambda>v args. Some (WatchAdd typ (stringOf (v flag)) (stringOf (v ''interval'')) (stringOf (v ''stability''))))) [])"

definition watchAddCommand :: command where
  "watchAddCommand = Command ''add'' ''Add a watch'' AnyArgs [] [] None (map watchTypeCommand watchSpecs)"

definition watchListCommand :: command where
  "watchListCommand = Command ''list'' ''List watches (JSON lines)'' AnyArgs [] [] (Some (\<lambda>v args. Some WatchList)) []"

definition watchRemoveCommand :: command where
  "watchRemoveCommand = Command ''rm <watch-id>'' ''Remove a watch'' (ExactArgs 1) [] []
     (Some (\<lambda>v args. map_option WatchRemove (firstArg args))) []"

definition watchCommand :: command where
  "watchCommand = Command ''watch'' ''Manage runtime condition watchers'' AnyArgs [] [] None
     [watchAddCommand, watchListCommand, watchRemoveCommand]"

definition execCommand :: command where
  "execCommand = Command ''exec --label <name> -- <command> [args...]'' ''Run a command and emit exec.succeeded/failed''
     (MinimumNArgs 1) [Flag ''label'' (StringV []) ''event source label (required)''] [''label'']
     (Some (\<lambda>v args. map_option (\<lambda>a. Exec (stringOf (v ''label'')) a (tl args)) (firstArg args))) []"

definition continueCommand :: command where
  "continueCommand = Command ''continue'' ''Manually resume a registered session with a prompt'' AnyArgs
     [Flag ''session'' (StringV []) ''registered session id (required)'',
      Flag ''prompt'' (StringV []) ''prompt to inject (required)'']
     [''session'', ''prompt'']
     (Some (\<lambda>v args. Some (Continue (stringOf (v ''session'')) (stringOf (v ''prompt''))))) []"

definition continuationsCommand :: command where
  "continuationsCommand = Command ''continuations'' ''List continuations (JSON lines)'' AnyArgs
     [Flag ''state'' (StringV []) ''filter: pending|running|completed|failed''] []
     (Some (\<lambda>v args. Some (Continuations (stringOf (v ''state''))))) []"

definition mcpCommand :: command where
  "mcpCommand = Command ''mcp'' ''Run the RuntimePulse MCP server over stdio'' AnyArgs [] [] (Some (\<lambda>v args. Some Mcp)) []"

definition applyCommand :: command where
  "applyCommand = Command ''apply <workflow.yaml>'' ''Compile a workflow file into rules'' (ExactArgs 1) [] []
     (Some (\<lambda>v args. map_option Apply (firstArg args))) []"

definition setupCommand :: command where
  "setupCommand = Command ''setup'' ''Detect installed agent CLIs and register RuntimePulse as their MCP server'' AnyArgs
     [Flag ''all'' (BoolV False) ''register every installed agent without prompting'',
      Flag ''yes'' (BoolV False) ''assume yes to the confirmation prompt'',
      Flag ''agent'' (StringV []) ''target specific agents, comma-separated (claude|cursor|codex|opencode)'',
      Flag ''project'' (BoolV False) ''register in the current project instead of user scope'',
      Flag ''dry-run'' (BoolV False) ''show what would happen, write nothing'',
      Flag ''rules'' (BoolV False) (''also install the release-and-resume guidance into agents'' @ [CHR 0x27] @ '' global instructions''),
      Flag ''no-rules'' (BoolV False) ''skip the global-instruction guidance step without prompting''] []
     (Some (\<lambda>v args. Some (SetupAgents \<lparr>f_all = boolOf (v ''all''), f_yes = boolOf (v ''yes''),
        f_project = boolOf (v ''project''), f_dryRun = boolOf (v ''dry-run''), f_rules = boolOf (v ''rules''),
        f_noRules = boolOf (v ''no-rules''), f_only = stringOf (v ''agent'')\<rparr>))) []"

definition rootCommand :: command where
  "rootCommand = Command ''runtimepulse'' ''Event-driven session continuation engine for AI coding agents'' AnyArgs [] [] None
     [daemonCommand, statusCommand, eventsCommand, ruleCommand, sessionCommand, injectCommand, watchCommand, execCommand,
      continueCommand, continuationsCommand, mcpCommand, applyCommand, setupCommand]"

section \<open>Running the program\<close>

definition commandName :: "command \<Rightarrow> string" where
  \<comment> \<open>the first word of the usage line\<close>
  "commandName c = takeWhile (\<lambda>ch. ch \<noteq> CHR '' '') (Use c)"

fun commandAt :: "command \<Rightarrow> string list \<Rightarrow> command option" where
  "commandAt c [] = Some c"
| "commandAt c (n # ns) = (case List.find (\<lambda>d. commandName d = n) (SubCommands c) of
     None \<Rightarrow> None
   | Some d \<Rightarrow> commandAt d ns)"

datatype parsed =
    Shown                                            \<comment> \<open>help or version was printed\<close>
  | Parsed "string list" flag_vars "string list"     \<comment> \<open>path of the command, flags, arguments\<close>

datatype started = ExitNow int | Panics | Runs invocation

definition mainStart :: "(command \<Rightarrow> string list \<Rightarrow> error + parsed) \<Rightarrow> string list \<Rightarrow> started" where
  "mainStart cobra argv = (case cobra rootCommand argv of
     Inl _ \<Rightarrow> ExitNow 1
   | Inr Shown \<Rightarrow> ExitNow 0
   | Inr (Parsed path v args) \<Rightarrow> (case commandAt rootCommand path of
       None \<Rightarrow> ExitNow 1
     | Some c \<Rightarrow> (case RunE c of
         None \<Rightarrow> ExitNow 0
       | Some run \<Rightarrow> (case run v args of None \<Rightarrow> Panics | Some i \<Rightarrow> Runs i))))"

definition mcpCmd :: "error option \<Rightarrow> ('z Server \<Rightarrow> error option) \<Rightarrow> string \<Rightarrow> 't Client \<Rightarrow> error option" where
  \<comment> \<open>with the outcome of \<open>dial\<close> and of the server's run over standard input and output\<close>
  "mcpCmd dialed0 runServer version c = (case dialed0 of Some e \<Rightarrow> Some e | None \<Rightarrow> runServer (NewServer version c))"

record 'j cli_env =
  ce_cli :: "'j cli"
  ce_now :: time
  ce_wire :: wire
  ce_stream :: "incoming list"
  ce_streamEnd :: error
  ce_child :: "string \<Rightarrow> string list \<Rightarrow> child \<times> duration"
  ce_wires :: "nat \<Rightarrow> wire"
  ce_idOf :: "'j \<Rightarrow> string option"
  ce_yaml :: "string \<Rightarrow> error + Workflow"
  ce_apply :: apply_env

definition returned :: "printed \<times> 's \<Rightarrow> (string list \<times> outcome) \<times> 's" where
  "returned p = (case p of ((ls, e), w) \<Rightarrow> ((ls, Returned e), w))"

fun perform :: "'j cli_env \<Rightarrow> 't Client \<Rightarrow> invocation \<Rightarrow> 'z dm \<Rightarrow> ((string list \<times> outcome) \<times> 'z dm) option" where
  \<comment> \<open>the commands that talk to the daemon; the others work on states of their own\<close>
  "perform ce c Status w = Some (returned (statusCmd (ce_cli ce) c w))"
| "perform ce c (Events following evType limit) w = Some (
     if following then returned (eventsFollowCmd (ce_cli ce) (ce_wire ce) [] (ce_streamEnd ce) (ce_stream ce), w)
     else returned (eventsCmd (ce_cli ce) c evType limit w))"
| "perform ce c (RuleAdd f) w = Some (returned (ruleAddCmd (ce_cli ce) c (ce_now ce) f w))"
| "perform ce c (RuleList all) w = Some (returned (ruleListCmd (ce_cli ce) c all w))"
| "perform ce c (RuleRemove i) w = Some (returned (ruleRemoveCmd (ce_cli ce) c i w))"
| "perform ce c (SessionRegister agent session repo) w = Some (returned (sessionRegisterCmd (ce_cli ce) c agent session repo w))"
| "perform ce c SessionList w = Some (returned (sessionListCmd (ce_cli ce) c w))"
| "perform ce c (Inject evType source payload) w = Some (returned (injectCmd (ce_cli ce) c evType source payload w))"
| "perform ce c (WatchAdd typ target interval stability) w = Some (returned (watchAddCmd (ce_cli ce) c typ target interval stability w))"
| "perform ce c WatchList w = Some (returned (watchListCmd (ce_cli ce) c w))"
| "perform ce c (WatchRemove i) w = Some (returned (watchRemoveCmd (ce_cli ce) c i w))"
| "perform ce c (Exec label prog args) w = Some (case ce_child ce prog args of (r, since) \<Rightarrow> execCmd (ce_cli ce) c label r since w)"
| "perform ce c (Continue session prompt) w = Some (returned (continueCmd (ce_cli ce) c session prompt w))"
| "perform ce c (Continuations state) w = Some (returned (continuationsCmd (ce_cli ce) c state w))"
| "perform ce c (Daemon _) w = None"
| "perform ce c Mcp w = None"
| "perform ce c (Apply path) w =
     Some (returned (applyCmd (ce_cli ce) (ce_idOf ce) c (ce_wires ce) (ce_yaml ce) (ce_apply ce) path w))"
| "perform ce c (SetupAgents _) w = None"

definition mainClient :: "(command \<Rightarrow> string list \<Rightarrow> error + parsed) \<Rightarrow> 'j cli_env \<Rightarrow> 't Client \<Rightarrow> string list \<Rightarrow> 'z dm \<Rightarrow>
    ((string list \<times> int) \<times> 'z dm) option" where
  \<comment> \<open>the whole program for such a command: what it prints and its exit status\<close>
  "mainClient cobra ce c argv w = (case mainStart cobra argv of
     ExitNow n \<Rightarrow> Some (([], n), w)
   | Panics \<Rightarrow> None
   | Runs i \<Rightarrow> map_option (\<lambda>((ls, out), w'). ((ls, exitStatus out), w')) (perform ce c i w))"

section \<open>What is assumed of the flag library\<close>

definition flagsOk :: "command \<Rightarrow> flag_vars \<Rightarrow> bool" where
  \<comment> \<open>each declared flag has a value of its kind\<close>
  "flagsOk c v \<longleftrightarrow> list_all (\<lambda>f. sameKind (flagDefault f) (v (flagName f))) (Flags c)"

definition defaults :: "command \<Rightarrow> flag_vars" where
  "defaults c n = (case List.find (\<lambda>f. flagName f = n) (Flags c) of None \<Rightarrow> StringV [] | Some f \<Rightarrow> flagDefault f)"

definition plain :: "command \<Rightarrow> bool" where
  \<comment> \<open>a command that can be run by its name alone\<close>
  "plain c \<longleftrightarrow> RunE c \<noteq> None \<and> RequiredFlags c = [] \<and> argsOk (Args c) 0"

definition cobra_ok :: "(command \<Rightarrow> string list \<Rightarrow> error + parsed) \<Rightarrow> bool" where
  "cobra_ok cobra \<longleftrightarrow>
     (\<forall>argv path v args. cobra rootCommand argv = Inr (Parsed path v args) \<longrightarrow>
        (\<exists>c. commandAt rootCommand path = Some c \<and> flagsOk c v \<and> argsOk (Args c) (length args))) \<and>
     (\<forall>path c. commandAt rootCommand path = Some c \<and> plain c \<longrightarrow>
        cobra rootCommand path = Inr (Parsed path (defaults c) []))"

section \<open>The shape of the tree\<close>

fun allCommands :: "command \<Rightarrow> command list" where
  "allCommands (Command u s a f r e cs) = Command u s a f r e cs # concat (map allCommands cs)"

lemmas command_defs = rootCommand_def daemonCommand_def statusCommand_def eventsCommand_def ruleCommand_def ruleAddCommand_def
  ruleListCommand_def ruleRemoveCommand_def sessionCommand_def sessionRegisterCommand_def sessionListCommand_def
  injectCommand_def watchCommand_def watchAddCommand_def watchTypeCommand_def watchSpecs_def watchListCommand_def
  watchRemoveCommand_def execCommand_def continueCommand_def continuationsCommand_def mcpCommand_def applyCommand_def
  setupCommand_def

definition commandOk :: "command \<Rightarrow> bool" where
  \<comment> \<open>names are distinct (the library panics on a flag defined twice, and picks the first of two commands with one name),
    required flags are defined (\<open>MarkFlagRequired\<close> reports it otherwise, and its error is not looked at), and a command
    runs exactly when it has no subcommands\<close>
  "commandOk c \<longleftrightarrow> distinct (map commandName (SubCommands c)) \<and> distinct (map flagName (Flags c)) \<and>
     set (RequiredFlags c) \<subseteq> flagName ` set (Flags c) \<and> (RunE c = None \<longleftrightarrow> SubCommands c \<noteq> [])"

lemma allCommands_self: "c \<in> set (allCommands c)"
  by (cases c) simp

lemma allCommands_sub:
  "d \<in> set (allCommands e) \<Longrightarrow> e \<in> set (SubCommands c) \<Longrightarrow> d \<in> set (allCommands c)"
  by (cases c) auto

lemma commandAt_all: "commandAt c path = Some d \<Longrightarrow> d \<in> set (allCommands c)"
proof (induction c path rule: commandAt.induct)
  case (2 c n ns)
  then obtain e where e: "List.find (\<lambda>d. commandName d = n) (SubCommands c) = Some e" "commandAt e ns = Some d"
    by (auto split: option.splits)
  then have "e \<in> set (SubCommands c)" by (auto simp: find_Some_iff)
  with 2 e show ?case by (auto intro: allCommands_sub)
qed (simp add: allCommands_self)

text \<open>Every command of the tree is well-formed.\<close>

theorem commands_ok: "list_all commandOk (allCommands rootCommand)"
  by (simp add: command_defs commandOk_def commandName_def)

definition runOk :: "command \<Rightarrow> bool" where
  \<comment> \<open>with as many arguments as the command accepts its code does not index out of range, and it reads declared flags only\<close>
  "runOk c \<longleftrightarrow> (\<forall>run. RunE c = Some run \<longrightarrow>
     (\<forall>v args. argsOk (Args c) (length args) \<longrightarrow> run v args \<noteq> None) \<and>
     (\<forall>v v' args. (\<forall>n\<in>flagName ` set (Flags c). v n = v' n) \<longrightarrow> run v args = run v' args))"

lemma firstArg_some: "(\<exists>a. firstArg args = Some a) \<longleftrightarrow> 0 < length args"
  by (cases args) auto

lemma commands_run: "list_all runOk (allCommands rootCommand)"
  by (simp add: command_defs runOk_def firstArg_some Suc_le_eq)

lemma commandAt_ok:
  assumes "commandAt rootCommand path = Some c"
  shows "commandOk c" and "runOk c"
  using commandAt_all [OF assms] commands_ok commands_run by (auto simp: list_all_iff)

text \<open>
  No command line makes the program panic before it reaches its command: wherever the code of a command
  indexes its arguments, the check of the command has made sure that they are there. A command line is turned into a
  call, or the program ends with the status 0 or 1.
\<close>

theorem main_never_panics:
  assumes "cobra_ok cobra"
  shows "mainStart cobra argv \<noteq> Panics"
proof (cases "cobra rootCommand argv")
  case (Inr p)
  show ?thesis
  proof (cases p)
    case (Parsed path v args)
    with assms Inr obtain c where c: "commandAt rootCommand path = Some c" "argsOk (Args c) (length args)"
      unfolding cobra_ok_def by blast
    have "run v args \<noteq> None" if "RunE c = Some run" for run
      using commandAt_ok(2) [OF c(1)] c(2) that unfolding runOk_def by blast
    with c Inr Parsed show ?thesis by (auto simp: mainStart_def split: option.splits)
  qed (use Inr in \<open>simp add: mainStart_def\<close>)
qed (simp add: mainStart_def)

text \<open>
  The commands the program itself starts or registers exist. \<open>runtimepulse daemon\<close>, which a client starts when no daemon
  answers, runs the daemon without the event stream; \<open>runtimepulse mcp\<close>, which setup registers with the agents,
  is the MCP server.
\<close>

lemma plain_runs:
  assumes "cobra_ok cobra" and "commandAt rootCommand path = Some c" and "plain c"
  shows "mainStart cobra path = (case RunE c of Some run \<Rightarrow> (case run (defaults c) [] of None \<Rightarrow> Panics | Some i \<Rightarrow> Runs i))"
  using assms by (auto simp: cobra_ok_def mainStart_def plain_def)

theorem spawned_commands_exist:
  assumes "cobra_ok cobra"
  shows "mainStart cobra [''daemon''] = Runs (Daemon 0)"
    and "mainStart cobra [''mcp''] = Runs Mcp"
proof -
  have "commandAt rootCommand [''daemon''] = Some daemonCommand" "plain daemonCommand"
    by (simp_all add: rootCommand_def commandName_def daemonCommand_def plain_def)
  from plain_runs [OF assms this] show "mainStart cobra [''daemon''] = Runs (Daemon 0)"
    by (simp add: daemonCommand_def defaults_def)
  have "commandAt rootCommand [''mcp''] = Some mcpCommand" "plain mcpCommand"
    by (simp_all add: command_defs commandName_def plain_def)
  from plain_runs [OF assms this] show "mainStart cobra [''mcp''] = Runs Mcp" by (simp add: mcpCommand_def)
qed

text \<open>A parser that accepts the commands by their names alone satisfies the assumption.\<close>

definition exCobra :: "command \<Rightarrow> string list \<Rightarrow> error + parsed" where
  "exCobra root argv = (case commandAt root argv of
     None \<Rightarrow> Inl (GoError ''unknown command'')
   | Some c \<Rightarrow> if plain c then Inr (Parsed argv (defaults c) []) else Inl (GoError ''usage''))"

lemma find_distinct:
  "distinct (map flagName fs) \<Longrightarrow> f \<in> set fs \<Longrightarrow> List.find (\<lambda>g. flagName g = flagName f) fs = Some f"
  by (induction fs) auto

lemma sameKind_refl [simp]: "sameKind x x"
  by (cases x) simp_all

lemma exCobra_ok: "cobra_ok exCobra"
proof -
  have "flagsOk c (defaults c)" if "commandOk c" for c
    using that by (auto simp: flagsOk_def defaults_def list_all_iff commandOk_def find_distinct)
  then show ?thesis
    by (auto simp: cobra_ok_def exCobra_def plain_def dest: commandAt_ok split: option.splits if_splits)
qed

text \<open>
  With such a library, the whole program on a command line of the tree does what its command does; here \<open>status\<close>.
\<close>

theorem main_status:
  assumes "cobra_ok cobra"
  shows "mainClient cobra ce c [''status''] w =
    (case statusCmd (ce_cli ce) c w of ((ls, e), w') \<Rightarrow> Some ((ls, if e = None then 0 else 1), w'))"
proof -
  have "commandAt rootCommand [''status''] = Some statusCommand" "plain statusCommand"
    by (simp_all add: command_defs commandName_def plain_def)
  from plain_runs [OF assms this] have "mainStart cobra [''status''] = Runs Status" by (simp add: statusCommand_def)
  then show ?thesis by (auto simp: mainClient_def returned_def split: prod.split)
qed

end
