(* ===== verification/MockExe.thy ===== *)
theory MockExe
  imports Prelude GoStrings
begin

text \<open>
  The fake agent of the repository's own tests, \<^verbatim>\<open>src/internal/mockexe/mockexe.go\<close>: a test binary that is started
  with the environment of a specification behaves as it says. An environment is a list of entries; of
  several entries for a key the last one counts, as in \<open>os/exec\<close>.
\<close>

section \<open>The specification and its environment\<close>

record Spec =
  sp_Stdout :: string
  sp_Stderr :: string
  sp_Exit :: int
  sp_DelayMs :: int

definition sentinel :: string where
  "sentinel = ''RUNTIMEPULSE_TEST_MOCK''"

definition Env :: "Spec \<Rightarrow> string list" where
  "Env s = [sentinel @ ''=1'', ''MOCK_STDOUT='' @ sp_Stdout s, ''MOCK_STDERR='' @ sp_Stderr s,
     ''MOCK_EXIT='' @ Itoa (sp_Exit s), ''MOCK_DELAY_MS='' @ Itoa (sp_DelayMs s)]"

definition Getenv :: "string list \<Rightarrow> string \<Rightarrow> string" where
  "Getenv env k = (case find (\<lambda>e. HasPrefix e (k @ ''='')) (rev env) of
     None \<Rightarrow> [] | Some e \<Rightarrow> drop (length k + 1) e)"

function ReplaceAll :: "string \<Rightarrow> string \<Rightarrow> string \<Rightarrow> string" where
  \<comment> \<open>\<open>strings.ReplaceAll\<close>, for a text to replace that is not empty\<close>
  "ReplaceAll old new [] = []"
| "ReplaceAll old new (c # cs) =
     (if old \<noteq> [] \<and> HasPrefix (c # cs) old then new @ ReplaceAll old new (drop (length old) (c # cs))
      else c # ReplaceAll old new cs)"
  by pat_completeness auto
termination
  by (relation "measure (\<lambda>(old, new, s). length s)") (auto simp: neq_Nil_conv)

definition atoiOr :: "string \<Rightarrow> int" where
  \<comment> \<open>the value of \<open>strconv.Atoi\<close> when its error is ignored: a number out of range is cut off at the bound\<close>
  "atoiOr s = (case Atoi s of
     Some n \<Rightarrow> n
   | None \<Rightarrow>
       (let (neg, ds) = (case s of [] \<Rightarrow> (False, [])
          | c # cs \<Rightarrow> if c = CHR ''-'' then (True, cs) else if c = CHR ''+'' then (False, cs) else (False, s)) in
        if ds = [] \<or> parseDigits 0 ds = None then 0
        else if neg then - 9223372036854775808 else 9223372036854775807))"

record mock_run =
  mk_Slept :: int      \<comment> \<open>nanoseconds\<close>
  mk_Stdout :: string
  mk_Stderr :: string
  mk_Code :: int

definition mockMain :: "string list \<Rightarrow> string list \<Rightarrow> mock_run option" where
  \<comment> \<open>\<open>Main\<close> for the arguments and the environment of a process; \<open>None\<close>: it is not a mock and goes on\<close>
  "mockMain args env =
     (if Getenv env sentinel \<noteq> ''1'' then None
      else
        let d = atoiOr (Getenv env ''MOCK_DELAY_MS'');
            final = (if 1 < length args then last args else []);
            expand = ReplaceAll ''{LAST}'' final;
            out = Getenv env ''MOCK_STDOUT'';
            err = Getenv env ''MOCK_STDERR'' in
        Some \<lparr>mk_Slept = (if 0 < d then max 0 (signed_take_bit 63 (d * 1000000)) else 0),
          mk_Stdout = (if out \<noteq> [] then expand out else []),
          mk_Stderr = (if err \<noteq> [] then expand err else []),
          mk_Code = atoiOr (Getenv env ''MOCK_EXIT'')\<rparr>)"

section \<open>A mock does what its specification says\<close>

lemma Getenv_Env:
  "Getenv (env @ Env s) sentinel = ''1''"
  "Getenv (env @ Env s) ''MOCK_STDOUT'' = sp_Stdout s" "Getenv (env @ Env s) ''MOCK_STDERR'' = sp_Stderr s"
  "Getenv (env @ Env s) ''MOCK_EXIT'' = Itoa (sp_Exit s)" "Getenv (env @ Env s) ''MOCK_DELAY_MS'' = Itoa (sp_DelayMs s)"
  by (simp_all add: Getenv_def Env_def sentinel_def HasPrefix_def)

lemma ReplaceAll_token: "ReplaceAll ''{LAST}'' x ''{LAST}'' = x"
  by (simp add: HasPrefix_def)

text \<open>
  Whatever the process inherits, a child started with the environment of a specification prints the two
  texts with the last argument in place of the token, sleeps as long as it should and exits with the code; so a
  test that asks for the token alone sees the last argument byte by byte.
\<close>

theorem mock_follows_spec:
  assumes "- 9223372036854775808 \<le> sp_Exit s \<and> sp_Exit s \<le> 9223372036854775807"
    and "0 \<le> sp_DelayMs s \<and> sp_DelayMs s \<le> 9223372036854" and "1 < length args"
  shows "mockMain args (env @ Env s) = Some \<lparr>mk_Slept = sp_DelayMs s * 1000000,
      mk_Stdout = ReplaceAll ''{LAST}'' (last args) (sp_Stdout s),
      mk_Stderr = ReplaceAll ''{LAST}'' (last args) (sp_Stderr s), mk_Code = sp_Exit s\<rparr> \<and>
    (sp_Stdout s = ''{LAST}'' \<longrightarrow> (\<exists>run. mockMain args (env @ Env s) = Some run \<and> mk_Stdout run = last args))"
proof -
  have "atoiOr (Itoa (sp_Exit s)) = sp_Exit s" "atoiOr (Itoa (sp_DelayMs s)) = sp_DelayMs s"
    using assms(1,2) by (simp_all add: atoiOr_def Atoi_Itoa)
  moreover have "signed_take_bit 63 (sp_DelayMs s * 1000000) = sp_DelayMs s * 1000000"
    using assms(2) by (intro signed_take_bit_int_eq_self) auto
  ultimately have m: "mockMain args (env @ Env s) = Some \<lparr>mk_Slept = sp_DelayMs s * 1000000,
      mk_Stdout = ReplaceAll ''{LAST}'' (last args) (sp_Stdout s),
      mk_Stderr = ReplaceAll ''{LAST}'' (last args) (sp_Stderr s), mk_Code = sp_Exit s\<rparr>"
    using assms(2,3) by (auto simp: mockMain_def Getenv_Env Let_def)
  then show ?thesis by (simp add: ReplaceAll_token del: ReplaceAll.simps)
qed

theorem mock_follows_spec_witness:
  "\<exists>run. mockMain [''agent'', ''hello''] (Env \<lparr>sp_Stdout = ''{LAST}'', sp_Stderr = [], sp_Exit = 3, sp_DelayMs = 0\<rparr>) = Some run \<and>
     mk_Stdout run = ''hello'' \<and> mk_Code run = 3"
proof -
  let ?s = "\<lparr>sp_Stdout = ''{LAST}'', sp_Stderr = [], sp_Exit = 3, sp_DelayMs = 0\<rparr>"
  note m = mock_follows_spec [of ?s "[''agent'', ''hello'']" "[]"]
  have "- 9223372036854775808 \<le> sp_Exit ?s \<and> sp_Exit ?s \<le> 9223372036854775807"
    "0 \<le> sp_DelayMs ?s \<and> sp_DelayMs ?s \<le> 9223372036854" "1 < length [''agent'', ''hello'']" by simp_all
  from m [OF this] show ?thesis by (simp add: HasPrefix_def)
qed

end
