(* ===== verification/Spec2Isabelle.thy ===== *)
theory Spec2Isabelle
  imports Sys Fair Rows Migrate Chain CommandTree MockExe
begin

text \<open>
  RuntimePulse, verified.

  RuntimePulse is a local daemon that resumes sessions of coding agents when something they
  wait for happens. Watchers observe the machine and emit events; the engine stores each event
  and, in the same transaction, turns the rules it matches into continuations (an outbox); the
  dispatcher takes the pending continuations of each session in order and runs the session's
  agent through an adapter; the outcome is itself an event, so rules can be chained. The command line
  and the tools of an MCP server talk to the daemon over a socket. A workflow file is compiled to such rules, and a setup
  wizard registers the program with the agents.

  This development models the Go sources under \<^verbatim>\<open>src/\<close> as functions on explicit states
  and proves what makes them correct. Every definition that models code keeps the code's name where HOL
  allows it.

  \<^bold>\<open>How effects are modelled.\<close> An operation is a function \<open>('s, 'a) io\<close> from a state to
  a result and a state; the result is an error or a value (\<^theory_text>\<open>Prelude\<close>). What the environment
  decides is part of the state as an oracle and is arbitrary: clock readings, random bytes, the
  statements of the database that fail (\<open>fault\<close>), the file system calls that fail
  (\<open>dfault\<close>), the shutdown of the daemon (\<open>ctxErr\<close>), the answers of command lines. So a theorem without
  a hypothesis on them holds for every failure. Panics are outcomes of their own (\<open>None\<close>) where the code
  can panic: sends on closed channels, writes to nil maps. Loops that may run forever are
  \<open>partial_function (option)\<close>, and that they return is a theorem (\<open>worker_drains\<close>); there is no fuel. What a client
  of an event stream sees is driven by an arbitrary list of turns.

  \<^bold>\<open>Parameters.\<close> Code that is not under \<^verbatim>\<open>src/\<close> is an argument: Go's template engine, the JSON and YAML codecs, the
  parsers of times, durations and command lines, process execution, the network, file notifications. The only laws
  assumed of them are named: fresh random identifiers (\<open>freshIDs\<close>, \<open>freshRuleIDs\<close>), fresh names of temporary
  files (\<open>tmpFresh\<close>), parameters that survive the socket (\<open>crosses\<close>), a working database where success is claimed (\<open>healthy\<close>; \<open>oneFault\<close> for one failing statement), a flag
  library that answers as documented (\<open>cobra_ok\<close>), and that printed JSON is read back (\<open>readBack\<close>, \<open>readsID\<close>).

  \<^bold>\<open>The theories\<close>, in dependency order, with the code they model and what they show.

  \<^item> \<^theory_text>\<open>Prelude\<close>: the error monad, preservation of invariants, reachability (locale
    \<open>invariant_system\<close>) and bounded loops (locale \<open>bounded_loop\<close>). \<^theory_text>\<open>GoStrings\<close>: the functions
    of \<open>strings\<close> and \<open>strconv\<close> the code calls.
  \<^item> \<^theory_text>\<open>Sql\<close>: tables as row lists with uniqueness constraints (locale \<open>unique_table\<close>, interpreted on
    all five tables), statements, transactions with rollback.
  \<^item> \<^theory_text>\<open>Core\<close>, \<^theory_text>\<open>Watch\<close>: the entities and their decisions (\<^verbatim>\<open>internal/core\<close>, \<^verbatim>\<open>internal/watch/watch.go\<close>).
  \<^item> \<^theory_text>\<open>Store\<close>, \<^theory_text>\<open>Ingest\<close>, \<^theory_text>\<open>Retention\<close>: all methods of \<^verbatim>\<open>internal/store\<close>. The outbox transaction
    refines a one-line specification, is atomic under every failure, delivers a pair of rule and event once and
    fires a one-shot rule at most once; the schema invariant holds after every sequence of calls; the
    sweep removes exactly what it should, and one thing it should not (\<open>sweep_may_orphan_pending\<close>).
  \<^item> \<^theory_text>\<open>Timestamp\<close>, \<^theory_text>\<open>ParseTime\<close>, \<^theory_text>\<open>Rows\<close>, \<^theory_text>\<open>Migrate\<close>: the columns behind those tables. The text of a time sorts
    like the time and is read back; each query and each statement, run on text, 0 and 1, JSON and null, agrees with its
    definition in \<^theory_text>\<open>Store\<close>, \<^theory_text>\<open>Ingest\<close> and \<^theory_text>\<open>Retention\<close>; opening a database of an earlier version migrates it.
  \<^item> \<^theory_text>\<open>Bus\<close>, \<^theory_text>\<open>Engine\<close>: \<^verbatim>\<open>internal/bus\<close>, \<^verbatim>\<open>internal/engine\<close>. Publishing never blocks or panics; an event is
    published only after it was committed. \<^theory_text>\<open>Streams\<close>: the loop both consumers of the bus run, the web socket and \<open>events.follow\<close>.
  \<^item> \<^theory_text>\<open>Adapter\<close>: \<^verbatim>\<open>internal/adapter\<close>. Outcomes of a run, prompts that cannot be taken for options
    (locale \<open>prompt_last\<close>, interpreted on the four builders), truncation at rune boundaries.
  \<^item> \<^theory_text>\<open>Dispatch\<close>, \<^theory_text>\<open>Workers\<close>: \<^verbatim>\<open>internal/dispatch\<close>, first as sequential methods (order, verdicts,
    termination of a worker), then all goroutines interleaved at the granularity of their store
    calls, with failures and restarts: one run per session, the life cycle of a continuation, recovery.
    The segments of the interleaving compose to the sequential round (\<open>segments_are_worker_round\<close>).
  \<^item> \<^theory_text>\<open>Wakeups\<close>: the dispatcher's loop step by step (signal or tick, query, spawn) between those goroutines, with
    commits and signals as separate steps: no wake-up is lost. \<^theory_text>\<open>Progress\<close>: after a crash in any reachable state
    the dispatcher and its workers can finish all work. \<^theory_text>\<open>Fair\<close>: under every fair schedule they do, by a measure that every
    step of a worker decreases and no other step increases.
  \<^item> \<^theory_text>\<open>Watchers\<close>, \<^theory_text>\<open>Manager\<close>: \<^verbatim>\<open>internal/watch\<close>. Each watcher is a step function over what it observes; edge
    semantics is the locale \<open>edge_stream\<close>. The manager keeps one live watcher per identifier in any interleaving of
    starts, stops and ends.
  \<^item> \<^theory_text>\<open>Rpc\<close>: \<^verbatim>\<open>internal/daemon/rpc.go\<close>. Every method keeps the invariants of store, bus and manager; what the
    changing methods do on every branch.
  \<^item> \<^theory_text>\<open>Workflow\<close>, \<^theory_text>\<open>Apply\<close>: \<^verbatim>\<open>internal/workflow\<close> and \<^verbatim>\<open>cmd/runtimepulse/cmd_apply.go\<close>. What is accepted,
    all-or-nothing installation when at most one statement of the database fails, and exactly what is left behind when the socket loses calls.
  \<^item> \<^theory_text>\<open>Chain\<close>: an installed workflow from its first event to its last step, through engine, store, worker and
    adapter: the steps run in the order of the file, each once, up to the first that fails.
  \<^item> \<^theory_text>\<open>Disk\<close>, \<^theory_text>\<open>SetupJson\<close>, \<^theory_text>\<open>SetupRules\<close>, \<^theory_text>\<open>Setup\<close>, \<^theory_text>\<open>SetupCmd\<close>, \<^theory_text>\<open>SetupOut\<close>: \<^verbatim>\<open>internal/setup\<close> and
    \<^verbatim>\<open>cmd/runtimepulse/cmd_setup.go\<close> over a file system whose calls may fail. Atomic replacement, round trips of the
    two kinds of merge (locale \<open>registry\<close>), independence of the agents, dry runs that change nothing.
  \<^item> \<^theory_text>\<open>Lifecycle\<close>: \<^verbatim>\<open>internal/daemon/daemon.go\<close>, the token check of \<^verbatim>\<open>internal/wsserver\<close> and the version text. One
    daemon per state directory through starts, failures and crashes; watches survive a restart; the token is stable; a stream sends
    each client a subsequence of what was published and leaves no subscription behind.

  \<^item> \<^theory_text>\<open>Client\<close>, \<^theory_text>\<open>Tools\<close>, \<^theory_text>\<open>Commands\<close>, \<^theory_text>\<open>McpServer\<close>: \<^verbatim>\<open>internal/client\<close>, \<^verbatim>\<open>internal/mcpserver\<close> and the
    commands of \<^verbatim>\<open>cmd/runtimepulse\<close>. A call runs one request of the daemon over a socket that may fail at every
    step; a stream is the list of what its decoder yields, and its consumer is the locale \<open>consumer\<close>, interpreted on
    the callback of \<open>wait_for_event\<close>. The first match is returned; the daemon is started at most once and awaited for a bounded
    time; the command line and the tools do the same to the daemon; \<open>exec\<close> turns an outcome into an event that fires rules.
    \<^theory_text>\<open>CommandTree\<close>: the tree of commands with flags and argument checks, as \<^verbatim>\<open>main.go\<close> builds it; no command line
    makes the program index arguments that are not there, and the commands that the program starts or registers exist.
  \<^item> \<^theory_text>\<open>Sys\<close>: the whole daemon, all of the above interleaved with the request handlers, the watch manager and the
    start of new processes. One invariant holds in every reachable state; every request is a sequence of the atomic steps;
    a removal overtaken by a repeated add leaves a watcher without a row.
  \<^item> \<^theory_text>\<open>MockExe\<close>: \<^verbatim>\<open>internal/mockexe\<close>, the fake agent of the repository's tests, does what its specification says.
  \<^item> This theory: the path from an agent's tool calls through rule, watcher, engine and store to the
    continuation that resumes it (\<open>release_and_resume\<close>).

  \<^bold>\<open>Not modelled\<close>, and why: the protocol of the third-party MCP SDK, the flag library that parses the command line
  (what is assumed of its answer is \<open>cobra_ok\<close>), the system calls that detach the daemon, the Windows variants and log output; they are pure input and output or code outside
  the repository. In the theories above the columns, times are integers (nanoseconds since Go's zero time);
  \<^theory_text>\<open>Rows\<close> shows that this makes no difference.
\<close>

section \<open>From a tool call to a resumed session\<close>


definition exRuled :: daemon where
  "exRuled = snd (createRuleHandler exClient exRuleInput exDaemon)"

definition exWatched :: daemon where
  "exWatched = snd (createWatchHandler exClient exWatchInput exRuled)"

lemma exRuled_out: "map_sum Error ro_ID (fst (createRuleHandler exClient exRuleInput exDaemon)) = Inr (idAt ''rule'' of_nat 0)"
  by code_simp

lemma exWatched_out: "isl (fst (createWatchHandler exClient exWatchInput exRuled)) = False"
  by code_simp

lemma exWatched_facts:
  "list_ex (\<lambda>x. w_Type x = ''http'' \<and> w_Target x = ''http://localhost'') (watches (db exWatched))"
  "idAt ''evt'' (rand exWatched) (nrand exWatched) \<notin> c_EventID ` set (continuations (db exWatched))"
  "freshIDs (length (rules (db exWatched))) (exWatched\<lparr>nrand := nrand exWatched + 6\<rparr>)"
  by code_simp+

definition exObs :: observations where
  "exObs = \<lparr>ob_http = (\<lambda>_. Inr 200, []), ob_tcp = (\<lambda>_. None, []), ob_self = 1, ob_procs = (Inr [], []), ob_abs = [], ob_parent = [],
     ob_file = [], ob_gitDir = [], ob_gitOk = False, ob_git = [], ob_dockerDecode = (\<lambda>_. None), ob_docker = []\<rparr>"


end
